(* ===== verification/Prelude.thy ===== *)
theory Prelude
  imports Main "HOL-Library.Word" "HOL-Library.AList" "HOL-Library.List_Lexorder"
    "HOL-Library.Char_ord"
begin

text \<open>
  Shared vocabulary of the development: machine types, Rust's \<open>Result\<close> with its panics, byte and
  string helpers (what the source uses of \<open>str\<close>, slices and \<open>format!\<close>), hash maps as association
  lists, and the generic lemmas the component theories rewrite with.

  Conventions.
  \<^item> A Rust \<open>String\<close> or \<open>&str\<close> is a \<^typ>\<open>string\<close>, one character per UTF-8 byte; a byte is an
    \<open>8 word\<close>; \<open>as_bytes\<close> is \<open>str_bytes\<close>.
  \<^item> A length of an in-memory buffer is a \<^typ>\<open>nat\<close>. Integers that arrive on a wire, and counters
    that the code increments, keep their width as words.
  \<^item> Arithmetic on words wraps: the workspace's release profile does not enable overflow checks.
\<close>

section \<open>Machine types\<close>

type_synonym byte = "8 word"
type_synonym bytes = "byte list"
type_synonym u16 = "16 word"
type_synonym u32 = "32 word"
type_synonym u64 = "64 word"

lemma unat_len: "n < 2 ^ 64 \<Longrightarrow> unat (word_of_nat n :: u64) = n"
  by (simp add: unat_of_nat take_bit_nat_eq_self)

named_theorems wf_intros \<open>well-formedness is kept by an operation\<close>
named_theorems hm_simps \<open>lookup and key laws of hash maps\<close>

section \<open>Results\<close>

text \<open>\<open>Result<T, E>\<close>, with the third outcome a Rust call can have: it panics and does not return.\<close>

datatype ('a, 'e) result = Ok (ok_val: 'a) | Err (err_val: 'e) | Panic

text \<open>The \<open>?\<close> operator.\<close>

fun rbind :: "('a, 'e) result \<Rightarrow> ('a \<Rightarrow> ('b, 'e) result) \<Rightarrow> ('b, 'e) result" where
  "rbind (Ok x) f = f x"
| "rbind (Err e) f = Err e"
| "rbind Panic f = Panic"

text \<open>\<open>map_err\<close>, \<open>ok_or\<close> and \<open>unwrap\<close>.\<close>

fun map_err :: "('e \<Rightarrow> 'f) \<Rightarrow> ('a, 'e) result \<Rightarrow> ('a, 'f) result" where
  "map_err g (Ok x) = Ok x"
| "map_err g (Err e) = Err (g e)"
| "map_err g Panic = Panic"

fun ok_or :: "'e \<Rightarrow> 'a option \<Rightarrow> ('a, 'e) result" where
  "ok_or e (Some x) = Ok x"
| "ok_or e None = Err e"

fun unwrap :: "'a option \<Rightarrow> ('a, 'e) result" where
  "unwrap (Some x) = Ok x"
| "unwrap None = Panic"

lemma rbind_eq_Ok [simp]: "rbind r f = Ok y \<longleftrightarrow> (\<exists>x. r = Ok x \<and> f x = Ok y)"
  by (cases r) auto

lemma rbind_eq_Err: "rbind r f = Err e \<longleftrightarrow> r = Err e \<or> (\<exists>x. r = Ok x \<and> f x = Err e)"
  by (cases r) auto

lemma rbind_eq_Panic: "rbind r f = Panic \<longleftrightarrow> r = Panic \<or> (\<exists>x. r = Ok x \<and> f x = Panic)"
  by (cases r) auto

lemma rbind_assoc: "rbind (rbind r f) g = rbind r (\<lambda>x. rbind (f x) g)"
  by (cases r) auto

lemma rbind_not_PanicI:
  "r \<noteq> Panic \<Longrightarrow> (\<And>x. r = Ok x \<Longrightarrow> f x \<noteq> Panic) \<Longrightarrow> rbind r f \<noteq> Panic"
  by (cases r) auto

lemma map_err_eq_Ok [simp]: "map_err g r = Ok y \<longleftrightarrow> r = Ok y"
  by (cases r) auto

lemma map_err_eq_Err [simp]: "map_err g r = Err f \<longleftrightarrow> (\<exists>e. r = Err e \<and> f = g e)"
  by (cases r) auto

lemma map_err_eq_Panic [simp]: "map_err g r = Panic \<longleftrightarrow> r = Panic"
  by (cases r) auto

lemma ok_or_eq_Ok [simp]: "ok_or e r = Ok y \<longleftrightarrow> r = Some y"
  by (cases r) auto

lemma ok_or_eq_Err [simp]: "ok_or e r = Err f \<longleftrightarrow> r = None \<and> e = f"
  by (cases r) auto

lemma ok_or_not_Panic [simp]: "ok_or e r \<noteq> Panic"
  by (cases r) auto

lemma unwrap_eq_Ok [simp]: "unwrap r = Ok y \<longleftrightarrow> r = Some y"
  by (cases r) auto

lemma unwrap_not_Err [simp]: "unwrap r \<noteq> Err f"
  by (cases r) auto

lemma unwrap_eq_Panic [simp]: "unwrap r = Panic \<longleftrightarrow> r = None"
  by (cases r) auto

text \<open>
  Operations on a state return the result beside the state, which keeps what the operation did before
  it failed; \<open>sbind\<close> is the \<open>?\<close> operator of such an operation.
\<close>

type_synonym ('a, 'e, 's) stateful = "('a, 'e) result \<times> 's"

fun sbind :: "('a, 'e, 's) stateful \<Rightarrow> ('a \<Rightarrow> 's \<Rightarrow> ('b, 'e, 's) stateful) \<Rightarrow> ('b, 'e, 's) stateful" where
  "sbind (Ok x, s) f = f x s"
| "sbind (Err e, s) f = (Err e, s)"
| "sbind (Panic, s) f = (Panic, s)"

lemma sbind_eq: "sbind m f = (case fst m of Ok x \<Rightarrow> f x (snd m) | Err e \<Rightarrow> (Err e, snd m) | Panic \<Rightarrow> (Panic, snd m))"
  by (cases m; cases "fst m") auto

lemma sbind_eq_Ok: "sbind m f = (Ok y, t) \<longleftrightarrow> (\<exists>x s. m = (Ok x, s) \<and> f x s = (Ok y, t))"
  by (cases m; cases "fst m") auto

lemma sbind_inv:
  assumes "P (snd m)" and "\<And>x s. m = (Ok x, s) \<Longrightarrow> P s \<Longrightarrow> P (snd (f x s))"
  shows "P (snd (sbind m f))"
  using assms by (cases m; cases "fst m") auto

section \<open>Lists\<close>

lemma list_ex_disj: "list_ex (\<lambda>x. P x \<or> Q x) xs \<longleftrightarrow> list_ex P xs \<or> list_ex Q xs"
  by (induction xs) auto

lemma map_filter_mem: "x \<in> set (List.map_filter f xs) \<longleftrightarrow> (\<exists>y \<in> set xs. f y = Some x)"
  by (induction xs) (auto simp: List.map_filter_simps split: option.splits)

lemma distinct_map_filter:
  assumes "distinct xs" and "\<And>x y z. x \<in> set xs \<Longrightarrow> y \<in> set xs \<Longrightarrow> f x = Some z \<Longrightarrow> f y = Some z \<Longrightarrow> x = y"
  shows "distinct (List.map_filter f xs)"
  using assms
proof (induction xs)
  case (Cons x xs)
  have IH: "distinct (List.map_filter f xs)"
    by (rule Cons.IH) (use Cons.prems in auto)
  show ?case
  proof (cases "f x")
    case (Some z)
    have "z \<notin> set (List.map_filter f xs)"
    proof
      assume "z \<in> set (List.map_filter f xs)"
      then obtain y where "y \<in> set xs" "f y = Some z" by (auto simp: map_filter_mem)
      with Cons.prems(2) [of x y z] Some have "x = y" by simp
      with \<open>y \<in> set xs\<close> Cons.prems(1) show False by simp
    qed
    with IH Some show ?thesis by (simp add: List.map_filter_simps)
  qed (simp add: IH List.map_filter_simps)
qed (simp add: List.map_filter_simps)

section \<open>Bytes and strings\<close>

definition byte_of_char :: "char \<Rightarrow> byte" where
  "byte_of_char c = word_of_nat (of_char c)"

definition char_of_byte :: "byte \<Rightarrow> char" where
  "char_of_byte b = char_of (unat b)"

definition str_bytes :: "string \<Rightarrow> bytes" where
  "str_bytes s = map byte_of_char s"

definition bytes_str :: "bytes \<Rightarrow> string" where
  "bytes_str bs = map char_of_byte bs"

lemma unat_byte_of_char [simp]: "unat (byte_of_char c) = of_char c"
  by (simp add: byte_of_char_def unat_of_nat take_bit_eq_mod)

lemma char_of_byte_of_char [simp]: "char_of_byte (byte_of_char c) = c"
  by (simp add: char_of_byte_def)

lemma byte_of_char_of_byte [simp]: "byte_of_char (char_of_byte b) = b"
proof -
  have "unat b < 256"
    using unsigned_less [of b, where ?'a = nat] by simp
  then show ?thesis
    by (simp add: byte_of_char_def char_of_byte_def of_char_of)
qed

lemma byte_of_char_inject [simp]: "byte_of_char c = byte_of_char d \<longleftrightarrow> c = d"
  by (metis char_of_byte_of_char)

lemma bytes_str_str_bytes [simp]: "bytes_str (str_bytes s) = s"
  by (simp add: bytes_str_def str_bytes_def o_def)

lemma str_bytes_bytes_str [simp]: "str_bytes (bytes_str bs) = bs"
  by (simp add: bytes_str_def str_bytes_def o_def)

lemma length_str_bytes [simp]: "length (str_bytes s) = length s"
  by (simp add: str_bytes_def)

lemma length_bytes_str [simp]: "length (bytes_str s) = length s"
  by (simp add: bytes_str_def)

lemma str_bytes_Nil [simp]: "str_bytes [] = []"
  by (simp add: str_bytes_def)

lemma str_bytes_Cons [simp]: "str_bytes (c # s) = byte_of_char c # str_bytes s"
  by (simp add: str_bytes_def)

lemma str_bytes_append [simp]: "str_bytes (s @ t) = str_bytes s @ str_bytes t"
  by (simp add: str_bytes_def)

lemma bytes_str_append [simp]: "bytes_str (s @ t) = bytes_str s @ bytes_str t"
  by (simp add: bytes_str_def)

lemma str_bytes_inject [simp]: "str_bytes s = str_bytes t \<longleftrightarrow> s = t"
  by (metis bytes_str_str_bytes)

text \<open>\<open>iter().position(p)\<close>: the index of the first element that satisfies the predicate.\<close>

fun position :: "('a \<Rightarrow> bool) \<Rightarrow> 'a list \<Rightarrow> nat option" where
  "position P [] = None"
| "position P (x # xs) = (if P x then Some 0 else map_option Suc (position P xs))"

lemma position_None [simp]: "position P xs = None \<longleftrightarrow> (\<forall>x \<in> set xs. \<not> P x)"
  by (induction xs) auto

lemma position_SomeD:
  "position P xs = Some i \<Longrightarrow> i < length xs \<and> P (xs ! i) \<and> (\<forall>x \<in> set (take i xs). \<not> P x)"
  by (induction xs arbitrary: i) (auto split: if_splits)

lemma position_append_hit:
  "\<forall>x \<in> set xs. \<not> P x \<Longrightarrow> P y \<Longrightarrow> position P (xs @ y # ys) = Some (length xs)"
  by (induction xs) auto

lemma position_map: "position P (map f xs) = position (\<lambda>x. P (f x)) xs"
  by (induction xs) auto

text \<open>\<open>str::find(c)\<close> and \<open>str::split_once(c)\<close>.\<close>

definition find_char :: "char \<Rightarrow> string \<Rightarrow> nat option" where
  "find_char c s = position (\<lambda>x. x = c) s"

definition split_once :: "char \<Rightarrow> string \<Rightarrow> (string \<times> string) option" where
  "split_once c s =
     (case find_char c s of None \<Rightarrow> None | Some i \<Rightarrow> Some (take i s, drop (Suc i) s))"

lemma find_char_append:
  "c \<notin> set s \<Longrightarrow> find_char c (s @ c # t) = Some (length s)"
  unfolding find_char_def by (rule position_append_hit) auto

lemma split_once_append [simp]:
  "c \<notin> set s \<Longrightarrow> split_once c (s @ c # t) = Some (s, t)"
  by (simp add: split_once_def find_char_append)

lemma split_once_SomeD:
  assumes "split_once c s = Some (a, b)"
  shows "s = a @ c # b \<and> c \<notin> set a"
proof -
  from assms obtain i where i: "position (\<lambda>x. x = c) s = Some i" "a = take i s" "b = drop (Suc i) s"
    by (auto simp: split_once_def find_char_def split: option.splits)
  from position_SomeD [OF i(1)] have lt: "i < length s" and hit: "s ! i = c"
    and before: "\<forall>x \<in> set (take i s). x \<noteq> c"
    by auto
  have "s = take i s @ s ! i # drop (Suc i) s"
    using lt by (rule id_take_nth_drop)
  with i hit before show ?thesis by auto
qed

definition starts_with :: "string \<Rightarrow> string \<Rightarrow> bool" where
  "starts_with s p \<longleftrightarrow> take (length p) s = p"

definition ends_with :: "string \<Rightarrow> string \<Rightarrow> bool" where
  "ends_with s p \<longleftrightarrow> length p \<le> length s \<and> drop (length s - length p) s = p"

lemma ends_with_set: "ends_with s p \<Longrightarrow> set p \<subseteq> set s"
  by (metis ends_with_def in_set_dropD subsetI)

text \<open>Decimal formatting of unsigned integers, \<open>format!("{}", n)\<close>.\<close>

fun show_nat :: "nat \<Rightarrow> string" where
  "show_nat n =
     (if n < 10 then [char_of (48 + n)] else show_nat (n div 10) @ [char_of (48 + n mod 10)])"

declare show_nat.simps [simp del]

text \<open>
  \<open>str::trim\<close>: the white space of Unicode, as UTF-8 sequences, is stripped from both ends.
\<close>

definition white_space :: "string list" where
  "white_space = map bytes_str
     ([[0x09], [0x0A], [0x0B], [0x0C], [0x0D], [0x20], [0xC2, 0x85], [0xC2, 0xA0], [0xE1, 0x9A, 0x80]] @
      map (\<lambda>b. [0xE2, 0x80, b])
        [0x80, 0x81, 0x82, 0x83, 0x84, 0x85, 0x86, 0x87, 0x88, 0x89, 0x8A, 0xA8, 0xA9, 0xAF] @
      [[0xE2, 0x81, 0x9F], [0xE3, 0x80, 0x80]])"

fun strip :: "string list \<Rightarrow> nat \<Rightarrow> string \<Rightarrow> string" where
  "strip ws 0 s = s"
| "strip ws (Suc n) s = (case find (starts_with s) ws of None \<Rightarrow> s | Some w \<Rightarrow> strip ws n (drop (length w) s))"

definition trim_start :: "string \<Rightarrow> string" where
  "trim_start s = strip white_space (length s) s"

definition trim_end :: "string \<Rightarrow> string" where
  "trim_end s = rev (strip (map rev white_space) (length s) (rev s))"

definition trim :: "string \<Rightarrow> string" where
  "trim s = trim_end (trim_start s)"

text \<open>\<open>str::parse\<close> of an unsigned integer of the given width: decimal digits, an optional \<open>+\<close>.\<close>

fun dec_val :: "nat \<Rightarrow> string \<Rightarrow> nat option" where
  "dec_val acc [] = Some acc"
| "dec_val acc (c # s) =
     (let d = (of_char c :: nat) in
      if 48 \<le> d \<and> d \<le> 57 then dec_val (10 * acc + (d - 48)) s else None)"

definition parse_uint :: "nat \<Rightarrow> string \<Rightarrow> nat option" where
  "parse_uint bits s =
     (let digits = (if starts_with s ''+'' then tl s else s) in
      if digits = [] then None
      else case dec_val 0 digits of
             None \<Rightarrow> None
           | Some n \<Rightarrow> if n < 2 ^ bits then Some n else None)"

lemma dec_val_append:
  "dec_val acc (s @ t) = (case dec_val acc s of None \<Rightarrow> None | Some n \<Rightarrow> dec_val n t)"
  by (induction acc s rule: dec_val.induct) (auto simp: Let_def)

lemma dec_val_show_nat: "dec_val 0 (show_nat n) = Some n"
proof (induction n rule: show_nat.induct)
  case (1 n)
  have digit: "(of_char (char_of (48 + d) :: char) :: nat) = 48 + d" if "d < 10" for d :: nat
    using that by (simp add: of_char_of)
  show ?case
  proof (cases "n < 10")
    case True
    then show ?thesis
      by (simp add: show_nat.simps [of n] digit Let_def)
  next
    case False
    then show ?thesis
      using 1 by (simp add: show_nat.simps [of n] dec_val_append digit Let_def)
  qed
qed

lemma show_nat_digits:
  "show_nat n \<noteq> [] \<and> (\<forall>c \<in> set (show_nat n). 48 \<le> (of_char c :: nat) \<and> (of_char c :: nat) \<le> 57)"
proof (induction n rule: show_nat.induct)
  case (1 n)
  have digit: "(of_char (char_of (48 + d) :: char) :: nat) = 48 + d" if "d < 10" for d :: nat
    using that by (simp add: of_char_of)
  have d: "n mod 10 < 10" by simp
  then have "n mod 10 \<le> 9" by linarith
  then show ?case
    using 1 digit [OF d] digit [of n] by (simp add: show_nat.simps [of n])
qed

lemma parse_uint_show_nat: "n < 2 ^ bits \<Longrightarrow> parse_uint bits (show_nat n) = Some n"
proof -
  have "\<not> starts_with (show_nat n) ''+''"
    using show_nat_digits [of n] by (cases "show_nat n") (auto simp: starts_with_def)
  then show "n < 2 ^ bits \<Longrightarrow> parse_uint bits (show_nat n) = Some n"
    using show_nat_digits [of n] by (simp add: parse_uint_def dec_val_show_nat Let_def)
qed

section \<open>Hash maps\<close>

text \<open>
  A \<open>HashMap\<close>, \<open>BTreeMap\<close> or \<open>DashMap\<close> is an association list with distinct keys. The order of the
  list stands for the map's iteration order, which Rust leaves unspecified: what is proved of the
  code either does not iterate or holds of every order.
\<close>

type_synonym ('k, 'v) hmap = "('k \<times> 'v) list"

definition hget :: "('k, 'v) hmap \<Rightarrow> 'k \<Rightarrow> 'v option" where
  "hget m k = map_of m k"

definition hput :: "'k \<Rightarrow> 'v \<Rightarrow> ('k, 'v) hmap \<Rightarrow> ('k, 'v) hmap" where
  "hput k v m = AList.update k v m"

definition hdel :: "'k \<Rightarrow> ('k, 'v) hmap \<Rightarrow> ('k, 'v) hmap" where
  "hdel k m = AList.delete k m"

definition hm_ok :: "('k, 'v) hmap \<Rightarrow> bool" where
  "hm_ok m \<longleftrightarrow> distinct (map fst m)"

definition hkeys :: "('k, 'v) hmap \<Rightarrow> 'k list" where
  "hkeys m = map fst m"

definition hvals :: "('k, 'v) hmap \<Rightarrow> 'v list" where
  "hvals m = map snd m"

text \<open>\<open>entry(k).or_insert(d)\<close> followed by an update of the entry in place.\<close>

definition hentry :: "'k \<Rightarrow> 'v \<Rightarrow> ('v \<Rightarrow> 'v) \<Rightarrow> ('k, 'v) hmap \<Rightarrow> ('k, 'v) hmap" where
  "hentry k d f m = hput k (f (case hget m k of None \<Rightarrow> d | Some v \<Rightarrow> v)) m"

text \<open>\<open>values_mut\<close> and \<open>retain\<close>.\<close>

definition hmap_vals :: "('v \<Rightarrow> 'w) \<Rightarrow> ('k, 'v) hmap \<Rightarrow> ('k, 'w) hmap" where
  "hmap_vals f m = map (\<lambda>(k, v). (k, f v)) m"

definition hretain :: "('k \<Rightarrow> 'v \<Rightarrow> bool) \<Rightarrow> ('k, 'v) hmap \<Rightarrow> ('k, 'v) hmap" where
  "hretain P m = filter (\<lambda>(k, v). P k v) m"

lemma hget_Nil [simp, hm_simps]: "hget [] k = None"
  by (simp add: hget_def)

lemma hget_Cons: "hget ((k, v) # m) k' = (if k = k' then Some v else hget m k')"
  by (simp add: hget_def)

lemma hget_hput [simp, hm_simps]: "hget (hput k v m) k' = (if k' = k then Some v else hget m k')"
  by (simp add: hget_def hput_def update_conv')

lemma hget_hdel [simp, hm_simps]: "hget (hdel k m) k' = (if k' = k then None else hget m k')"
  by (simp add: hget_def hdel_def delete_conv')

lemma hget_hentry [simp, hm_simps]:
  "hget (hentry k d f m) k' =
     (if k' = k then Some (f (case hget m k of None \<Rightarrow> d | Some v \<Rightarrow> v)) else hget m k')"
  by (simp add: hentry_def)

lemma hm_ok_Nil [simp, wf_intros]: "hm_ok []"
  by (simp add: hm_ok_def)

lemma hm_ok_hput [simp, wf_intros]: "hm_ok m \<Longrightarrow> hm_ok (hput k v m)"
  by (simp add: hm_ok_def hput_def distinct_update)

lemma hm_ok_hdel [simp, wf_intros]: "hm_ok m \<Longrightarrow> hm_ok (hdel k m)"
  by (simp add: hm_ok_def hdel_def distinct_delete)

lemma hm_ok_hentry [simp, wf_intros]: "hm_ok m \<Longrightarrow> hm_ok (hentry k d f m)"
  by (simp add: hentry_def)

lemma hget_eq_Some: "hm_ok m \<Longrightarrow> hget m k = Some v \<longleftrightarrow> (k, v) \<in> set m"
  by (simp add: hm_ok_def hget_def)

lemma hget_SomeD: "hget m k = Some v \<Longrightarrow> (k, v) \<in> set m"
  by (simp add: hget_def map_of_SomeD)

lemma hget_None: "hget m k = None \<longleftrightarrow> k \<notin> set (hkeys m)"
  by (simp add: hget_def hkeys_def map_of_eq_None_iff)

lemma set_hkeys_hput [simp, hm_simps]: "set (hkeys (hput k v m)) = insert k (set (hkeys m))"
  by (auto simp: hkeys_def hput_def AList.update_keys)

lemma set_hkeys_hdel [simp, hm_simps]: "set (hkeys (hdel k m)) = set (hkeys m) - {k}"
  by (simp add: hkeys_def hdel_def delete_keys)

lemma hget_hmap_vals [simp, hm_simps]: "hget (hmap_vals f m) k = map_option f (hget m k)"
  by (induction m) (auto simp: hmap_vals_def hget_def)

lemma hm_ok_hmap_vals [simp, wf_intros]: "hm_ok (hmap_vals f m) \<longleftrightarrow> hm_ok m"
  by (simp add: hm_ok_def hmap_vals_def o_def case_prod_beta)

lemma hm_ok_hretain [simp, wf_intros]: "hm_ok m \<Longrightarrow> hm_ok (hretain P m)"
  by (induction m) (auto simp: hm_ok_def hretain_def)

lemma hget_hretain [simp, hm_simps]:
  "hm_ok m \<Longrightarrow> hget (hretain P m) k = (case hget m k of None \<Rightarrow> None | Some v \<Rightarrow> if P k v then Some v else None)"
proof (induction m)
  case (Cons kv m)
  obtain k' v where kv: "kv = (k', v)" by force
  with Cons.prems have new: "k' \<notin> set (hkeys m)" and ok: "hm_ok m"
    by (auto simp: hm_ok_def hkeys_def)
  then have "hget m k' = None" by (simp add: hget_None)
  then show ?case
    using Cons.IH [OF ok] by (auto simp: kv hretain_def hget_Cons split: option.splits)
qed (simp add: hretain_def)

end
