(* ===== verification/Kappa_Label.thy ===== *)
theory Kappa_Label
  imports Prelude
begin

unbundle bit_operations_syntax

text \<open>
  Kappa-labels (\<open>kappa-core/src/kappa/label.rs\<close>): the digest axes, the error type, the validated
  fixed-size label, its parser, its accessors and the digest complement. The group of lemmas shows
  what a parsed label looks like, that parsing and printing are inverse, that the accessors never
  panic on a well-formed label, and that the complement is an involution on well-formed labels.
\<close>

section \<open>Axes\<close>

datatype Axis = Sha1 | Sha256 | Blake3 | Sha512 | Sha3_256 | Keccak256

fun axis_as_str :: "Axis \<Rightarrow> string" where
  "axis_as_str Sha1 = ''sha1''"
| "axis_as_str Sha256 = ''sha256''"
| "axis_as_str Blake3 = ''blake3''"
| "axis_as_str Sha512 = ''sha512''"
| "axis_as_str Sha3_256 = ''sha3-256''"
| "axis_as_str Keccak256 = ''keccak256''"

fun hex_digits :: "Axis \<Rightarrow> nat" where
  "hex_digits Sha1 = 40"
| "hex_digits Sha256 = 64"
| "hex_digits Blake3 = 64"
| "hex_digits Sha3_256 = 64"
| "hex_digits Keccak256 = 64"
| "hex_digits Sha512 = 128"

definition digest_bytes :: "Axis \<Rightarrow> nat" where
  "digest_bytes a = hex_digits a div 2"

definition label_len :: "Axis \<Rightarrow> nat" where
  "label_len a = length (axis_as_str a) + 1 + hex_digits a"

definition axis_parse :: "string \<Rightarrow> Axis option" where
  "axis_parse s =
     (if s = ''sha1'' then Some Sha1
      else if s = ''sha256'' then Some Sha256
      else if s = ''blake3'' then Some Blake3
      else if s = ''sha512'' then Some Sha512
      else if s = ''sha3-256'' then Some Sha3_256
      else if s = ''keccak256'' then Some Keccak256
      else None)"

lemma axis_parse_as_str [simp]: "axis_parse (axis_as_str a) = Some a"
  by (cases a) (simp_all add: axis_parse_def)

lemma axis_parse_SomeD: "axis_parse s = Some a \<Longrightarrow> s = axis_as_str a"
  by (auto simp: axis_parse_def split: if_splits)

lemma axis_as_str_inject [simp]: "axis_as_str a = axis_as_str b \<longleftrightarrow> a = b"
  by (metis axis_parse_as_str option.inject)

lemma colon_notin_axis [simp]: "CHR '':'' \<notin> set (axis_as_str a)"
  by (cases a) simp_all

lemma slash_notin_axis [simp]: "CHR ''/'' \<notin> set (axis_as_str a)"
  by (cases a) simp_all

lemma axis_as_str_ne [simp]: "axis_as_str a \<noteq> []"
  by (cases a) simp_all

lemma digest_bytes_twice: "2 * digest_bytes a = hex_digits a"
  by (cases a) (simp_all add: digest_bytes_def)

lemma digest_bytes_ge: "20 \<le> digest_bytes a"
  by (cases a) (simp_all add: digest_bytes_def)

lemma label_len_bounds: "45 \<le> label_len a \<and> label_len a \<le> 135"
  by (cases a) (simp_all add: label_len_def)

section \<open>Errors\<close>

datatype LabelError =
    BadLength nat
  | NoColon
  | UnknownAxis
  | BadHex nat byte
  | WrongDigitCount nat nat
  | CollisionDetected
  | LabelDigestMismatch string string string

section \<open>Hex digits\<close>

definition HEX :: bytes where
  "HEX = str_bytes ''0123456789abcdef''"

definition is_hex_byte :: "byte \<Rightarrow> bool" where
  "is_hex_byte b \<longleftrightarrow> (48 \<le> b \<and> b \<le> 57) \<or> (97 \<le> b \<and> b \<le> 102)"

definition hex_nibble :: "byte \<Rightarrow> byte option" where
  "hex_nibble b =
     (if 48 \<le> b \<and> b \<le> 57 then Some (b - 48)
      else if 97 \<le> b \<and> b \<le> 102 then Some (b - 97 + 10)
      else None)"

text \<open>The two digits of a byte, as \<open>HEX[(byte >> 4) as usize]\<close> and \<open>HEX[(byte & 0x0f) as usize]\<close>.\<close>

definition hex_pair :: "byte \<Rightarrow> bytes" where
  "hex_pair b = [HEX ! unat (drop_bit 4 b), HEX ! unat (b AND 0x0f)]"

text \<open>The loop that writes the digits of \<open>bs\<close> into \<open>buf\<close> from position \<open>off\<close> on.\<close>

fun write_hex :: "nat \<Rightarrow> bytes \<Rightarrow> bytes \<Rightarrow> bytes" where
  "write_hex off [] buf = buf"
| "write_hex off (b # bs) buf =
     write_hex (off + 2) bs
       (buf[off := HEX ! unat (drop_bit 4 b), off + 1 := HEX ! unat (b AND 0x0f)])"

section \<open>Labels\<close>

record KappaLabel =
  kl_buf :: bytes
  kl_len :: byte

definition from_parts :: "bytes \<Rightarrow> byte \<Rightarrow> KappaLabel" where
  "from_parts b l = \<lparr>kl_buf = b, kl_len = l\<rparr>"

text \<open>The scan for a byte that is not a lowercase hex digit; the first one is reported.\<close>

fun check_hex :: "nat \<Rightarrow> bytes \<Rightarrow> (unit, LabelError) result" where
  "check_hex pos [] = Ok ()"
| "check_hex pos (b # bs) = (if is_hex_byte b then check_hex (pos + 1) bs else Err (BadHex pos b))"

text \<open>The error messages.\<close>

fun label_error_msg :: "LabelError \<Rightarrow> string" where
  "label_error_msg (BadLength got) = ''length '' @ show_nat got @ '' not in 45..=135''"
| "label_error_msg NoColon = ''no colon separator''"
| "label_error_msg UnknownAxis = ''unrecognized axis token''"
| "label_error_msg (BadHex pos b) = ''non-hex byte 0x'' @ bytes_str (hex_pair b) @ '' at position '' @ show_nat pos"
| "label_error_msg (WrongDigitCount expected got) =
     ''expected '' @ show_nat expected @ '' hex digits, got '' @ show_nat got"
| "label_error_msg CollisionDetected = ''SHA-1 collision detected, content rejected''"
| "label_error_msg (LabelDigestMismatch expected computed axis) =
     ''digest mismatch on axis '' @ axis @ '': expected '' @ expected @ '', computed '' @ computed"

definition label_parse :: "string \<Rightarrow> (KappaLabel, LabelError) result" where
  "label_parse s =
     (let bs = str_bytes s in
      if \<not> (45 \<le> length bs \<and> length bs \<le> 135) then Err (BadLength (length bs))
      else rbind (ok_or NoColon (position (\<lambda>b. b = byte_of_char CHR '':'') bs)) (\<lambda>colon.
           rbind (ok_or UnknownAxis (axis_parse (take colon s))) (\<lambda>axis.
           let hex_part = drop (colon + 1) bs in
           if length hex_part \<noteq> hex_digits axis
           then Err (WrongDigitCount (hex_digits axis) (length hex_part))
           else rbind (check_hex (colon + 1) hex_part) (\<lambda>_.
                Ok \<lparr>kl_buf = bs @ replicate (135 - length bs) 0, kl_len = of_nat (length bs)\<rparr>))))"

text \<open>
  \<open>as_str\<close> reads the used part of the buffer. Its \<open>from_utf8(..).unwrap()\<close> needs that part to be
  UTF-8, which lemma \<open>label_wf_ascii\<close> gives for the labels the constructors build.
\<close>

definition label_as_str :: "KappaLabel \<Rightarrow> string" where
  "label_as_str l = bytes_str (take (unat (kl_len l)) (kl_buf l))"

definition label_axis :: "KappaLabel \<Rightarrow> (string, LabelError) result" where
  "label_axis l =
     (let s = label_as_str l in
      rbind (unwrap (find_char CHR '':'' s)) (\<lambda>i. Ok (take i s)))"

definition label_axis_enum :: "KappaLabel \<Rightarrow> (Axis, LabelError) result" where
  "label_axis_enum l = rbind (label_axis l) (\<lambda>a. unwrap (axis_parse a))"

definition label_hex_digest :: "KappaLabel \<Rightarrow> (string, LabelError) result" where
  "label_hex_digest l =
     (let s = label_as_str l in
      rbind (unwrap (find_char CHR '':'' s)) (\<lambda>i. Ok (drop (i + 1) s)))"

text \<open>
  The complement loop over \<open>chunks_exact(2)\<close>: a last odd digit is left out, a digit that is not hex
  panics at \<open>unwrap\<close>.
\<close>

fun complement_pairs :: "bytes \<Rightarrow> (bytes, LabelError) result" where
  "complement_pairs (h # l # rest) =
     rbind (unwrap (hex_nibble h)) (\<lambda>hi.
     rbind (unwrap (hex_nibble l)) (\<lambda>lo.
     rbind (complement_pairs rest) (\<lambda>ds.
     Ok (NOT (push_bit 4 hi OR lo) # ds))))"
| "complement_pairs _ = Ok []"

definition complement :: "KappaLabel \<Rightarrow> (KappaLabel, LabelError) result" where
  "complement l =
     rbind (unwrap (position (\<lambda>b. b = byte_of_char CHR '':'') (take (unat (kl_len l)) (kl_buf l)))) (\<lambda>colon.
     let prefix_len = colon + 1;
         out0 = take prefix_len (kl_buf l) @ replicate (135 - prefix_len) 0;
         hex_bytes = drop prefix_len (take (unat (kl_len l)) (kl_buf l))
     in rbind (complement_pairs hex_bytes) (\<lambda>comps.
        Ok \<lparr>kl_buf = write_hex prefix_len comps out0, kl_len = kl_len l\<rparr>))"


section \<open>Digits of bytes\<close>

lemma HEX_digit:
  assumes "n < 16"
  shows "hex_nibble (HEX ! n) = Some (of_nat n) \<and> is_hex_byte (HEX ! n)"
proof -
  have "\<forall>n \<in> set [0..<16]. hex_nibble (HEX ! n) = Some (of_nat n) \<and> is_hex_byte (HEX ! n)"
    by code_simp
  with assms show ?thesis by simp
qed

lemma hex_nibble_HEX:
  assumes "is_hex_byte c"
  shows "\<exists>n < 16. hex_nibble c = Some (of_nat n) \<and> c = HEX ! n"
proof -
  have digits: "\<forall>m \<in> set ([48..<58] @ [97..<103]).
          list_ex (\<lambda>n. hex_nibble (of_nat m) = Some (of_nat n) \<and> of_nat m = HEX ! n) [0..<16]"
    by code_simp
  have "unat c \<in> set ([48..<58] @ [97..<103])"
    using assms unfolding set_append set_upt is_hex_byte_def word_le_nat_alt by auto
  from bspec [OF digits this] show ?thesis
    by (force simp: list_ex_iff)
qed

lemma unat_drop_bit_4: "unat (drop_bit 4 (b :: byte)) < 16"
  unfolding unat_drop_bit_eq
  using unsigned_less [of b, where ?'a = nat] by (simp add: drop_bit_eq_div)

lemma unat_and_15: "unat (b AND 0x0f :: byte) < 16"
proof -
  have "b AND 0x0f \<le> (0x0f :: byte)"
    by (rule word_and_le1)
  then show ?thesis
    by (simp add: word_le_nat_alt)
qed

lemma nibbles_byte: "push_bit 4 (drop_bit 4 b) OR (b AND 0x0f) = (b :: byte)"
proof (rule bit_eqI)
  fix n assume "possible_bit TYPE(byte) n"
  have "bit (15 :: byte) n \<longleftrightarrow> n < 4"
  proof -
    have "(15 :: byte) = mask 4"
      by (simp add: mask_eq_exp_minus_1)
    then show ?thesis
      using \<open>possible_bit TYPE(byte) n\<close> by (simp only: bit_mask_iff simp_thms)
  qed
  then show "bit (push_bit 4 (drop_bit 4 b) OR (b AND 0x0f)) n \<longleftrightarrow> bit b n"
    by (auto simp: bit_or_iff bit_and_iff bit_push_bit_iff bit_drop_bit_eq dest: bit_imp_le_length)
qed

lemma length_hex_pair [simp]: "length (hex_pair b) = 2"
  by (simp add: hex_pair_def)

lemma is_hex_pair: "\<forall>c \<in> set (hex_pair b). is_hex_byte c"
  using HEX_digit [OF unat_drop_bit_4, of b] HEX_digit [OF unat_and_15, of b]
  by (simp add: hex_pair_def)

lemma length_hex_pairs [simp]: "length (concat (map hex_pair bs)) = 2 * length bs"
  by (induction bs) auto

lemma is_hex_pairs: "\<forall>c \<in> set (concat (map hex_pair bs)). is_hex_byte c"
  using is_hex_pair by auto

text \<open>Every string of hex digits of even length is the digits of some bytes.\<close>

lemma hex_bytes_pairs:
  assumes "even (length hs)" and "\<forall>c \<in> set hs. is_hex_byte c"
  shows "\<exists>bs. hs = concat (map hex_pair bs)"
  using assms
proof (induction hs rule: induct_list012)
  case 1
  show ?case by (rule exI [of _ "[]"]) simp
next
  case (2 x)
  then show ?case by simp
next
  case (3 x y zs)
  then obtain bs where bs: "zs = concat (map hex_pair bs)" by auto
  from 3 obtain m n where m: "m < 16" "x = HEX ! m" and n: "n < 16" "y = HEX ! n"
    using hex_nibble_HEX by (metis list.set_intros(1,2))
  define k where "k = 16 * m + n"
  define b :: byte where "b = of_nat k"
  have "k < 256" using m n by (simp add: k_def)
  then have ub: "unat b = 16 * m + n"
    by (simp add: b_def unat_of_nat take_bit_eq_mod flip: k_def)
  have hi: "unat (drop_bit 4 b) = m"
    unfolding unat_drop_bit_eq ub using n by (simp add: drop_bit_eq_div)
  have "b AND 0x0f = take_bit 4 b"
    by (simp add: take_bit_eq_mask mask_eq_exp_minus_1)
  then have "unat (b AND 0x0f) = take_bit 4 (unat b)"
    by (simp only: unsigned_take_bit_eq)
  then have lo: "unat (b AND 0x0f) = n"
    unfolding ub using n by (simp add: take_bit_eq_mod)
  have "hex_pair b = [x, y]"
    using hi lo m n by (simp add: hex_pair_def)
  then have "x # y # zs = concat (map hex_pair (b # bs))"
    by (simp add: bs)
  then show ?case by blast
qed

lemma complement_pairs_hex:
  "complement_pairs (concat (map hex_pair bs)) = Ok (map (\<lambda>b. NOT b) bs)"
proof (induction bs)
  case Nil
  show ?case by simp
next
  case (Cons b bs)
  have "hex_nibble (HEX ! unat (drop_bit 4 b)) = Some (drop_bit 4 b)"
    "hex_nibble (HEX ! unat (b AND 0x0f)) = Some (b AND 0x0f)"
    using HEX_digit [OF unat_drop_bit_4, of b] HEX_digit [OF unat_and_15, of b] by simp_all
  moreover have "NOT (push_bit 4 (drop_bit 4 b) OR (b AND 0x0f)) = NOT b"
    by (simp only: nibbles_byte)
  ultimately show ?case
    using Cons.IH by (simp add: hex_pair_def)
qed

lemma length_write_hex [simp]: "length (write_hex off bs out) = length out"
  by (induction off bs out rule: write_hex.induct) simp_all

lemma write_hex_eq:
  "off + 2 * length bs \<le> length out \<Longrightarrow>
   write_hex off bs out = take off out @ concat (map hex_pair bs) @ drop (off + 2 * length bs) out"
proof (induction off bs out rule: write_hex.induct)
  case (1 off out)
  show ?case by simp
next
  case (2 off b bs out)
  let ?out' = "out[off := HEX ! unat (drop_bit 4 b), off + 1 := HEX ! unat (b AND 0x0f)]"
  from "2.prems" have "take (off + 2) ?out' = take off out @ hex_pair b"
    by (intro nth_equalityI) (auto simp: hex_pair_def nth_append nth_list_update less_Suc_eq)
  moreover from "2.prems" have "drop (off + 2 + 2 * length bs) ?out' = drop (off + 2 + 2 * length bs) out"
    by simp
  ultimately show ?case
    using 2 by simp
qed

section \<open>What a parsed label is\<close>

text \<open>The label of an axis and digest bytes, and the labels the constructors can build.\<close>

definition label_text :: "Axis \<Rightarrow> bytes \<Rightarrow> string" where
  "label_text a ds = axis_as_str a @ '':'' @ bytes_str (concat (map hex_pair ds))"

definition mk_label :: "bytes \<Rightarrow> KappaLabel" where
  "mk_label bs = \<lparr>kl_buf = bs @ replicate (135 - length bs) 0, kl_len = of_nat (length bs)\<rparr>"

definition label_wf :: "KappaLabel \<Rightarrow> bool" where
  "label_wf l \<longleftrightarrow> (\<exists>a ds. length ds = digest_bytes a \<and> l = mk_label (str_bytes (label_text a ds)))"

lemma length_label_text:
  "length ds = digest_bytes a \<Longrightarrow> length (label_text a ds) = label_len a"
  using digest_bytes_twice [of a] by (simp add: label_text_def label_len_def)

lemma label_as_str_mk_label [simp]:
  assumes "length bs \<le> 135"
  shows "label_as_str (mk_label bs) = bytes_str bs"
proof -
  have "unat (of_nat (length bs) :: byte) = length bs"
    using assms by (simp add: unat_of_nat take_bit_eq_mod)
  then show ?thesis
    by (simp add: label_as_str_def mk_label_def)
qed

lemma label_as_str_text [simp]:
  assumes "length ds = digest_bytes a"
  shows "label_as_str (mk_label (str_bytes (label_text a ds))) = label_text a ds"
  using length_label_text [OF assms] label_len_bounds [of a] by simp

lemma check_hex_Ok [simp]: "check_hex pos bs = Ok u \<longleftrightarrow> (\<forall>b \<in> set bs. is_hex_byte b)"
  by (induction pos bs rule: check_hex.induct) auto

lemma check_hex_not_Panic [simp]: "check_hex pos bs \<noteq> Panic"
  by (induction pos bs rule: check_hex.induct) auto

lemma position_colon_bytes:
  "position (\<lambda>b. b = byte_of_char CHR '':'') (str_bytes s) = find_char CHR '':'' s"
  by (simp add: str_bytes_def position_map find_char_def)

lemma find_colon_label_text [simp]:
  "find_char CHR '':'' (label_text a ds) = Some (length (axis_as_str a))"
  by (simp add: label_text_def find_char_append)

lemma label_parse_text:
  assumes "length ds = digest_bytes a"
  shows "label_parse (label_text a ds) = Ok (mk_label (str_bytes (label_text a ds)))"
proof -
  let ?s = "label_text a ds"
  have len: "length ?s = label_len a"
    using assms by (rule length_label_text)
  have hex: "drop (length (axis_as_str a) + 1) (str_bytes ?s) = concat (map hex_pair ds)"
    by (simp add: label_text_def flip: length_str_bytes)
  have tk: "take (length (axis_as_str a)) ?s = axis_as_str a"
    by (simp add: label_text_def)
  have hd: "length (concat (map hex_pair ds)) = hex_digits a"
    using assms by (simp add: digest_bytes_twice)
  show ?thesis
    using len label_len_bounds [of a] is_hex_pairs [of ds] hex tk hd
    by (simp add: label_parse_def Let_def position_colon_bytes mk_label_def label_len_def)
qed

lemma label_parse_OkD:
  assumes "label_parse s = Ok l"
  shows "\<exists>a ds. length ds = digest_bytes a \<and> s = label_text a ds \<and> l = mk_label (str_bytes s)"
proof -
  from assms obtain colon a where bounds: "45 \<le> length s" "length s \<le> 135"
    and colon: "find_char CHR '':'' s = Some colon"
    and a: "axis_parse (take colon s) = Some a"
    and len: "length (drop (colon + 1) (str_bytes s)) = hex_digits a"
    and hex: "\<forall>b \<in> set (drop (colon + 1) (str_bytes s)). is_hex_byte b"
    and l: "l = mk_label (str_bytes s)"
    by (auto simp: label_parse_def Let_def position_colon_bytes mk_label_def split: if_splits)
  let ?hs = "drop (colon + 1) (str_bytes s)"
  have "even (length ?hs)"
    using len by (metis digest_bytes_twice dvd_triv_left)
  then obtain ds where ds: "?hs = concat (map hex_pair ds)"
    using hex hex_bytes_pairs by blast
  have "length ds = digest_bytes a"
    using len digest_bytes_twice [of a] unfolding ds by simp
  moreover have "s = label_text a ds"
  proof -
    have "split_once CHR '':'' s = Some (take colon s, drop (Suc colon) s)"
      using colon by (simp add: split_once_def)
    from split_once_SomeD [OF this]
    have "s = take colon s @ CHR '':'' # drop (Suc colon) s" by simp
    moreover have "bytes_str ?hs = drop (Suc colon) s"
      by (metis Suc_eq_plus1 bytes_str_str_bytes drop_map str_bytes_def)
    ultimately show ?thesis
      using axis_parse_SomeD [OF a] ds by (simp add: label_text_def)
  qed
  ultimately show ?thesis using l by blast
qed

lemma label_parse_not_Panic: "label_parse s \<noteq> Panic"
  by (auto simp: label_parse_def Let_def rbind_eq_Panic)

lemma label_parse_wf [wf_intros]: "label_parse s = Ok l \<Longrightarrow> label_wf l"
  using label_parse_OkD by (fastforce simp: label_wf_def)

lemma label_text_inject:
  assumes "label_text a ds = label_text b es"
  shows "a = b \<and> concat (map hex_pair ds) = concat (map hex_pair es)"
proof -
  have "split_once CHR '':'' (label_text a ds) = split_once CHR '':'' (label_text b es)"
    using assms by simp
  then show ?thesis
    by (simp add: label_text_def) (metis str_bytes_bytes_str)
qed

lemma label_wf_ascii:
  assumes "label_wf l" and "b \<in> set (take (unat (kl_len l)) (kl_buf l))"
  shows "b < 128"
proof -
  obtain a ds where ds: "length ds = digest_bytes a" and l: "l = mk_label (str_bytes (label_text a ds))"
    using assms(1) by (auto simp: label_wf_def)
  have "label_as_str l = label_text a ds"
    using ds l by simp
  then have "take (unat (kl_len l)) (kl_buf l) = str_bytes (label_text a ds)"
    by (metis label_as_str_def str_bytes_bytes_str)
  then have "b \<in> set (str_bytes (axis_as_str a)) \<or> b = byte_of_char CHR '':'' \<or>
      b \<in> set (concat (map hex_pair ds))"
    using assms(2) by (auto simp: label_text_def)
  moreover have "\<forall>a \<in> set [Sha1, Sha256, Blake3, Sha512, Sha3_256, Keccak256].
      \<forall>b \<in> set (str_bytes (axis_as_str a)). b < 128"
    by code_simp
  moreover have "byte_of_char CHR '':'' < 128"
    by code_simp
  moreover have "is_hex_byte b \<Longrightarrow> b < 128"
    by (auto simp: is_hex_byte_def word_le_nat_alt word_less_nat_alt)
  ultimately show ?thesis
    using is_hex_pairs [of ds] by (cases a) auto
qed

section \<open>Accessors and complement on well-formed labels\<close>

lemma label_accessors:
  assumes "length ds = digest_bytes a"
  defines "l \<equiv> mk_label (str_bytes (label_text a ds))"
  shows "label_axis l = Ok (axis_as_str a)"
    and "label_axis_enum l = Ok a"
    and "label_hex_digest l = Ok (bytes_str (concat (map hex_pair ds)))"
  using assms by (simp_all add: label_axis_def label_axis_enum_def label_hex_digest_def)
    (simp_all add: label_text_def)

lemma complement_text:
  assumes "length ds = digest_bytes a"
  shows "complement (mk_label (str_bytes (label_text a ds))) =
         Ok (mk_label (str_bytes (label_text a (map (\<lambda>b. NOT b) ds))))"
proof -
  let ?n = "length (axis_as_str a)"
  let ?ds' = "map (\<lambda>b. NOT b) ds"
  let ?t = "str_bytes (label_text a ds)"
  let ?pre = "str_bytes (axis_as_str a @ '':'')"
  have bound: "length ?t \<le> 135" and t_len: "length ?t = ?n + 1 + 2 * length ds"
    using length_label_text [OF assms] label_len_bounds [of a] digest_bytes_twice [of a] assms
    by (simp_all add: label_len_def)
  have un: "unat (of_nat (length ?t) :: byte) = length ?t"
    using bound by (simp add: unat_of_nat take_bit_eq_mod)
  have t: "?t = ?pre @ concat (map hex_pair ds)"
    by (simp add: label_text_def)
  have pre: "length ?pre = ?n + 1" by simp
  have takebuf: "take (unat (kl_len (mk_label ?t))) (kl_buf (mk_label ?t)) = ?t"
    unfolding mk_label_def using un by simp
  have colon: "position (\<lambda>b. b = byte_of_char CHR '':'') ?t = Some ?n"
    by (simp add: position_colon_bytes)
  have hexpart: "drop (?n + 1) ?t = concat (map hex_pair ds)"
    unfolding t using pre by simp
  have prefix: "take (?n + 1) (kl_buf (mk_label ?t)) = ?pre"
    unfolding mk_label_def t using pre by simp
  let ?out0 = "?pre @ replicate (135 - (?n + 1)) 0"
  have "write_hex (?n + 1) ?ds' ?out0 =
        take (?n + 1) ?out0 @ concat (map hex_pair ?ds') @ drop (?n + 1 + 2 * length ?ds') ?out0"
    using bound t_len pre by (intro write_hex_eq) simp
  also have "\<dots> = str_bytes (label_text a ?ds') @ replicate (135 - length ?t) 0"
    using pre t_len by (simp add: label_text_def)
  finally show ?thesis
    unfolding complement_def takebuf colon
    by (simp add: Let_def hexpart [simplified] prefix [simplified] complement_pairs_hex mk_label_def
        t_len label_text_def del: map_map)
qed

section \<open>Properties\<close>

text \<open>
  C15. Parsing accepts exactly the texts \<open>axis:digits\<close> with as many lowercase digits as the axis has,
  and the label it builds prints as the text it was parsed from, with the parsed axis and digits.
\<close>

theorem label_parse_exact:
  "label_parse s = Ok l \<longleftrightarrow>
     (\<exists>a ds. length ds = digest_bytes a \<and> s = label_text a ds \<and> l = mk_label (str_bytes s) \<and>
        label_as_str l = s \<and> label_axis_enum l = Ok a \<and>
        label_hex_digest l = Ok (bytes_str (concat (map hex_pair ds))))"
proof
  assume "label_parse s = Ok l"
  from label_parse_OkD [OF this] obtain a ds
    where ds: "length ds = digest_bytes a" and s: "s = label_text a ds" and l: "l = mk_label (str_bytes s)"
    by blast
  then show "\<exists>a ds. length ds = digest_bytes a \<and> s = label_text a ds \<and> l = mk_label (str_bytes s) \<and>
        label_as_str l = s \<and> label_axis_enum l = Ok a \<and>
        label_hex_digest l = Ok (bytes_str (concat (map hex_pair ds)))"
    using label_accessors [OF ds] label_as_str_text [OF ds] by blast
qed (auto simp: label_parse_text)

text \<open>
  C29. The complement of a well-formed label does not panic, keeps the axis, flips every bit of the
  digest, and complementing again gives the original label back.
\<close>

theorem complement_involution:
  assumes "label_wf l"
  shows "\<exists>m. complement l = Ok m \<and> label_wf m \<and> complement m = Ok l \<and> m \<noteq> l \<and>
           label_axis_enum m = label_axis_enum l"
proof -
  obtain a ds where ds: "length ds = digest_bytes a" and l: "l = mk_label (str_bytes (label_text a ds))"
    using assms by (auto simp: label_wf_def)
  let ?es = "map (\<lambda>b. NOT b) ds"
  let ?m = "mk_label (str_bytes (label_text a ?es))"
  have es: "length ?es = digest_bytes a" using ds by simp
  have nn: "map (\<lambda>b. NOT b) ?es = ds" by (simp add: o_def)
  have "complement l = Ok ?m" unfolding l by (rule complement_text [OF ds])
  moreover have "complement ?m = Ok l"
    unfolding complement_text [OF es] l nn by (rule refl)
  moreover have "label_wf ?m" unfolding label_wf_def using es by blast
  moreover have "?m \<noteq> l"
  proof
    assume "?m = l"
    then have "label_as_str ?m = label_as_str l" by (rule arg_cong)
    then have "label_text a ?es = label_text a ds"
      unfolding l label_as_str_text [OF ds] label_as_str_text [OF es] .
    then have eq: "concat (map hex_pair ?es) = concat (map hex_pair ds)"
      using label_text_inject by blast
    have "complement_pairs (concat (map hex_pair ?es)) = complement_pairs (concat (map hex_pair ds))"
      by (simp only: eq)
    then have "ds = ?es" unfolding complement_pairs_hex nn by (rule result.inject(1) [THEN iffD1])
    moreover have "ds \<noteq> []" using ds digest_bytes_ge [of a] by auto
    ultimately have "bit (hd ds) 0 = bit (NOT (hd ds)) 0" by (metis list.map_sel(1))
    then show False by (simp add: bit_not_iff)
  qed
  moreover have "label_axis_enum ?m = label_axis_enum l"
    unfolding l label_accessors(2) [OF es] label_accessors(2) [OF ds] by (rule refl)
  ultimately show ?thesis by blast
qed

theorem complement_involution_witness:
  "label_wf (mk_label (str_bytes (label_text Sha1 (replicate 20 0)))) \<and>
   (\<exists>m. complement (mk_label (str_bytes (label_text Sha1 (replicate 20 0)))) = Ok m \<and> label_wf m)"
proof -
  have wf: "label_wf (mk_label (str_bytes (label_text Sha1 (replicate 20 0))))"
    unfolding label_wf_def by (intro exI [of _ Sha1] exI [of _ "replicate 20 0"]) (simp add: digest_bytes_def)
  show ?thesis
    using wf complement_involution [OF wf] by blast
qed

end
