(* ===== verification/Kappa_Compute.thy ===== *)
theory Kappa_Compute
  imports Kappa_Label
begin

unbundle bit_operations_syntax

text \<open>
  Hashing content to kappa-labels (\<open>kappa-core/src/kappa/compute.rs\<close>) and proof-carrying content
  (\<open>verified.rs\<close>). The hash functions and the \<open>hex\<close> crate are
  third-party code: they are the fields of the record \<open>hashes\<close>, an argument of every definition that
  calls them, and \<open>hashes_ok\<close> states what their documentation promises: the digest sizes and
  lowercase hex. The incremental hashers are the record \<open>hasher\<close>, with \<open>hasher_ok\<close> stating that
  finishing a hasher gives the digest of everything it was fed.
\<close>

section \<open>The hash functions\<close>

record hashes =
  sha1_digest :: "bytes \<Rightarrow> bytes"
  sha1_collision :: "bytes \<Rightarrow> bool"
  sha256_digest :: "bytes \<Rightarrow> bytes"
  blake3_digest :: "bytes \<Rightarrow> bytes"
  sha512_digest :: "bytes \<Rightarrow> bytes"
  sha3_256_digest :: "bytes \<Rightarrow> bytes"
  keccak256_digest :: "bytes \<Rightarrow> bytes"
  blake3_keyed :: "bytes \<Rightarrow> bytes \<Rightarrow> bytes"
  md5_digest :: "bytes \<Rightarrow> bytes"
  hex_encode :: "bytes \<Rightarrow> string"
  hex_decode :: "string \<Rightarrow> bytes option"

fun digest_of :: "('x) hashes_scheme \<Rightarrow> Axis \<Rightarrow> bytes \<Rightarrow> bytes" where
  "digest_of H Sha1 = sha1_digest H"
| "digest_of H Sha256 = sha256_digest H"
| "digest_of H Blake3 = blake3_digest H"
| "digest_of H Sha512 = sha512_digest H"
| "digest_of H Sha3_256 = sha3_256_digest H"
| "digest_of H Keccak256 = keccak256_digest H"

definition hashes_ok :: "('x) hashes_scheme \<Rightarrow> bool" where
  "hashes_ok H \<longleftrightarrow>
     (\<forall>a c. length (digest_of H a c) = digest_bytes a) \<and>
     (\<forall>k c. length (blake3_keyed H k c) = 32) \<and>
     (\<forall>c. length (md5_digest H c) = 16) \<and>
     (\<forall>bs. hex_encode H bs = bytes_str (concat (map hex_pair bs))) \<and>
     (\<forall>bs. hex_decode H (hex_encode H bs) = Some bs)"

section \<open>One-shot computation\<close>

definition label_sha256 :: "('x) hashes_scheme \<Rightarrow> bytes \<Rightarrow> KappaLabel" where
  "label_sha256 H content =
     from_parts (write_hex 7 (sha256_digest H content) (str_bytes ''sha256:'' @ replicate 128 0)) 71"

definition label_blake3 :: "('x) hashes_scheme \<Rightarrow> bytes \<Rightarrow> KappaLabel" where
  "label_blake3 H content =
     from_parts (write_hex 7 (blake3_digest H content) (str_bytes ''blake3:'' @ replicate 128 0)) 71"

definition label_sha512 :: "('x) hashes_scheme \<Rightarrow> bytes \<Rightarrow> KappaLabel" where
  "label_sha512 H content =
     from_parts (write_hex 7 (sha512_digest H content) (str_bytes ''sha512:'' @ replicate 128 0)) 135"

definition label_sha3_256 :: "('x) hashes_scheme \<Rightarrow> bytes \<Rightarrow> KappaLabel" where
  "label_sha3_256 H content =
     from_parts (write_hex 9 (sha3_256_digest H content) (str_bytes ''sha3-256:'' @ replicate 126 0)) 73"

definition label_keccak256 :: "('x) hashes_scheme \<Rightarrow> bytes \<Rightarrow> KappaLabel" where
  "label_keccak256 H content =
     from_parts (write_hex 10 (keccak256_digest H content) (str_bytes ''keccak256:'' @ replicate 125 0)) 74"

definition label_sha1 :: "('x) hashes_scheme \<Rightarrow> bytes \<Rightarrow> (KappaLabel, LabelError) result" where
  "label_sha1 H content =
     (if sha1_collision H content then Err CollisionDetected
      else Ok (from_parts (write_hex 5 (sha1_digest H content) (str_bytes ''sha1:'' @ replicate 130 0)) 45))"

definition compute_kappa ::
  "('x) hashes_scheme \<Rightarrow> string \<Rightarrow> bytes \<Rightarrow> (KappaLabel, LabelError) result" where
  "compute_kappa H axis content =
     (if axis = ''sha1'' then label_sha1 H content
      else if axis = ''sha256'' then Ok (label_sha256 H content)
      else if axis = ''blake3'' then Ok (label_blake3 H content)
      else if axis = ''sha3-256'' then Ok (label_sha3_256 H content)
      else if axis = ''keccak256'' then Ok (label_keccak256 H content)
      else if axis = ''sha512'' then Ok (label_sha512 H content)
      else Err UnknownAxis)"

definition verify_kappa ::
  "('x) hashes_scheme \<Rightarrow> string \<Rightarrow> bytes \<Rightarrow> (bool, LabelError) result" where
  "verify_kappa H kappa content =
     rbind (label_parse kappa) (\<lambda>parsed.
     rbind (label_axis parsed) (\<lambda>axis.
     rbind (compute_kappa H axis content) (\<lambda>computed.
     Ok (label_as_str computed = kappa))))"

definition kappa_from_bytes :: "('x) hashes_scheme \<Rightarrow> bytes \<Rightarrow> string" where
  "kappa_from_bytes H bs = label_as_str (label_sha256 H bs)"

definition sha256_raw :: "('x) hashes_scheme \<Rightarrow> bytes \<Rightarrow> bytes" where
  "sha256_raw H bs = sha256_digest H bs"

section \<open>Proof-carrying content\<close>

record VerifiedContent =
  vc_label :: KappaLabel
  vc_content :: bytes

definition vc_compute ::
  "('x) hashes_scheme \<Rightarrow> Axis \<Rightarrow> bytes \<Rightarrow> (VerifiedContent, LabelError) result" where
  "vc_compute H axis content =
     rbind (compute_kappa H (axis_as_str axis) content) (\<lambda>label.
     Ok \<lparr>vc_label = label, vc_content = content\<rparr>)"

definition vc_verify ::
  "('x) hashes_scheme \<Rightarrow> string \<Rightarrow> bytes \<Rightarrow> (VerifiedContent, LabelError) result" where
  "vc_verify H claimed content =
     rbind (label_parse claimed) (\<lambda>label.
     rbind (verify_kappa H claimed content) (\<lambda>matches.
     if \<not> matches then
       rbind (label_axis label) (\<lambda>axis.
       rbind (compute_kappa H axis content) (\<lambda>computed.
       Err (LabelDigestMismatch claimed (label_as_str computed) axis)))
     else Ok \<lparr>vc_label = label, vc_content = content\<rparr>))"

definition vc_kappa :: "VerifiedContent \<Rightarrow> string" where
  "vc_kappa v = label_as_str (vc_label v)"

definition vc_axis :: "VerifiedContent \<Rightarrow> (Axis, LabelError) result" where
  "vc_axis v = label_axis_enum (vc_label v)"

section \<open>Streaming computation\<close>

record StreamingVerificationProof =
  primary :: string
  additional :: "(string \<times> string) list"

definition proof_single :: "string \<Rightarrow> StreamingVerificationProof" where
  "proof_single kappa = \<lparr>primary = kappa, additional = []\<rparr>"

definition proof_multi :: "string \<Rightarrow> (string \<times> string) list \<Rightarrow> StreamingVerificationProof" where
  "proof_multi p others = \<lparr>primary = p, additional = others\<rparr>"

definition proof_axis :: "StreamingVerificationProof \<Rightarrow> string" where
  "proof_axis p = (case split_once CHR '':'' (primary p) of Some (a, _) \<Rightarrow> a | None \<Rightarrow> ''sha256'')"

definition proof_additional_kappas :: "StreamingVerificationProof \<Rightarrow> string list" where
  "proof_additional_kappas p = map snd (additional p)"

text \<open>
  A reader is what its successive \<open>read\<close> calls return: a chunk of at most the buffer's size, or an
  I/O error; an empty chunk and the end of the list are the end of the stream.
\<close>

datatype read_step = Chunk bytes | ReadError string

type_synonym reader = "read_step list"

record 'h hasher =
  h_new :: "Axis \<Rightarrow> 'h"
  h_update :: "Axis \<Rightarrow> 'h \<Rightarrow> bytes \<Rightarrow> 'h"
  h_finalize :: "Axis \<Rightarrow> 'h \<Rightarrow> bytes"
  h_collision :: "'h \<Rightarrow> bool"

definition hasher_ok :: "('x) hashes_scheme \<Rightarrow> ('h) hasher \<Rightarrow> bool" where
  "hasher_ok H S \<longleftrightarrow>
     (\<forall>a cs. h_finalize S a (foldl (h_update S a) (h_new S a) cs) = digest_of H a (concat cs)) \<and>
     (\<forall>cs. h_collision S (foldl (h_update S Sha1) (h_new S Sha1) cs) = sha1_collision H (concat cs))"

text \<open>The read loop: feed every chunk to \<open>update\<close> until the stream ends.\<close>

fun read_loop :: "string \<Rightarrow> ('s \<Rightarrow> bytes \<Rightarrow> 's) \<Rightarrow> 's \<Rightarrow> reader \<Rightarrow> ('s, LabelError) result" where
  "read_loop axis upd st [] = Ok st"
| "read_loop axis upd st (ReadError e # r) = Err (LabelDigestMismatch [] e axis)"
| "read_loop axis upd st (Chunk c # r) = (if c = [] then Ok st else read_loop axis upd (upd st c) r)"

definition streaming_compute_kappa ::
  "('x) hashes_scheme \<Rightarrow> ('h) hasher \<Rightarrow> string \<Rightarrow> reader \<Rightarrow>
   (StreamingVerificationProof, LabelError) result" where
  "streaming_compute_kappa H S axis r =
     (if axis = ''sha256'' then
        rbind (read_loop axis (h_update S Sha256) (h_new S Sha256) r) (\<lambda>h.
        Ok (proof_single (''sha256:'' @ hex_encode H (h_finalize S Sha256 h))))
      else if axis = ''sha512'' then
        rbind (read_loop axis (h_update S Sha512) (h_new S Sha512) r) (\<lambda>h.
        Ok (proof_single (''sha512:'' @ hex_encode H (h_finalize S Sha512 h))))
      else if axis = ''blake3'' then
        rbind (read_loop axis (h_update S Blake3) (h_new S Blake3) r) (\<lambda>h.
        Ok (proof_single (''blake3:'' @ hex_encode H (h_finalize S Blake3 h))))
      else if axis = ''sha3-256'' then
        rbind (read_loop axis (h_update S Sha3_256) (h_new S Sha3_256) r) (\<lambda>h.
        Ok (proof_single (''sha3-256:'' @ hex_encode H (h_finalize S Sha3_256 h))))
      else if axis = ''keccak256'' then
        rbind (read_loop axis (h_update S Keccak256) (h_new S Keccak256) r) (\<lambda>h.
        Ok (proof_single (''keccak256:'' @ hex_encode H (h_finalize S Keccak256 h))))
      else if axis = ''sha1'' then
        rbind (read_loop axis (h_update S Sha1) (h_new S Sha1) r) (\<lambda>h.
        if h_collision S h then Err CollisionDetected
        else Ok (proof_single (''sha1:'' @ hex_encode H (h_finalize S Sha1 h))))
      else Err UnknownAxis)"

text \<open>The hashers of a multi-axis pass, one optional hasher per axis.\<close>

type_synonym 'h hashers = "Axis \<Rightarrow> 'h option"

fun init_hashers :: "('h) hasher \<Rightarrow> 'h hashers \<Rightarrow> string list \<Rightarrow> ('h hashers, LabelError) result" where
  "init_hashers S hs [] = Ok hs"
| "init_hashers S hs (axis # axes) =
     (case axis_parse axis of
        None \<Rightarrow> Err UnknownAxis
      | Some a \<Rightarrow>
          init_hashers S (case hs a of None \<Rightarrow> hs(a := Some (h_new S a)) | Some _ \<Rightarrow> hs) axes)"

definition update_hashers :: "('h) hasher \<Rightarrow> 'h hashers \<Rightarrow> bytes \<Rightarrow> 'h hashers" where
  "update_hashers S hs chunk = (\<lambda>a. map_option (\<lambda>h. h_update S a h chunk) (hs a))"

text \<open>The order in which the hashers are finished.\<close>

definition finalize_order :: "Axis list" where
  "finalize_order = [Sha256, Sha512, Blake3, Sha3_256, Keccak256, Sha1]"

fun finalize_hashers ::
  "('x) hashes_scheme \<Rightarrow> ('h) hasher \<Rightarrow> 'h hashers \<Rightarrow> Axis list \<Rightarrow>
   ((string \<times> string) list, LabelError) result" where
  "finalize_hashers H S hs [] = Ok []"
| "finalize_hashers H S hs (a # as) =
     (case hs a of
        None \<Rightarrow> finalize_hashers H S hs as
      | Some h \<Rightarrow>
          if a = Sha1 \<and> h_collision S h then Err CollisionDetected
          else rbind (finalize_hashers H S hs as) (\<lambda>rest.
               Ok ((axis_as_str a, axis_as_str a @ '':'' @ hex_encode H (h_finalize S a h)) # rest)))"

definition streaming_compute_multi ::
  "('x) hashes_scheme \<Rightarrow> ('h) hasher \<Rightarrow> string list \<Rightarrow> reader \<Rightarrow>
   (StreamingVerificationProof, LabelError) result" where
  "streaming_compute_multi H S axes r =
     rbind (init_hashers S (\<lambda>_. None) axes) (\<lambda>hs0.
     rbind (read_loop ''multi'' (update_hashers S) hs0 r) (\<lambda>hs.
     rbind (finalize_hashers H S hs finalize_order) (\<lambda>results.
     case axes of
       [] \<Rightarrow> Err UnknownAxis
     | primary_axis # _ \<Rightarrow>
         if results = [] then Err UnknownAxis
         else
           (let idx = (case position (\<lambda>(a, _). a = primary_axis) results of Some i \<Rightarrow> i | None \<Rightarrow> 0)
            in Ok (proof_multi (snd (results ! idx)) (take idx results @ drop (idx + 1) results))))))"

section \<open>Labels of content\<close>

text \<open>The text of the label of \<open>content\<close> on an axis, and when the axis can label it at all.\<close>

definition kappa_text :: "('x) hashes_scheme \<Rightarrow> Axis \<Rightarrow> bytes \<Rightarrow> string" where
  "kappa_text H a content = label_text a (digest_of H a content)"

definition hashable :: "('x) hashes_scheme \<Rightarrow> Axis \<Rightarrow> bytes \<Rightarrow> bool" where
  "hashable H a content \<longleftrightarrow> (a = Sha1 \<longrightarrow> \<not> sha1_collision H content)"

lemma hashable_not_sha1 [simp]: "a \<noteq> Sha1 \<Longrightarrow> hashable H a c"
  by (simp add: hashable_def)

lemma hashes_ok_length [simp]: "hashes_ok H \<Longrightarrow> length (digest_of H a c) = digest_bytes a"
  by (simp add: hashes_ok_def)

lemma hashes_ok_keyed: "hashes_ok H \<Longrightarrow> length (blake3_keyed H k c) = 32"
  unfolding hashes_ok_def by blast

lemma hashes_ok_sha256: "hashes_ok H \<Longrightarrow> length (sha256_digest H c) = 32"
  using hashes_ok_length [of H Sha256 c] by (simp add: digest_bytes_def)

lemma hashes_ok_blake3: "hashes_ok H \<Longrightarrow> length (blake3_digest H c) = 32"
  using hashes_ok_length [of H Blake3 c] by (simp add: digest_bytes_def)

lemma hashes_ok_hex: "hashes_ok H \<Longrightarrow> hex_encode H bs = bytes_str (concat (map hex_pair bs))"
  by (simp add: hashes_ok_def)

lemma hashes_ok_hex_decode [simp]: "hashes_ok H \<Longrightarrow> hex_decode H (hex_encode H bs) = Some bs"
  unfolding hashes_ok_def by blast

lemma label_as_str_kappa_text [simp]:
  "hashes_ok H \<Longrightarrow> label_as_str (mk_label (str_bytes (kappa_text H a c))) = kappa_text H a c"
  by (simp add: kappa_text_def)

text \<open>Every compute function builds the label of its axis.\<close>

lemma write_hex_label:
  assumes "length ds = digest_bytes a" and "n = length (axis_as_str a) + 1"
    and "l = label_len a"
  shows "from_parts (write_hex n ds (str_bytes (axis_as_str a @ '':'') @ replicate (135 - n) 0)) (of_nat l)
         = mk_label (str_bytes (label_text a ds))"
proof -
  let ?out = "str_bytes (axis_as_str a @ '':'') @ replicate (135 - n) 0"
  have n: "n + 2 * length ds = label_len a" "label_len a \<le> 135"
    using assms digest_bytes_twice [of a] label_len_bounds [of a] by (simp_all add: label_len_def)
  then have "write_hex n ds ?out =
      take n ?out @ concat (map hex_pair ds) @ drop (n + 2 * length ds) ?out"
    using assms by (intro write_hex_eq) simp
  also have "\<dots> = str_bytes (label_text a ds) @ replicate (135 - label_len a) 0"
    using assms by (simp add: label_text_def flip: n(1))
  finally show ?thesis
    using assms length_label_text [of ds a] by (simp add: from_parts_def mk_label_def)
qed

lemma label_computed:
  assumes "hashes_ok H"
  shows "label_sha256 H c = mk_label (str_bytes (kappa_text H Sha256 c))"
    and "label_blake3 H c = mk_label (str_bytes (kappa_text H Blake3 c))"
    and "label_sha512 H c = mk_label (str_bytes (kappa_text H Sha512 c))"
    and "label_sha3_256 H c = mk_label (str_bytes (kappa_text H Sha3_256 c))"
    and "label_keccak256 H c = mk_label (str_bytes (kappa_text H Keccak256 c))"
    and "label_sha1 H c = (if sha1_collision H c then Err CollisionDetected
           else Ok (mk_label (str_bytes (kappa_text H Sha1 c))))"
proof -
  have len: "length (digest_of H a c) = digest_bytes a" for a
    using assms by simp
  note wl = write_hex_label [OF len]
  show "label_sha256 H c = mk_label (str_bytes (kappa_text H Sha256 c))"
    using wl [of 7 Sha256 71] by (simp add: label_len_def label_sha256_def kappa_text_def)
  show "label_blake3 H c = mk_label (str_bytes (kappa_text H Blake3 c))"
    using wl [of 7 Blake3 71] by (simp add: label_len_def label_blake3_def kappa_text_def)
  show "label_sha512 H c = mk_label (str_bytes (kappa_text H Sha512 c))"
    using wl [of 7 Sha512 135] by (simp add: label_len_def label_sha512_def kappa_text_def)
  show "label_sha3_256 H c = mk_label (str_bytes (kappa_text H Sha3_256 c))"
    using wl [of 9 Sha3_256 73] by (simp add: label_len_def label_sha3_256_def kappa_text_def)
  show "label_keccak256 H c = mk_label (str_bytes (kappa_text H Keccak256 c))"
    using wl [of 10 Keccak256 74] by (simp add: label_len_def label_keccak256_def kappa_text_def)
  show "label_sha1 H c = (if sha1_collision H c then Err CollisionDetected
           else Ok (mk_label (str_bytes (kappa_text H Sha1 c))))"
    using wl [of 5 Sha1 45] by (simp add: label_len_def label_sha1_def kappa_text_def)
qed

lemma compute_kappa_axis:
  assumes "hashes_ok H"
  shows "compute_kappa H (axis_as_str a) c =
     (if hashable H a c then Ok (mk_label (str_bytes (kappa_text H a c))) else Err CollisionDetected)"
  using label_computed [OF assms, of c]
  by (cases a) (simp_all add: compute_kappa_def hashable_def)

lemma compute_kappa_unknown: "axis_parse s = None \<Longrightarrow> compute_kappa H s c = Err UnknownAxis"
  by (auto simp: axis_parse_def compute_kappa_def split: if_splits)

lemma kappa_from_bytes_text: "hashes_ok H \<Longrightarrow> kappa_from_bytes H c = kappa_text H Sha256 c"
  by (simp add: kappa_from_bytes_def label_computed)

lemma length_kappa_text: "hashes_ok H \<Longrightarrow> length (kappa_text H a c) = label_len a"
  by (simp add: kappa_text_def length_label_text)

lemma label_parse_kappa_text:
  "hashes_ok H \<Longrightarrow> label_parse (kappa_text H a c) = Ok (mk_label (str_bytes (kappa_text H a c)))"
  by (simp add: kappa_text_def label_parse_text)

lemma kappa_text_axis_inject:
  "kappa_text H a c = kappa_text H b d \<Longrightarrow> a = b"
  unfolding kappa_text_def using label_text_inject by blast

lemma verify_kappa_label_text:
  assumes "hashes_ok H" and "length ds = digest_bytes a"
  shows "verify_kappa H (label_text a ds) c =
     (if hashable H a c then Ok (kappa_text H a c = label_text a ds) else Err CollisionDetected)"
  using assms by (simp add: verify_kappa_def label_parse_text label_accessors compute_kappa_axis)

lemma verify_kappa_Ok_True:
  assumes "hashes_ok H"
  shows "verify_kappa H k c = Ok True \<longleftrightarrow> (\<exists>a. k = kappa_text H a c \<and> hashable H a c)"
proof
  assume v: "verify_kappa H k c = Ok True"
  then obtain l where "label_parse k = Ok l"
    by (auto simp: verify_kappa_def)
  then obtain a ds where ds: "length ds = digest_bytes a" and k: "k = label_text a ds"
    using label_parse_OkD by blast
  have "kappa_text H a c = k \<and> hashable H a c"
    using v unfolding k verify_kappa_label_text [OF assms ds] by (auto split: if_splits)
  then show "\<exists>a. k = kappa_text H a c \<and> hashable H a c"
    by blast
next
  assume "\<exists>a. k = kappa_text H a c \<and> hashable H a c"
  then obtain a where "k = kappa_text H a c" "hashable H a c" by blast
  then show "verify_kappa H k c = Ok True"
    using verify_kappa_label_text [OF assms, of "digest_of H a c" a c] assms
    by (simp add: kappa_text_def)
qed

lemma verify_kappa_not_Panic: "hashes_ok H \<Longrightarrow> verify_kappa H k c \<noteq> Panic"
proof
  assume H: "hashes_ok H" and v: "verify_kappa H k c = Panic"
  show False
  proof (cases "label_parse k")
    case (Ok l)
    then obtain a ds where "length ds = digest_bytes a" "k = label_text a ds"
      using label_parse_OkD by blast
    with v show False
      by (simp add: verify_kappa_label_text [OF H] split: if_splits)
  next
    case (Err e)
    with v show False by (simp add: verify_kappa_def)
  next
    case Panic
    then show False using label_parse_not_Panic by blast
  qed
qed

lemma vc_compute_eq:
  assumes "hashes_ok H"
  shows "vc_compute H a c =
     (if hashable H a c
      then Ok \<lparr>vc_label = mk_label (str_bytes (kappa_text H a c)), vc_content = c\<rparr>
      else Err CollisionDetected)"
  using assms by (simp add: vc_compute_def compute_kappa_axis)

lemma vc_verify_Ok:
  assumes "hashes_ok H"
  shows "vc_verify H k c = Ok v \<longleftrightarrow>
     (\<exists>a. k = kappa_text H a c \<and> hashable H a c \<and>
          v = \<lparr>vc_label = mk_label (str_bytes k), vc_content = c\<rparr>)"
proof
  assume v: "vc_verify H k c = Ok v"
  then obtain l where l: "label_parse k = Ok l" and m: "verify_kappa H k c = Ok True"
    and veq: "v = \<lparr>vc_label = l, vc_content = c\<rparr>"
    by (auto simp: vc_verify_def split: if_splits)
  from m obtain a where a: "k = kappa_text H a c" "hashable H a c"
    using verify_kappa_Ok_True [OF assms] by blast
  moreover have "l = mk_label (str_bytes k)"
    using l a assms by (simp add: label_parse_kappa_text)
  ultimately show "\<exists>a. k = kappa_text H a c \<and> hashable H a c \<and>
          v = \<lparr>vc_label = mk_label (str_bytes k), vc_content = c\<rparr>"
    using veq by blast
next
  assume "\<exists>a. k = kappa_text H a c \<and> hashable H a c \<and>
          v = \<lparr>vc_label = mk_label (str_bytes k), vc_content = c\<rparr>"
  then obtain a where a: "k = kappa_text H a c" "hashable H a c"
      "v = \<lparr>vc_label = mk_label (str_bytes k), vc_content = c\<rparr>"
    by blast
  then have "verify_kappa H k c = Ok True"
    using verify_kappa_Ok_True [OF assms] by blast
  with a assms show "vc_verify H k c = Ok v"
    by (simp add: vc_verify_def label_parse_kappa_text)
qed

lemma vc_verify_not_Panic:
  assumes "hashes_ok H"
  shows "vc_verify H k c \<noteq> Panic"
proof
  assume p: "vc_verify H k c = Panic"
  show False
  proof (cases "label_parse k")
    case (Ok l)
    then obtain a ds where "length ds = digest_bytes a" "k = label_text a ds" "l = mk_label (str_bytes k)"
      using label_parse_OkD by blast
    with p Ok show False
      by (simp add: vc_verify_def verify_kappa_label_text [OF assms] label_accessors
          compute_kappa_axis [OF assms] split: if_splits)
  next
    case (Err e)
    with p show False by (simp add: vc_verify_def)
  next
    case Panic
    then show False using label_parse_not_Panic by blast
  qed
qed

lemma vc_accessors:
  assumes "hashes_ok H" and "v = \<lparr>vc_label = mk_label (str_bytes (kappa_text H a c)), vc_content = c\<rparr>"
  shows "vc_kappa v = kappa_text H a c" and "vc_axis v = Ok a"
  using assms label_accessors(2) [of "digest_of H a c" a]
  by (simp_all add: vc_kappa_def vc_axis_def kappa_text_def)

section \<open>Streaming and one-shot hashing agree\<close>

lemma read_loop_chunks:
  "\<forall>c \<in> set cs. c \<noteq> [] \<Longrightarrow> read_loop axis upd st (map Chunk cs) = Ok (foldl upd st cs)"
  by (induction cs arbitrary: st) auto

lemma hex_label:
  "hashes_ok H \<Longrightarrow> axis_as_str a @ '':'' @ hex_encode H (digest_of H a c) = kappa_text H a c"
  by (simp add: kappa_text_def label_text_def hashes_ok_hex)

lemma streaming_axis:
  assumes H: "hashes_ok H" and S: "hasher_ok H S" and cs: "\<forall>c \<in> set cs. c \<noteq> []"
  shows "streaming_compute_kappa H S (axis_as_str a) (map Chunk cs) =
     (if hashable H a (concat cs) then Ok (proof_single (kappa_text H a (concat cs)))
      else Err CollisionDetected)"
proof -
  have fin: "h_finalize S a (foldl (h_update S a) (h_new S a) cs) = digest_of H a (concat cs)" for a
    using S by (simp add: hasher_ok_def)
  have col: "h_collision S (foldl (h_update S Sha1) (h_new S Sha1) cs) = sha1_collision H (concat cs)"
    using S by (simp add: hasher_ok_def)
  show ?thesis
    using hex_label [OF H, of a "concat cs"]
    by (cases a) (simp_all add: streaming_compute_kappa_def read_loop_chunks [OF cs] fin [of Sha256, simplified]
        fin [of Sha1, simplified] fin [of Sha512, simplified] fin [of Blake3, simplified]
        fin [of Sha3_256, simplified] fin [of Keccak256, simplified] col hashable_def)
qed

lemma streaming_unknown: "axis_parse s = None \<Longrightarrow> streaming_compute_kappa H S s r = Err UnknownAxis"
  by (auto simp: axis_parse_def streaming_compute_kappa_def split: if_splits)

lemma streaming_eq_compute:
  assumes "hashes_ok H" and "hasher_ok H S" and "\<forall>c \<in> set cs. c \<noteq> []"
  shows "streaming_compute_kappa H S axis (map Chunk cs) =
     rbind (compute_kappa H axis (concat cs)) (\<lambda>l. Ok (proof_single (label_as_str l)))"
proof (cases "axis_parse axis")
  case None
  then show ?thesis by (simp add: streaming_unknown compute_kappa_unknown)
next
  case (Some a)
  then have "axis = axis_as_str a" by (rule axis_parse_SomeD)
  then show ?thesis
    using assms by (simp add: streaming_axis compute_kappa_axis)
qed


section \<open>Multi-axis streaming\<close>

lemma init_hashers_axes:
  "init_hashers S hs (map axis_as_str as) =
     Ok (\<lambda>a. if hs a = None \<and> a \<in> set as then Some (h_new S a) else hs a)"
  by (induction as arbitrary: hs) (auto simp: fun_eq_iff split: option.splits)

lemma init_hashers_unknown:
  "\<exists>s \<in> set axes. axis_parse s = None \<Longrightarrow> init_hashers S hs axes = Err UnknownAxis"
  by (induction axes arbitrary: hs) (auto split: option.splits)

lemma foldl_update_hashers:
  "foldl (update_hashers S) hs cs = (\<lambda>a. map_option (\<lambda>h. foldl (h_update S a) h cs) (hs a))"
proof (induction cs arbitrary: hs)
  case Nil
  show ?case by (simp add: option.map_ident)
next
  case (Cons c cs)
  then show ?case by (simp add: update_hashers_def option.map_comp o_def)
qed

lemma finalize_hashers_eq:
  assumes H: "hashes_ok H" and S: "hasher_ok H S" and sha1: "Sha1 \<in> set as \<Longrightarrow> hashable H Sha1 (concat cs)"
    and hs: "hs = (\<lambda>a. if a \<in> set as then Some (foldl (h_update S a) (h_new S a) cs) else None)"
  shows "finalize_hashers H S hs xs =
     Ok (map (\<lambda>a. (axis_as_str a, kappa_text H a (concat cs))) (filter (\<lambda>a. a \<in> set as) xs))"
proof (induction xs)
  case Nil
  show ?case by simp
next
  case (Cons a xs)
  have fin: "h_finalize S a (foldl (h_update S a) (h_new S a) cs) = digest_of H a (concat cs)"
    using S by (simp add: hasher_ok_def)
  have col: "a = Sha1 \<Longrightarrow> a \<in> set as \<Longrightarrow> \<not> h_collision S (foldl (h_update S Sha1) (h_new S Sha1) cs)"
    using S sha1 by (simp add: hasher_ok_def hashable_def)
  show ?case
    using Cons.IH col hex_label [OF H, of a "concat cs"] by (auto simp: hs fin)
qed

lemma remove_at_position:
  assumes "distinct xs" and "x \<in> set xs" and "inj f"
  shows "\<exists>i. position (\<lambda>(a, _). a = f x) (map (\<lambda>y. (f y, g y)) xs) = Some i \<and> i < length xs \<and>
     xs ! i = x \<and> take i xs @ drop (i + 1) xs = filter (\<lambda>y. y \<noteq> x) xs"
  using assms
proof (induction xs)
  case Nil
  then show ?case by simp
next
  case (Cons y ys)
  show ?case
  proof (cases "y = x")
    case True
    then have "filter (\<lambda>y. y \<noteq> x) ys = ys"
      using Cons.prems by (auto intro!: filter_True)
    with True show ?thesis by simp
  next
    case False
    then obtain i where "position (\<lambda>(a, _). a = f x) (map (\<lambda>y. (f y, g y)) ys) = Some i"
      "i < length ys" "ys ! i = x" "take i ys @ drop (i + 1) ys = filter (\<lambda>y. y \<noteq> x) ys"
      using Cons by auto
    with False show ?thesis
      using Cons.prems(3) by (intro exI [of _ "Suc i"]) (auto simp: inj_eq)
  qed
qed

lemma inj_axis_as_str: "inj axis_as_str"
  by (rule injI) simp

lemma finalize_order_all: "distinct finalize_order" "a \<in> set finalize_order"
  by (simp_all add: finalize_order_def) (cases a, simp_all)

lemma streaming_multi_axes:
  assumes H: "hashes_ok H" and S: "hasher_ok H S" and cs: "\<forall>c \<in> set cs. c \<noteq> []"
    and sha1: "Sha1 \<in> set (a # as) \<Longrightarrow> hashable H Sha1 (concat cs)"
  shows "streaming_compute_multi H S (map axis_as_str (a # as)) (map Chunk cs) =
     Ok \<lparr>primary = kappa_text H a (concat cs),
         additional = map (\<lambda>b. (axis_as_str b, kappa_text H b (concat cs)))
                        (filter (\<lambda>b. b \<in> set as \<and> b \<noteq> a) finalize_order)\<rparr>"
proof -
  define hs where
    "hs = (\<lambda>b. if b \<in> set (a # as) then Some (foldl (h_update S b) (h_new S b) cs) else None)"
  define f where "f = (\<lambda>b. (axis_as_str b, kappa_text H b (concat cs)))"
  define xs where "xs = filter (\<lambda>b. b \<in> set (a # as)) finalize_order"
  have init: "init_hashers S (\<lambda>_. None) (map axis_as_str (a # as)) =
      Ok (\<lambda>b. if b \<in> set (a # as) then Some (h_new S b) else None)"
    unfolding init_hashers_axes by (simp add: fun_eq_iff)
  have loop: "read_loop ''multi'' (update_hashers S)
      (\<lambda>b. if b \<in> set (a # as) then Some (h_new S b) else None) (map Chunk cs) = Ok hs"
    unfolding read_loop_chunks [OF cs] foldl_update_hashers hs_def by (simp add: fun_eq_iff)
  have fin: "finalize_hashers H S hs finalize_order = Ok (map f xs)"
    unfolding f_def xs_def using H S sha1 hs_def by (rule finalize_hashers_eq)
  have mem: "distinct xs" "a \<in> set xs"
    using finalize_order_all by (auto simp: xs_def)
  from remove_at_position [OF mem inj_axis_as_str, of "\<lambda>b. kappa_text H b (concat cs)"]
  obtain i where i: "position (\<lambda>(s, _). s = axis_as_str a) (map f xs) = Some i" "i < length xs"
    "xs ! i = a" "take i xs @ drop (i + 1) xs = filter (\<lambda>y. y \<noteq> a) xs"
    unfolding f_def by blast
  have rest: "take i (map f xs) @ drop (i + 1) (map f xs) = map f (filter (\<lambda>y. y \<noteq> a) xs)"
    using i(4) by (metis drop_map map_append take_map)
  have flt: "filter (\<lambda>y. y \<noteq> a) xs = filter (\<lambda>b. b \<in> set as \<and> b \<noteq> a) finalize_order"
    unfolding xs_def filter_filter by (rule filter_cong) auto
  have hd: "snd (map f xs ! i) = kappa_text H a (concat cs)"
    using i(2,3) by (simp add: f_def)
  have ne: "map f xs \<noteq> []"
    using mem(2) by auto
  have "streaming_compute_multi H S (map axis_as_str (a # as)) (map Chunk cs) =
      Ok (proof_multi (snd (map f xs ! i)) (take i (map f xs) @ drop (i + 1) (map f xs)))"
    unfolding streaming_compute_multi_def init rbind.simps loop fin
    using ne i(1) by (simp add: Let_def)
  then show ?thesis
    unfolding hd rest flt by (simp add: proof_multi_def f_def)
qed

section \<open>A concrete instance of the parameters\<close>

text \<open>
  Digests that are the zero-padded prefix of the content: they have the sizes the interface demands,
  which shows that \<open>hashes_ok\<close> and \<open>hasher_ok\<close> can hold together.
\<close>

definition pad_digest :: "nat \<Rightarrow> bytes \<Rightarrow> bytes" where
  "pad_digest n c = take n (c @ replicate n 0)"

fun hex_unpairs :: "bytes \<Rightarrow> bytes option" where
  "hex_unpairs [] = Some []"
| "hex_unpairs [_] = None"
| "hex_unpairs (h # l # rest) =
     (case (hex_nibble h, hex_nibble l, hex_unpairs rest) of
        (Some hi, Some lo, Some bs) \<Rightarrow> Some ((push_bit 4 hi OR lo) # bs)
      | _ \<Rightarrow> None)"

definition sample_hashes :: hashes where
  "sample_hashes =
     \<lparr>sha1_digest = pad_digest 20, sha1_collision = (\<lambda>_. False), sha256_digest = pad_digest 32,
      blake3_digest = pad_digest 32, sha512_digest = pad_digest 64, sha3_256_digest = pad_digest 32,
      keccak256_digest = pad_digest 32, blake3_keyed = (\<lambda>k c. pad_digest 32 (k @ c)),
      md5_digest = pad_digest 16, hex_encode = (\<lambda>bs. bytes_str (concat (map hex_pair bs))),
      hex_decode = (\<lambda>s. hex_unpairs (str_bytes s))\<rparr>"

definition sample_hasher :: "bytes hasher" where
  "sample_hasher =
     \<lparr>h_new = (\<lambda>_. []), h_update = (\<lambda>_ h c. h @ c),
      h_finalize = (\<lambda>a h. digest_of sample_hashes a h), h_collision = (\<lambda>_. False)\<rparr>"

lemma length_pad_digest [simp]: "length (pad_digest n c) = n"
  by (simp add: pad_digest_def)

lemma hex_unpairs_pairs: "hex_unpairs (concat (map hex_pair bs)) = Some bs"
proof (induction bs)
  case Nil
  show ?case by simp
next
  case (Cons b bs)
  have "hex_nibble (HEX ! unat (drop_bit 4 b)) = Some (drop_bit 4 b)"
    "hex_nibble (HEX ! unat (b AND 0x0f)) = Some (b AND 0x0f)"
    using HEX_digit [OF unat_drop_bit_4, of b] HEX_digit [OF unat_and_15, of b] by simp_all
  then show ?case
    using Cons.IH nibbles_byte [of b] by (simp add: hex_pair_def)
qed

lemma label_text_digest_inject: "label_text a ds = label_text b es \<Longrightarrow> a = b \<and> ds = es"
  by (metis label_text_inject hex_unpairs_pairs option.inject)

lemma sample_hashes_ok: "hashes_ok sample_hashes"
proof -
  have digest: "length (digest_of sample_hashes a c) = digest_bytes a" for a c
    by (cases a) (simp_all add: sample_hashes_def digest_bytes_def)
  show ?thesis
    unfolding hashes_ok_def
    by (intro conjI allI digest) (simp_all add: sample_hashes_def hex_unpairs_pairs)
qed

lemma foldl_append: "foldl (\<lambda>h c. h @ c) acc cs = acc @ concat cs"
  by (induction cs arbitrary: acc) auto

lemma sample_hasher_ok: "hasher_ok sample_hashes sample_hasher"
  by (simp add: hasher_ok_def sample_hasher_def foldl_append) (simp add: sample_hashes_def)

section \<open>Properties\<close>

text \<open>
  C17. Verification succeeds exactly on the label of the content on a recognised axis (and, for SHA-1,
  content the collision detector does not reject), and it never panics, whatever the claimed text is.
\<close>

theorem verify_kappa_correct:
  assumes "hashes_ok H"
  shows "verify_kappa H k c \<noteq> Panic \<and>
     (verify_kappa H k c = Ok True \<longleftrightarrow>
        (\<exists>a ds. k = label_text a ds \<and> ds = digest_of H a c \<and> \<not> (a = Sha1 \<and> sha1_collision H c)))"
  using verify_kappa_Ok_True [OF assms, of k c] verify_kappa_not_Panic [OF assms]
  by (simp add: kappa_text_def hashable_def)

theorem verify_kappa_correct_witness:
  "hashes_ok sample_hashes \<and>
   verify_kappa sample_hashes (label_text Sha256 (digest_of sample_hashes Sha256 [1, 2])) [1, 2] = Ok True"
proof -
  have "\<exists>a ds. label_text Sha256 (digest_of sample_hashes Sha256 [1, 2]) = label_text a ds \<and>
      ds = digest_of sample_hashes a [1, 2] \<and> \<not> (a = Sha1 \<and> sha1_collision sample_hashes [1, 2])"
    by (intro exI [of _ Sha256] exI [of _ "digest_of sample_hashes Sha256 [1, 2]"]) simp
  then show ?thesis
    using verify_kappa_correct [OF sample_hashes_ok] sample_hashes_ok by blast
qed

text \<open>
  C16. Proof-carrying content cannot be made for content that does not match: a value of
  \<open>VerifiedContent\<close> that \<open>verify\<close> returns holds the very content and a label that hashes to it, so
  verifying its own label again succeeds and \<open>compute\<close> on its axis gives the same value.
\<close>

theorem verified_content_sound:
  assumes "hashes_ok H" and "vc_verify H k c = Ok v"
  shows "vc_content v = c \<and> vc_kappa v = k \<and> verify_kappa H (vc_kappa v) (vc_content v) = Ok True \<and>
     (\<exists>a. vc_axis v = Ok a \<and> vc_compute H a c = Ok v)"
proof -
  from assms obtain a where a: "k = kappa_text H a c" "hashable H a c"
      "v = \<lparr>vc_label = mk_label (str_bytes (kappa_text H a c)), vc_content = c\<rparr>"
    by (auto simp: vc_verify_Ok)
  then have "vc_kappa v = k" "vc_axis v = Ok a" "vc_compute H a c = Ok v"
    using vc_accessors [OF assms(1) a(3)] assms(1) by (simp_all add: vc_compute_eq)
  moreover have "verify_kappa H k c = Ok True"
    using verify_kappa_Ok_True [OF assms(1)] a by blast
  ultimately show ?thesis using a(3) by simp
qed

theorem verified_content_sound_witness:
  "\<exists>v. vc_verify sample_hashes (kappa_text sample_hashes Blake3 [7]) [7] = Ok v \<and> vc_content v = [7] \<and>
       vc_kappa v = kappa_text sample_hashes Blake3 [7]"
proof -
  have "\<exists>v. vc_verify sample_hashes (kappa_text sample_hashes Blake3 [7]) [7] = Ok v"
    using vc_verify_Ok [OF sample_hashes_ok] by fastforce
  then show ?thesis
    using verified_content_sound [OF sample_hashes_ok] by blast
qed

text \<open>
  C18. Hashing a stream gives what one-shot hashing gives on the concatenation of its chunks, however
  the reader splits it, on every axis text and with the same errors.
\<close>

theorem streaming_matches_compute:
  assumes "hashes_ok H" and "hasher_ok H S" and "\<forall>c \<in> set cs. c \<noteq> []"
  shows "streaming_compute_kappa H S axis (map Chunk cs) =
     rbind (compute_kappa H axis (concat cs)) (\<lambda>l. Ok (proof_single (label_as_str l)))"
  using assms by (rule streaming_eq_compute)

theorem streaming_matches_compute_witness:
  "streaming_compute_kappa sample_hashes sample_hasher ''sha512'' (map Chunk [[1], [2, 3]]) =
     rbind (compute_kappa sample_hashes ''sha512'' [1, 2, 3]) (\<lambda>l. Ok (proof_single (label_as_str l)))"
  using streaming_matches_compute [OF sample_hashes_ok sample_hasher_ok, of "[[1], [2, 3]]" "''sha512''"]
  by simp

text \<open>
  C30. One pass over the stream for several axes gives the label of the first requested axis as the
  primary one and, for every other requested axis once, its label.
\<close>

theorem streaming_multi_correct:
  assumes "hashes_ok H" and "hasher_ok H S" and "\<forall>c \<in> set cs. c \<noteq> []"
    and "Sha1 \<in> set (a # as) \<Longrightarrow> \<not> sha1_collision H (concat cs)"
  shows "\<exists>p. streaming_compute_multi H S (map axis_as_str (a # as)) (map Chunk cs) = Ok p \<and>
     primary p = kappa_text H a (concat cs) \<and> distinct (additional p) \<and>
     set (additional p) = (\<lambda>b. (axis_as_str b, kappa_text H b (concat cs))) ` (set as - {a})"
proof -
  have "Sha1 \<in> set (a # as) \<Longrightarrow> hashable H Sha1 (concat cs)"
    using assms(4) by (simp add: hashable_def)
  from streaming_multi_axes [OF assms(1-3) this, of a as]
  show ?thesis
    using finalize_order_all
    by (auto simp: distinct_map inj_on_def)
qed

theorem streaming_multi_correct_witness:
  "\<exists>p. streaming_compute_multi sample_hashes sample_hasher (map axis_as_str [Sha256, Sha1, Sha256, Blake3])
         (map Chunk [[1], [2]]) = Ok p \<and>
     primary p = kappa_text sample_hashes Sha256 [1, 2] \<and>
     set (additional p) = (\<lambda>b. (axis_as_str b, kappa_text sample_hashes b [1, 2])) ` {Sha1, Blake3}"
proof -
  have "{Sha1, Sha256, Blake3} - {Sha256} = {Sha1, Blake3}" by auto
  moreover have "\<not> sha1_collision sample_hashes c" for c
    by (simp add: sample_hashes_def)
  ultimately show ?thesis
    using streaming_multi_correct [OF sample_hashes_ok sample_hasher_ok,
        of "[[1], [2]]" Sha256 "[Sha1, Sha256, Blake3]"]
    by auto
qed

end
