(* ===== verification/Kappa_Path.thy ===== *)
theory Kappa_Path
  imports Kappa_Compute
begin

text \<open>
  Blob paths (\<open>kappa-core/src/kappa/path.rs\<close>) and the store's error type (\<open>types.rs\<close>). The lemmas
  compute the path of a well-formed label, four components below the root.
\<close>

section \<open>Blob paths\<close>

text \<open>
  A path is its list of components. \<open>PathBuf::join\<close> replaces the path when the argument is absolute
  and otherwise appends the argument's components; empty and \<open>.\<close> components vanish.
\<close>

type_synonym path = "string list"

fun split_slash :: "string \<Rightarrow> string \<Rightarrow> string list" where
  "split_slash acc [] = [rev acc]"
| "split_slash acc (c # s) =
     (if c = CHR ''/'' then rev acc # split_slash [] s else split_slash (c # acc) s)"

definition path_components :: "string \<Rightarrow> path" where
  "path_components s = filter (\<lambda>c. c \<noteq> [] \<and> c \<noteq> ''.'') (split_slash [] s)"

definition path_join :: "path \<Rightarrow> string \<Rightarrow> path" where
  "path_join p s = (if starts_with s ''/'' then path_components s else p @ path_components s)"

text \<open>Where the operating system looks for a path: \<open>..\<close> leaves the directory it follows.\<close>

fun path_resolve :: "path \<Rightarrow> path \<Rightarrow> path" where
  "path_resolve acc [] = rev acc"
| "path_resolve acc (c # cs) =
     (if c = ''..'' then path_resolve (tl acc) cs else path_resolve (c # acc) cs)"

datatype StoreError =
    Io string
  | NotFound string
  | Conflict string
  | Rejected string
  | Canonical string

definition split_kappa :: "string \<Rightarrow> (string \<times> string) option" where
  "split_kappa kappa =
     (case find_char CHR '':'' kappa of
        None \<Rightarrow> None
      | Some colon \<Rightarrow>
          if colon = 0 \<or> colon = length kappa - 1 then None
          else Some (take colon kappa, drop (colon + 1) kappa))"

definition blob_path_for :: "path \<Rightarrow> string \<Rightarrow> (path, StoreError) result" where
  "blob_path_for root kappa =
     rbind (ok_or (Rejected (''invalid kappa-label: '' @ kappa)) (split_kappa kappa)) (\<lambda>(algo, hex).
     if length hex < 4 then Err (Rejected (''kappa digest too short: '' @ kappa))
     else if \<not> list_all is_hex_byte (str_bytes hex)
     then Err (Rejected (''non-hex character in digest: '' @ kappa))
     else Ok (path_join (path_join (path_join (path_join root algo) (take 2 hex))
                (take 2 (drop 2 hex))) hex))"

definition axis_of :: "string \<Rightarrow> string option" where
  "axis_of kappa = map_option fst (split_once CHR '':'' kappa)"


section \<open>Paths of labels\<close>

lemma split_slash_plain: "CHR ''/'' \<notin> set s \<Longrightarrow> split_slash acc s = [rev acc @ s]"
  by (induction acc s rule: split_slash.induct) auto

lemma path_join_plain:
  assumes "CHR ''/'' \<notin> set s" and "s \<noteq> []" and "s \<noteq> ''.''"
  shows "path_join p s = p @ [s]"
proof -
  have "\<not> starts_with s ''/''"
    using assms by (cases s) (auto simp: starts_with_def)
  then show ?thesis
    using assms by (simp add: path_join_def path_components_def split_slash_plain)
qed

lemma hex_char_plain:
  assumes "is_hex_byte (byte_of_char c)"
  shows "c \<noteq> CHR ''/'' \<and> c \<noteq> CHR ''.''"
proof -
  have "\<not> is_hex_byte (byte_of_char CHR ''/'') \<and> \<not> is_hex_byte (byte_of_char CHR ''.'')"
    by code_simp
  with assms show ?thesis by blast
qed

lemma path_join_hex:
  assumes "list_all is_hex_byte (str_bytes h)" and "h \<noteq> []"
  shows "path_join p h = p @ [h]"
proof -
  have hex: "c \<noteq> CHR ''/'' \<and> c \<noteq> CHR ''.''" if "c \<in> set h" for c
    using assms(1) that by (intro hex_char_plain) (simp add: str_bytes_def list_all_iff)
  show ?thesis
  proof (rule path_join_plain)
    show "CHR ''/'' \<notin> set h"
      using hex by blast
    show "h \<noteq> ''.''"
      using hex [of "CHR ''.''"] by (metis list.set_intros(1))
  qed (rule assms(2))
qed

lemma path_join_axis: "path_join p (axis_as_str a) = p @ [axis_as_str a]"
  by (rule path_join_plain) (cases a; simp)+

text \<open>The digits of a label, as text.\<close>

definition hex_text :: "bytes \<Rightarrow> string" where
  "hex_text ds = bytes_str (concat (map hex_pair ds))"

lemma label_text_hex: "label_text a ds = axis_as_str a @ '':'' @ hex_text ds"
  by (simp add: label_text_def hex_text_def)

lemma hex_text_hex: "list_all is_hex_byte (str_bytes (hex_text ds))"
  using is_hex_pairs [of ds] by (simp add: hex_text_def list_all_iff)

lemma length_hex_text [simp]: "length (hex_text ds) = 2 * length ds"
  by (simp add: hex_text_def)

lemma list_all_str_bytes_take: "list_all P (str_bytes s) \<Longrightarrow> list_all P (str_bytes (take n s))"
  by (auto simp: str_bytes_def list_all_iff dest: in_set_takeD)

lemma list_all_str_bytes_drop: "list_all P (str_bytes s) \<Longrightarrow> list_all P (str_bytes (drop n s))"
  by (auto simp: str_bytes_def list_all_iff dest: in_set_dropD)

lemma split_kappa_text:
  assumes "length ds = digest_bytes a"
  shows "split_kappa (label_text a ds) = Some (axis_as_str a, hex_text ds)"
  using assms digest_bytes_ge [of a]
  by (simp add: split_kappa_def) (simp add: label_text_hex)

lemma blob_path_for_text:
  assumes "length ds = digest_bytes a"
  shows "blob_path_for root (label_text a ds) =
     Ok (root @ [axis_as_str a, take 2 (hex_text ds), take 2 (drop 2 (hex_text ds)), hex_text ds])"
proof -
  let ?h = "hex_text ds"
  have hex: "list_all is_hex_byte (str_bytes ?h)" by (rule hex_text_hex)
  have ne: "4 \<le> length ?h" using assms digest_bytes_ge [of a] by simp
  then have "?h \<noteq> []" "take 2 ?h \<noteq> []" "take 2 (drop 2 ?h) \<noteq> []"
    by (auto simp del: length_hex_text)
  then show ?thesis
    using hex ne
    by (simp add: blob_path_for_def split_kappa_text [OF assms] path_join_axis path_join_hex
        list_all_str_bytes_take list_all_str_bytes_drop)
qed

section \<open>Properties\<close>

lemma hex_text_no_dots:
  assumes "x = take n (drop m (hex_text ds))"
  shows "x \<noteq> ''..''"
proof
  assume dots: "x = ''..''"
  have "list_all is_hex_byte (str_bytes x)"
    unfolding assms by (intro list_all_str_bytes_take list_all_str_bytes_drop hex_text_hex)
  then have "is_hex_byte (byte_of_char CHR ''.'')" unfolding dots by simp
  then show False using hex_char_plain by blast
qed

lemma axis_no_dots: "axis_as_str a \<noteq> ''..''"
  by (cases a) simp_all

text \<open>
  C19. The path of a valid label is four components below the root, none of them \<open>..\<close>, and two valid
  labels share a path only when they are the same label: the layout neither escapes the root nor
  lets one blob overwrite another.
\<close>

theorem blob_path_injective:
  assumes "label_parse k = Ok l" and "label_parse k' = Ok l'"
  shows "\<exists>p p'. blob_path_for root k = Ok (root @ p) \<and> blob_path_for root k' = Ok (root @ p') \<and>
     length p = 4 \<and> ''..'' \<notin> set p \<and> (p = p' \<longleftrightarrow> k = k')"
proof -
  from label_parse_OkD [OF assms(1)] obtain a ds where k: "length ds = digest_bytes a" "k = label_text a ds"
    by blast
  from label_parse_OkD [OF assms(2)] obtain b es where k': "length es = digest_bytes b" "k' = label_text b es"
    by blast
  let ?p = "\<lambda>a ds. [axis_as_str a, take 2 (hex_text ds), take 2 (drop 2 (hex_text ds)), hex_text ds]"
  have "''..'' \<notin> set (?p a ds)"
    using axis_no_dots [of a] hex_text_no_dots [of _ 2 0 ds] hex_text_no_dots [of _ 2 2 ds]
      hex_text_no_dots [of _ "length (hex_text ds)" 0 ds] by fastforce
  moreover have "?p a ds = ?p b es \<longleftrightarrow> k = k'"
  proof
    assume "?p a ds = ?p b es"
    then have "a = b" "hex_text ds = hex_text es" by simp_all
    then show "k = k'" unfolding k(2) k'(2) label_text_hex by simp
  next
    assume "k = k'"
    then have "label_text a ds = label_text b es" unfolding k(2) k'(2) .
    from label_text_inject [OF this] have "a = b" "hex_text ds = hex_text es"
      by (simp_all add: hex_text_def)
    then show "?p a ds = ?p b es" by simp
  qed
  ultimately show ?thesis
    unfolding k(2) k'(2) blob_path_for_text [OF k(1)] blob_path_for_text [OF k'(1)]
    by (intro exI [of _ "?p a ds"] exI [of _ "?p b es"]) simp
qed

theorem blob_path_injective_witness:
  "\<exists>p p'. blob_path_for [''blobs''] (label_text Sha1 (replicate 20 0)) = Ok ([''blobs''] @ p) \<and>
     blob_path_for [''blobs''] (label_text Sha256 (replicate 32 1)) = Ok ([''blobs''] @ p') \<and>
     ''..'' \<notin> set p \<and> p \<noteq> p'"
proof -
  let ?k = "label_text Sha1 (replicate 20 0)" and ?k' = "label_text Sha256 (replicate 32 1)"
  have ne: "?k \<noteq> ?k'"
    using label_text_inject by blast
  have "label_parse ?k = Ok (mk_label (str_bytes ?k))" "label_parse ?k' = Ok (mk_label (str_bytes ?k'))"
    by (rule label_parse_text, simp add: digest_bytes_def)+
  from blob_path_injective [OF this, of "[''blobs'']"] show ?thesis
    using ne by blast
qed

text \<open>
  Only the digest of a label is checked before the path is built. An algorithm part that is
  absolute or climbs with \<open>..\<close> passes and the path then leaves the blob root.
\<close>

lemma blob_path_escapes_root:
  "blob_path_for [''srv'', ''blobs''] ''/etc:abcd'' = Ok [''etc'', ''ab'', ''cd'', ''abcd''] \<and>
   map_result (path_resolve []) id (blob_path_for [''srv'', ''blobs''] ''../..:abcd'') =
     Ok [''ab'', ''cd'', ''abcd'']"
  by code_simp

end
