(* ===== verification/Codec.thy ===== *)
theory Codec
  imports Kappa_Path
begin

text \<open>
  Byte-level codecs: \<open>to_be_bytes\<close>/\<open>from_be_bytes\<close> of unsigned integers, the UTF-8 validity check of
  \<open>str::from_utf8\<close>, and the interface of positional parsers (a function from a buffer and a position
  to a value and the position after it) as locales. A client proves its round trip once against the
  interface; the wire formats of the development interpret it.
\<close>

section \<open>Big-endian integers\<close>

fun be_bytes :: "nat \<Rightarrow> nat \<Rightarrow> bytes" where
  "be_bytes 0 x = []"
| "be_bytes (Suc n) x = be_bytes n (x div 256) @ [word_of_nat x]"

definition be_val :: "bytes \<Rightarrow> nat" where
  "be_val bs = foldl (\<lambda>acc b. acc * 256 + unat b) 0 bs"

definition le_val :: "bytes \<Rightarrow> nat" where
  "le_val bs = be_val (rev bs)"

lemma length_be_bytes [simp]: "length (be_bytes n x) = n"
  by (induction n x rule: be_bytes.induct) simp_all

lemma be_val_Nil [simp]: "be_val [] = 0"
  by (simp add: be_val_def)

lemma be_val_snoc [simp]: "be_val (bs @ [b]) = be_val bs * 256 + unat b"
  by (simp add: be_val_def)

lemma unat_byte_of_nat: "unat (word_of_nat x :: byte) = x mod 256"
  by (simp add: unat_of_nat take_bit_eq_mod)

lemma be_val_be_bytes [simp]: "be_val (be_bytes n x) = x mod 256 ^ n"
proof (induction n arbitrary: x)
  case 0
  show ?case by simp
next
  case (Suc n)
  show ?case
    by (simp add: Suc unat_byte_of_nat mod_mult2_eq)
qed

lemma be_bytes_be_val: "be_bytes (length bs) (be_val bs) = bs"
proof (induction bs rule: rev_induct)
  case Nil
  show ?case by simp
next
  case (snoc b bs)
  have lt: "unat b < 256"
    using unsigned_less [of b, where ?'a = nat] by simp
  then have "(be_val bs * 256 + unat b) div 256 = be_val bs" by simp
  moreover have "(word_of_nat (be_val bs * 256 + unat b) :: byte) = b"
    unfolding word_unat_eq_iff unat_byte_of_nat using lt by simp
  ultimately show ?case using snoc by simp
qed

lemma be_val_less: "be_val bs < 256 ^ length bs"
proof (induction bs rule: rev_induct)
  case (snoc b bs)
  have "unat b < 256"
    using unsigned_less [of b, where ?'a = nat] by simp
  then have "be_val bs * 256 + unat b < (be_val bs + 1) * 256" by simp
  also have "\<dots> \<le> 256 ^ length bs * 256" using snoc by (intro mult_le_mono1) simp
  finally show ?case by (simp add: mult.commute)
qed simp

section \<open>UTF-8\<close>

text \<open>The validity check of \<open>str::from_utf8\<close> (the Unicode standard's well-formed byte sequences).\<close>

definition is_cont :: "byte \<Rightarrow> bool" where
  "is_cont b \<longleftrightarrow> 0x80 \<le> b \<and> b \<le> 0xBF"

fun utf8_valid :: "bytes \<Rightarrow> bool" where
  "utf8_valid [] \<longleftrightarrow> True"
| "utf8_valid (a # s) \<longleftrightarrow>
     (if a \<le> 0x7F then utf8_valid s
      else if 0xC2 \<le> a \<and> a \<le> 0xDF then
        (case s of b # s' \<Rightarrow> is_cont b \<and> utf8_valid s' | _ \<Rightarrow> False)
      else if 0xE0 \<le> a \<and> a \<le> 0xEF then
        (case s of b # c # s' \<Rightarrow>
           is_cont b \<and> (a = 0xE0 \<longrightarrow> 0xA0 \<le> b) \<and> (a = 0xED \<longrightarrow> b \<le> 0x9F) \<and> is_cont c \<and> utf8_valid s'
         | _ \<Rightarrow> False)
      else if 0xF0 \<le> a \<and> a \<le> 0xF4 then
        (case s of b # c # d # s' \<Rightarrow>
           is_cont b \<and> (a = 0xF0 \<longrightarrow> 0x90 \<le> b) \<and> (a = 0xF4 \<longrightarrow> b \<le> 0x8F) \<and>
           is_cont c \<and> is_cont d \<and> utf8_valid s'
         | _ \<Rightarrow> False)
      else False)"

definition from_utf8 :: "bytes \<Rightarrow> string option" where
  "from_utf8 bs = (if utf8_valid bs then Some (bytes_str bs) else None)"

definition ascii_str :: "string \<Rightarrow> bool" where
  "ascii_str s \<longleftrightarrow> (\<forall>c \<in> set s. byte_of_char c \<le> 0x7F)"

lemma utf8_valid_ascii: "\<forall>b \<in> set bs. b \<le> 0x7F \<Longrightarrow> utf8_valid bs"
  by (induction bs) auto

lemma from_utf8_ascii: "ascii_str s \<Longrightarrow> from_utf8 (str_bytes s) = Some s"
  by (auto simp: from_utf8_def ascii_str_def str_bytes_def intro!: utf8_valid_ascii)
    (metis bytes_str_str_bytes str_bytes_def)

lemma from_utf8_valid: "utf8_valid (str_bytes s) \<Longrightarrow> from_utf8 (str_bytes s) = Some s"
  by (simp add: from_utf8_def)

section \<open>Positional parsers\<close>

text \<open>
  A codec is an encoder, a parser of a buffer at a position, the values it is meant for, and the
  buffer lengths it can handle (a parser that adds a length from the wire to a position relies on the
  buffer being one that fits in memory). The law: parsing at the place where an encoding stands gives
  the value and the position after it, whatever stands before and after.
\<close>

locale pos_codec =
  fixes enc :: "'a \<Rightarrow> bytes"
    and dec :: "bytes \<Rightarrow> nat \<Rightarrow> ('a \<times> nat, 'e) result"
    and dom :: "'a \<Rightarrow> bool"
    and fits :: "nat \<Rightarrow> bool"
  assumes dec_enc:
    "dom x \<Longrightarrow> fits (length (pre @ enc x @ post)) \<Longrightarrow>
     dec (pre @ enc x @ post) (length pre) = Ok (x, length pre + length (enc x))"
begin

lemma dec_enc_at:
  assumes "dom x" and "data = pre @ enc x @ post" and "pos = length pre" and "fits (length data)"
  shows "dec data pos = Ok (x, pos + length (enc x))"
  using assms dec_enc by simp

lemma dec_enc_prefix:
  "dom x \<Longrightarrow> fits (length (enc x @ post)) \<Longrightarrow> dec (enc x @ post) 0 = Ok (x, length (enc x))"
  using dec_enc [of x "[]" post] by simp

lemma enc_prefix_free:
  assumes "dom x" and "dom y" and "fits (length (enc x @ s))" and "enc x @ s = enc y @ t"
  shows "x = y \<and> s = t"
proof -
  have "Ok (x, length (enc x)) = dec (enc x @ s) 0"
    using dec_enc_prefix [OF assms(1,3)] by simp
  also have "\<dots> = Ok (y, length (enc y))"
    using assms(3) dec_enc_prefix [OF assms(2)] unfolding assms(4) by simp
  finally have "x = y" by simp
  with assms(4) show ?thesis by simp
qed

end

text \<open>One parser after the other.\<close>

definition seq_dec ::
  "(bytes \<Rightarrow> nat \<Rightarrow> ('a \<times> nat, 'e) result) \<Rightarrow> (bytes \<Rightarrow> nat \<Rightarrow> ('b \<times> nat, 'e) result) \<Rightarrow>
   bytes \<Rightarrow> nat \<Rightarrow> (('a \<times> 'b) \<times> nat, 'e) result" where
  "seq_dec d1 d2 data pos =
     rbind (d1 data pos) (\<lambda>(x, pos1). rbind (d2 data pos1) (\<lambda>(y, pos2). Ok ((x, y), pos2)))"

definition seq_enc :: "('a \<Rightarrow> bytes) \<Rightarrow> ('b \<Rightarrow> bytes) \<Rightarrow> 'a \<times> 'b \<Rightarrow> bytes" where
  "seq_enc e1 e2 = (\<lambda>(x, y). e1 x @ e2 y)"

locale pos_codec2 = fst: pos_codec enc1 dec1 dom1 fits + snd: pos_codec enc2 dec2 dom2 fits
  for enc1 :: "'a \<Rightarrow> bytes" and dec1 :: "bytes \<Rightarrow> nat \<Rightarrow> ('a \<times> nat, 'e) result" and dom1
    and enc2 :: "'b \<Rightarrow> bytes" and dec2 :: "bytes \<Rightarrow> nat \<Rightarrow> ('b \<times> nat, 'e) result" and dom2
    and fits :: "nat \<Rightarrow> bool"
begin

lemma seq_dec_enc:
  assumes "dom1 x" and "dom2 y" and "fits (length (pre @ seq_enc enc1 enc2 (x, y) @ post))"
  shows "seq_dec dec1 dec2 (pre @ seq_enc enc1 enc2 (x, y) @ post) (length pre) =
     Ok ((x, y), length pre + length (seq_enc enc1 enc2 (x, y)))"
proof -
  have "dec1 (pre @ enc1 x @ enc2 y @ post) (length pre) = Ok (x, length pre + length (enc1 x))"
    using assms by (intro fst.dec_enc) (simp_all add: seq_enc_def)
  moreover have "dec2 ((pre @ enc1 x) @ enc2 y @ post) (length (pre @ enc1 x)) =
      Ok (y, length (pre @ enc1 x) + length (enc2 y))"
    using assms by (intro snd.dec_enc) (simp_all add: seq_enc_def)
  ultimately show ?thesis
    by (simp add: seq_dec_def seq_enc_def add.assoc)
qed

end

sublocale pos_codec2 \<subseteq> pair: pos_codec "seq_enc enc1 enc2" "seq_dec dec1 dec2" "\<lambda>(x, y). dom1 x \<and> dom2 y" fits
  by unfold_locales (auto intro: seq_dec_enc)

end
