(* ===== verification/Types.thy ===== *)
theory Types
  imports Codec
begin

unbundle bit_operations_syntax

text \<open>
  The core types (\<open>kappa-core/src/types.rs\<close>), and the parameters that stand for the remaining
  third-party code: the dCBOR crate with the codecs its derive macro generates, the CRC crate, and
  the Unicode normal form test. \<open>externals_ok\<close> states their documented behaviour: a value whose texts
  are in normal form decodes from its encoding as itself.
\<close>

section \<open>Namespaces\<close>

datatype ProtocolHint = Oci | S3 | Git | KappaDistribution | Nix | NoProtocol

type_synonym uuid = bytes

record NamespaceRef =
  ns_uuid :: uuid
  ns_display_name :: "string option"
  ns_protocol :: "ProtocolHint option"

definition ns_new :: "uuid \<Rightarrow> NamespaceRef" where
  "ns_new u = \<lparr>ns_uuid = u, ns_display_name = None, ns_protocol = None\<rparr>"

definition ns_with_name :: "uuid \<Rightarrow> string \<Rightarrow> NamespaceRef" where
  "ns_with_name u name = \<lparr>ns_uuid = u, ns_display_name = Some name, ns_protocol = None\<rparr>"

definition ns_with_protocol :: "ProtocolHint \<Rightarrow> NamespaceRef \<Rightarrow> NamespaceRef" where
  "ns_with_protocol p ns = ns\<lparr>ns_protocol := Some p\<rparr>"

definition ns_uuid_hex :: "('x) hashes_scheme \<Rightarrow> NamespaceRef \<Rightarrow> string" where
  "ns_uuid_hex H ns = hex_encode H (ns_uuid ns)"

definition ns_as_str :: "NamespaceRef \<Rightarrow> string" where
  "ns_as_str ns = (case ns_display_name ns of Some name \<Rightarrow> name | None \<Rightarrow> [])"

definition ns_eq :: "NamespaceRef \<Rightarrow> NamespaceRef \<Rightarrow> bool" where
  "ns_eq a b \<longleftrightarrow> ns_uuid a = ns_uuid b"

definition ns_display :: "('x) hashes_scheme \<Rightarrow> NamespaceRef \<Rightarrow> string" where
  "ns_display H ns =
     (case ns_display_name ns of Some name \<Rightarrow> name | None \<Rightarrow> ''ns:'' @ hex_encode H (ns_uuid ns))"

text \<open>The version and variant bits of bytes 6 and 8.\<close>

definition uuid_stamp :: "byte \<Rightarrow> uuid \<Rightarrow> uuid" where
  "uuid_stamp v u = (let u' = u[6 := (u ! 6 AND 0x0F) OR v] in u'[8 := (u' ! 8 AND 0x3F) OR 0x80])"

definition ns_deterministic :: "('x) hashes_scheme \<Rightarrow> string \<Rightarrow> NamespaceRef" where
  "ns_deterministic H name =
     (let key = blake3_digest H (str_bytes ''kappa-namespace-uuid'');
          h = blake3_keyed H key (str_bytes name)
      in \<lparr>ns_uuid = uuid_stamp 0x80 (take 16 h), ns_display_name = Some name, ns_protocol = None\<rparr>)"

text \<open>\<open>generate\<close> reads the clock and eight random bytes: they are its arguments.\<close>

definition ns_generate :: "u64 \<Rightarrow> bytes \<Rightarrow> string \<Rightarrow> NamespaceRef" where
  "ns_generate ms rnd name =
     (let u0 = drop 2 (be_bytes 8 (unat ms)) @ [0, 0] @ replicate 8 0;
          u1 = u0[6 := (u0 ! 6 AND 0x0F) OR 0x70];
          u2 = take 8 u1 @ take 8 rnd;
          u3 = u2[8 := (u2 ! 8 AND 0x3F) OR 0x80]
      in \<lparr>ns_uuid = u3, ns_display_name = Some name, ns_protocol = None\<rparr>)"

definition ALIASES_NS :: uuid where
  "ALIASES_NS = [0x00, 0x00, 0x00, 0x00, 0x00, 0x00, 0x80, 0x00, 0x80, 0x00, 0x6b, 0x61, 0x70, 0x70, 0x61, 0x00]"

definition HANDLES_NS :: uuid where
  "HANDLES_NS = [0x00, 0x00, 0x00, 0x00, 0x00, 0x01, 0x80, 0x00, 0x80, 0x00, 0x6b, 0x61, 0x70, 0x70, 0x61, 0x00]"

definition aliases_ns :: NamespaceRef where
  "aliases_ns = ns_with_name ALIASES_NS ''_aliases''"

definition handles_ns :: NamespaceRef where
  "handles_ns = ns_with_name HANDLES_NS ''_handles''"

section \<open>Tags\<close>

record TagEntry =
  te_name :: string
  te_kappa :: string
  te_version :: u64

record TagUpdate =
  tu_name :: string
  tu_kappa :: string
  tu_expected_version :: "u64 option"

section \<open>Edges\<close>

datatype EdgeRelation =
    Owns | ComposedOf | Assertion | Revocation | Capability | RecoveryShare | EpochRootRel
  | AkdTreeNode | ChunkManifest | WitnessReceiptRel | OffloadReceipt | DerivedFrom | CertifiedBy
  | EvidenceProvenance | SectionOf | RefersTo | Delegation

fun relation_as_str :: "EdgeRelation \<Rightarrow> string" where
  "relation_as_str Owns = ''owns''"
| "relation_as_str ComposedOf = ''composed-of''"
| "relation_as_str Assertion = ''assertion''"
| "relation_as_str Revocation = ''revocation''"
| "relation_as_str Capability = ''capability''"
| "relation_as_str RecoveryShare = ''recovery-share''"
| "relation_as_str EpochRootRel = ''epoch-root''"
| "relation_as_str AkdTreeNode = ''akd-tree-node''"
| "relation_as_str ChunkManifest = ''chunk-manifest''"
| "relation_as_str WitnessReceiptRel = ''witness-receipt''"
| "relation_as_str OffloadReceipt = ''offload-receipt''"
| "relation_as_str DerivedFrom = ''derived-from''"
| "relation_as_str CertifiedBy = ''certified-by''"
| "relation_as_str EvidenceProvenance = ''evidence-provenance''"
| "relation_as_str SectionOf = ''section-of''"
| "relation_as_str RefersTo = ''refers-to''"
| "relation_as_str Delegation = ''delegation''"

definition relation_parse :: "string \<Rightarrow> EdgeRelation option" where
  "relation_parse s =
     (if s = ''owns'' then Some Owns
      else if s = ''composed-of'' then Some ComposedOf
      else if s = ''assertion'' then Some Assertion
      else if s = ''revocation'' then Some Revocation
      else if s = ''capability'' then Some Capability
      else if s = ''recovery-share'' then Some RecoveryShare
      else if s = ''epoch-root'' then Some EpochRootRel
      else if s = ''akd-tree-node'' then Some AkdTreeNode
      else if s = ''chunk-manifest'' then Some ChunkManifest
      else if s = ''witness-receipt'' \<or> s = ''witness-of'' then Some WitnessReceiptRel
      else if s = ''offload-receipt'' then Some OffloadReceipt
      else if s = ''derived-from'' \<or> s = ''derives-from'' then Some DerivedFrom
      else if s = ''certified-by'' then Some CertifiedBy
      else if s = ''evidence-provenance'' then Some EvidenceProvenance
      else if s = ''section-of'' then Some SectionOf
      else if s = ''refers-to'' then Some RefersTo
      else if s = ''delegation'' then Some Delegation
      else None)"

fun gc_reachable :: "EdgeRelation \<Rightarrow> bool" where
  "gc_reachable Owns = True"
| "gc_reachable ComposedOf = True"
| "gc_reachable Assertion = True"
| "gc_reachable Revocation = True"
| "gc_reachable Capability = True"
| "gc_reachable RecoveryShare = True"
| "gc_reachable EpochRootRel = True"
| "gc_reachable AkdTreeNode = True"
| "gc_reachable ChunkManifest = True"
| "gc_reachable WitnessReceiptRel = True"
| "gc_reachable OffloadReceipt = True"
| "gc_reachable DerivedFrom = True"
| "gc_reachable CertifiedBy = True"
| "gc_reachable EvidenceProvenance = True"
| "gc_reachable SectionOf = True"
| "gc_reachable RefersTo = True"
| "gc_reachable Delegation = True"

record DelegationScope =
  ds_namespaces :: "string list"
  ds_operations :: "string list"
  ds_expires_at_ms :: "u64 option"
  ds_delegation_depth :: u32

record Edge =
  ed_source :: string
  ed_target :: string
  ed_relation :: EdgeRelation
  ed_asserter :: string
  ed_value_kappa :: "string option"
  ed_metadata :: "bytes option"

datatype Direction = Outbound | Inbound

record EdgeQuery =
  eq_anchor :: string
  eq_direction :: Direction
  eq_relation :: "EdgeRelation option"
  eq_asserter :: "string option"

section \<open>Epoch mutations\<close>

datatype MutationOp =
    TagSet | TagDelete | EdgePut | EdgeDelete | AssertionPublish | RevocationPublish
  | AnchorOrigin | BlobPut | BlobDelete

record EpochMutation =
  em_op :: MutationOp
  em_namespace :: string
  em_tag_name :: string
  em_old_kappa :: "string option"
  em_new_kappa :: "string option"

section \<open>Federation and modes\<close>

datatype FederationMode = Disabled | Active | Passive

datatype ConflictResolution = RejectRemote | AcceptAll | VersionWins

record FederationConfig =
  fc_mode :: FederationMode
  fc_peers :: "string list"
  fc_sync_interval_secs :: u64
  fc_conflict_resolution :: ConflictResolution

definition federation_default :: FederationConfig where
  "federation_default =
     \<lparr>fc_mode = Disabled, fc_peers = [], fc_sync_interval_secs = 300, fc_conflict_resolution = RejectRemote\<rparr>"

datatype WriterMode = SingleWriter | Contended

datatype Durability = Ephemeral | Checkpoint | Replicated | Witnessed

datatype FaultModel = CrashFault | Byzantine

section \<open>Request-scoped types\<close>

datatype ResolvedNamespace =
    NsExists NamespaceRef
  | NsNotFound string string
  | NoNamespace

datatype NamespaceError = NamespaceNotFound string | NoNamespaceInPath

datatype DetectedOperation = OpRead | OpWrite | OpWriteDiscovery

fun is_write :: "DetectedOperation \<Rightarrow> bool" where
  "is_write OpRead = False"
| "is_write OpWrite = True"
| "is_write OpWriteDiscovery = True"

fun expect_exists :: "ResolvedNamespace \<Rightarrow> (NamespaceRef, NamespaceError) result" where
  "expect_exists (NsExists ns) = Ok ns"
| "expect_exists (NsNotFound name _) = Err (NamespaceNotFound name)"
| "expect_exists NoNamespace = Err NoNamespaceInPath"

fun name_if_missing :: "ResolvedNamespace \<Rightarrow> (string \<times> string) option" where
  "name_if_missing (NsNotFound name protocol) = Some (name, protocol)"
| "name_if_missing _ = None"

section \<open>Digests that are not addresses\<close>

datatype AttestationDigest = Md5 | Crc32 | Crc32c | Crc64Nvme

fun attestation_as_str :: "AttestationDigest \<Rightarrow> string" where
  "attestation_as_str Md5 = ''md5''"
| "attestation_as_str Crc32 = ''crc32''"
| "attestation_as_str Crc32c = ''crc32c''"
| "attestation_as_str Crc64Nvme = ''crc64nvme''"

section \<open>Versions\<close>

datatype VersioningState = Unversioned | Enabled | Suspended

record VersionEntry =
  ve_version_id :: string
  ve_kappa :: "string option"
  ve_is_delete_marker :: bool
  ve_timestamp_ms :: u64
  ve_size :: u64
  ve_etag :: "string option"

record DeleteResult =
  dr_version_id :: string
  dr_is_delete_marker :: bool

section \<open>Parameters\<close>

text \<open>The data model of CBOR, as the crate's \<open>CBORCase\<close> presents a decoded item.\<close>

datatype cbor =
    CUnsigned u64
  | CNegative u64
  | CByteString bytes
  | CText string
  | CArray "cbor list"
  | CMap "(cbor \<times> cbor) list"
  | CTagged u64 cbor
  | CNull
  | CSimple string

record externals = hashes +
  cbor_encode :: "cbor \<Rightarrow> bytes"
  cbor_decode :: "bytes \<Rightarrow> (cbor, string) result"
  cbor_wrong_type :: string
  text_nfc :: "string \<Rightarrow> bool"
  enc_TagEntry :: "TagEntry \<Rightarrow> bytes"
  enc_EpochMutation :: "EpochMutation \<Rightarrow> bytes"
  enc_Edge :: "Edge \<Rightarrow> bytes"
  crc_checksum :: "AttestationDigest \<Rightarrow> bytes \<Rightarrow> u64"

definition externals_ok :: "('x) externals_scheme \<Rightarrow> bool" where
  "externals_ok H \<longleftrightarrow> hashes_ok H \<and>
     (\<forall>s. ascii_str s \<longrightarrow> text_nfc H s) \<and>
     (\<forall>s. text_nfc H s \<longrightarrow> cbor_decode H (cbor_encode H (CText s)) = Ok (CText s)) \<and>
     (\<forall>n. cbor_decode H (cbor_encode H (CUnsigned n)) = Ok (CUnsigned n)) \<and>
     (\<forall>bs. cbor_decode H (cbor_encode H (CByteString bs)) = Ok (CByteString bs)) \<and>
     cbor_decode H (cbor_encode H CNull) = Ok CNull"

fun attestation_compute :: "('x) externals_scheme \<Rightarrow> AttestationDigest \<Rightarrow> bytes \<Rightarrow> bytes" where
  "attestation_compute H Md5 content = md5_digest H content"
| "attestation_compute H Crc32 content = be_bytes 4 (unat (crc_checksum H Crc32 content))"
| "attestation_compute H Crc32c content = be_bytes 4 (unat (crc_checksum H Crc32c content))"
| "attestation_compute H Crc64Nvme content = be_bytes 8 (unat (crc_checksum H Crc64Nvme content))"

text \<open>\<open>canonical_bytes\<close> and \<open>from_canonical\<close> of the plain types (\<open>canonical.rs\<close>).\<close>

definition canonical_str :: "('x) externals_scheme \<Rightarrow> string \<Rightarrow> bytes" where
  "canonical_str H s = cbor_encode H (CText s)"

definition canonical_u64 :: "('x) externals_scheme \<Rightarrow> u64 \<Rightarrow> bytes" where
  "canonical_u64 H n = cbor_encode H (CUnsigned n)"

definition from_canonical_str :: "('x) externals_scheme \<Rightarrow> bytes \<Rightarrow> (string, string) result" where
  "from_canonical_str H bs =
     rbind (map_err (\<lambda>e. ''canonical decode error: '' @ e) (cbor_decode H bs)) (\<lambda>c.
     case c of CText s \<Rightarrow> Ok s | _ \<Rightarrow> Err (''canonical conversion error: '' @ cbor_wrong_type H))"

definition from_canonical_u64 :: "('x) externals_scheme \<Rightarrow> bytes \<Rightarrow> (u64, string) result" where
  "from_canonical_u64 H bs =
     rbind (map_err (\<lambda>e. ''canonical decode error: '' @ e) (cbor_decode H bs)) (\<lambda>c.
     case c of CUnsigned n \<Rightarrow> Ok n | _ \<Rightarrow> Err (''canonical conversion error: '' @ cbor_wrong_type H))"

section \<open>Hash keys\<close>

definition namespace_hash :: "('x) hashes_scheme \<Rightarrow> string \<Rightarrow> u64" where
  "namespace_hash H ns = word_of_nat (le_val (take 8 (blake3_digest H (str_bytes ns))))"

definition item_hash :: "('x) hashes_scheme \<Rightarrow> string \<Rightarrow> u64" where
  "item_hash H name = namespace_hash H name"


section \<open>Lemmas\<close>

lemma externals_hashes_ok [simp]: "externals_ok H \<Longrightarrow> hashes_ok H"
  by (simp add: externals_ok_def)

lemma from_canonical_str_roundtrip [simp]:
  "externals_ok H \<Longrightarrow> text_nfc H s \<Longrightarrow> from_canonical_str H (canonical_str H s) = Ok s"
  by (simp add: externals_ok_def from_canonical_str_def canonical_str_def)

lemma from_canonical_u64_roundtrip [simp]:
  "externals_ok H \<Longrightarrow> from_canonical_u64 H (canonical_u64 H n) = Ok n"
  by (simp add: externals_ok_def from_canonical_u64_def canonical_u64_def)

lemma relation_parse_as_str [simp]: "relation_parse (relation_as_str r) = Some r"
  by (cases r) (simp_all add: relation_parse_def)

lemma relation_as_str_inject [simp]: "relation_as_str r = relation_as_str s \<longleftrightarrow> r = s"
  by (metis relation_parse_as_str option.inject)

lemma gc_reachable_all [simp]: "gc_reachable r"
  by (cases r) simp_all

lemma length_uuid_stamp [simp]: "length (uuid_stamp v u) = length u"
  by (simp add: uuid_stamp_def Let_def)

lemma length_ns_deterministic [simp]:
  "hashes_ok H \<Longrightarrow> length (ns_uuid (ns_deterministic H name)) = 16"
  by (simp add: ns_deterministic_def Let_def hashes_ok_keyed)

lemma length_ns_generate: "length rnd = 8 \<Longrightarrow> length (ns_uuid (ns_generate ms rnd name)) = 16"
  by (simp add: ns_generate_def Let_def)

section \<open>A concrete instance of the parameters\<close>

fun sample_encode :: "cbor \<Rightarrow> bytes" where
  "sample_encode (CText s) = 1 # str_bytes s"
| "sample_encode (CUnsigned n) = 2 # be_bytes 8 (unat n)"
| "sample_encode (CByteString b) = 3 # b"
| "sample_encode CNull = [4]"
| "sample_encode _ = [5]"

definition sample_decode :: "bytes \<Rightarrow> (cbor, string) result" where
  "sample_decode bs =
     (case bs of
        [] \<Rightarrow> Err ''empty''
      | t # d \<Rightarrow>
          if t = 1 then Ok (CText (bytes_str d))
          else if t = 2 then Ok (CUnsigned (word_of_nat (be_val d)))
          else if t = 3 then Ok (CByteString d)
          else if t = 4 then Ok CNull
          else Err ''unknown'')"

definition sample_externals :: externals where
  "sample_externals =
     \<lparr>sha1_digest = pad_digest 20, sha1_collision = (\<lambda>_. False), sha256_digest = pad_digest 32,
      blake3_digest = pad_digest 32, sha512_digest = pad_digest 64, sha3_256_digest = pad_digest 32,
      keccak256_digest = pad_digest 32, blake3_keyed = (\<lambda>k c. pad_digest 32 (k @ c)),
      md5_digest = pad_digest 16, hex_encode = (\<lambda>bs. bytes_str (concat (map hex_pair bs))),
      hex_decode = (\<lambda>s. hex_unpairs (str_bytes s)),
      cbor_encode = sample_encode, cbor_decode = sample_decode, cbor_wrong_type = ''wrong type'',
      text_nfc = (\<lambda>_. True),
      enc_TagEntry = (\<lambda>t. str_bytes (te_name t) @ [0] @ str_bytes (te_kappa t)),
      enc_EpochMutation = (\<lambda>m. str_bytes (em_tag_name m)),
      enc_Edge = (\<lambda>e. str_bytes (ed_source e) @ [0] @ str_bytes (ed_target e) @ [0] @
                    str_bytes (relation_as_str (ed_relation e)) @ [0] @ str_bytes (ed_asserter e)),
      crc_checksum = (\<lambda>_ _. 0)\<rparr>"

lemma sample_externals_ok: "externals_ok sample_externals"
proof -
  have digest: "length (digest_of sample_externals a c) = digest_bytes a" for a c
    by (cases a) (simp_all add: sample_externals_def digest_bytes_def)
  have "hashes_ok sample_externals"
    unfolding hashes_ok_def
    by (intro conjI allI digest) (simp_all add: sample_externals_def hex_unpairs_pairs)
  moreover have "unat n mod 256 ^ 8 = unat n" for n :: u64
    using unsigned_less [of n, where ?'a = nat] by simp
  ultimately show ?thesis
    unfolding externals_ok_def by (simp add: sample_externals_def sample_decode_def)
qed

end
