(* ===== verification/Merkle.thy ===== *)
theory Merkle
  imports Types
begin

text \<open>
  Binary Merkle trees (\<open>kappa-core/src/merkle.rs\<close>): the root of a list of leaves, inclusion proofs
  and their verification. Every generated proof verifies. Soundness is relative to the hash inputs at
  hand: as long as SHA-256 does not collide on the inputs hashed to build the tree and to check the
  proof, an accepted leaf is a leaf of the tree, whatever the length and the content of the proof.
\<close>

section \<open>Hashing\<close>

definition LEAF_PREFIX :: byte where
  "LEAF_PREFIX = 0x00"

definition NODE_PREFIX :: byte where
  "NODE_PREFIX = 0x01"

definition hash_leaf :: "('x) hashes_scheme \<Rightarrow> bytes \<Rightarrow> bytes" where
  "hash_leaf H d = sha256_digest H (LEAF_PREFIX # d)"

definition hash_node :: "('x) hashes_scheme \<Rightarrow> bytes \<Rightarrow> bytes \<Rightarrow> bytes" where
  "hash_node H left right = sha256_digest H (NODE_PREFIX # left @ right)"

section \<open>Root and proof\<close>

text \<open>One pass over a level: neighbours are paired, a last odd node is hashed with itself.\<close>

fun next_level :: "('x) hashes_scheme \<Rightarrow> bytes list \<Rightarrow> bytes list" where
  "next_level H (a # b # rest) = hash_node H a b # next_level H rest"
| "next_level H [a] = [hash_node H a a]"
| "next_level H [] = []"

lemma length_next_level [simp]: "length (next_level H l) = (length l + 1) div 2"
  by (induction H l rule: next_level.induct) simp_all

function root_loop :: "('x) hashes_scheme \<Rightarrow> bytes list \<Rightarrow> bytes" where
  "root_loop H level = (if length level > 1 then root_loop H (next_level H level) else level ! 0)"
  by pat_completeness auto
termination by (relation "measure (\<lambda>(H, l). length l)") auto

declare root_loop.simps [simp del]

definition merkle_root :: "('x) hashes_scheme \<Rightarrow> bytes list \<Rightarrow> bytes option" where
  "merkle_root H leaves = (if leaves = [] then None else Some (root_loop H (map (hash_leaf H) leaves)))"

type_synonym merkle_path = "(bytes \<times> bool) list"

function proof_loop :: "('x) hashes_scheme \<Rightarrow> bytes list \<Rightarrow> nat \<Rightarrow> merkle_path" where
  "proof_loop H level idx =
     (if length level > 1 then
        (let sibling_idx = (if even idx then idx + 1 else idx - 1);
             sibling = (if sibling_idx < length level then level ! sibling_idx else level ! idx)
         in (sibling, odd idx) # proof_loop H (next_level H level) (idx div 2))
      else [])"
  by pat_completeness auto
termination by (relation "measure (\<lambda>(H, l, i). length l)") auto

declare proof_loop.simps [simp del]

definition merkle_proof :: "('x) hashes_scheme \<Rightarrow> bytes list \<Rightarrow> nat \<Rightarrow> merkle_path option" where
  "merkle_proof H leaves index =
     (if leaves = [] \<or> length leaves \<le> index then None
      else Some (proof_loop H (map (hash_leaf H) leaves) index))"

fun verify_loop :: "('x) hashes_scheme \<Rightarrow> bytes \<Rightarrow> merkle_path \<Rightarrow> bytes" where
  "verify_loop H current [] = current"
| "verify_loop H current ((sibling, is_left) # p) =
     verify_loop H (if is_left then hash_node H sibling current else hash_node H current sibling) p"

definition merkle_verify :: "('x) hashes_scheme \<Rightarrow> bytes \<Rightarrow> bytes \<Rightarrow> merkle_path \<Rightarrow> bool" where
  "merkle_verify H root leaf_data p \<longleftrightarrow> verify_loop H (hash_leaf H leaf_data) p = root"

section \<open>Completeness\<close>

lemma next_level_nth:
  "i < length l \<Longrightarrow>
   next_level H l ! (i div 2) =
     hash_node H (l ! (2 * (i div 2)))
       (if 2 * (i div 2) + 1 < length l then l ! (2 * (i div 2) + 1) else l ! (2 * (i div 2)))"
proof (induction H l arbitrary: i rule: next_level.induct)
  case (1 H a b rest)
  show ?case
  proof (cases "i < 2")
    case True
    then have "i div 2 = 0" by simp
    then show ?thesis by simp
  next
    case False
    then obtain j where j: "i = j + 2"
      by (metis add.commute le_Suc_ex linorder_not_less)
    then show ?thesis using 1 by simp
  qed
qed auto

lemma verify_proof_loop:
  "i < length level \<Longrightarrow> verify_loop H (level ! i) (proof_loop H level i) = root_loop H level"
proof (induction H level i rule: proof_loop.induct)
  case (1 H level i)
  show ?case
  proof (cases "length level > 1")
    case False
    then have "i = 0" using 1 by simp
    then show ?thesis
      using False by (simp add: proof_loop.simps [of H level] root_loop.simps [of H level])
  next
    case True
    let ?s = "if even i then i + 1 else i - 1"
    let ?sib = "if ?s < length level then level ! ?s else level ! i"
    have step: "(if odd i then hash_node H ?sib (level ! i) else hash_node H (level ! i) ?sib) =
        next_level H level ! (i div 2)"
    proof (cases "odd i")
      case True
      then have "2 * (i div 2) = i - 1" "0 < i" by (auto elim: oddE)
      then show ?thesis
        using True next_level_nth [OF "1.prems", of H] "1.prems" by (simp add: less_imp_diff_less)
    next
      case False
      then have "2 * (i div 2) = i" by simp
      then show ?thesis
        using False next_level_nth [OF "1.prems", of H] by simp
    qed
    have "i div 2 < length (next_level H level)" using "1.prems" by simp
    then have "verify_loop H (next_level H level ! (i div 2)) (proof_loop H (next_level H level) (i div 2)) =
        root_loop H (next_level H level)"
      using 1 True by blast
    then show ?thesis
      using True step
      by (simp add: proof_loop.simps [of H level] root_loop.simps [of H level] Let_def del: length_next_level)
  qed
qed

section \<open>Soundness\<close>

text \<open>The inputs hashed for a level's successors, for a whole tree, and to check a proof.\<close>

fun node_inputs :: "bytes list \<Rightarrow> bytes set" where
  "node_inputs (a # b # rest) = insert (NODE_PREFIX # a @ b) (node_inputs rest)"
| "node_inputs [a] = {NODE_PREFIX # a @ a}"
| "node_inputs [] = {}"

function level_inputs :: "('x) hashes_scheme \<Rightarrow> bytes list \<Rightarrow> bytes set" where
  "level_inputs H level =
     (if length level > 1 then node_inputs level \<union> level_inputs H (next_level H level) else {})"
  by pat_completeness auto
termination by (relation "measure (\<lambda>(H, l). length l)") auto

declare level_inputs.simps [simp del]

definition tree_inputs :: "('x) hashes_scheme \<Rightarrow> bytes list \<Rightarrow> bytes set" where
  "tree_inputs H leaves = (Cons LEAF_PREFIX) ` set leaves \<union> level_inputs H (map (hash_leaf H) leaves)"

fun path_inputs :: "('x) hashes_scheme \<Rightarrow> bytes \<Rightarrow> merkle_path \<Rightarrow> bytes set" where
  "path_inputs H current [] = {}"
| "path_inputs H current ((sibling, is_left) # p) =
     (let i = (if is_left then NODE_PREFIX # sibling @ current else NODE_PREFIX # current @ sibling)
      in insert i (path_inputs H (sha256_digest H i) p))"

definition verify_inputs :: "('x) hashes_scheme \<Rightarrow> bytes \<Rightarrow> merkle_path \<Rightarrow> bytes set" where
  "verify_inputs H leaf_data p = insert (LEAF_PREFIX # leaf_data) (path_inputs H (hash_leaf H leaf_data) p)"

text \<open>
  Each value of a level is the hash of one of the inputs below: leaf inputs at the bottom, inputs
  made of two values of the level before above it. \<open>below\<close> is what the nodes of a level are made of.
\<close>

inductive tree_value :: "('x) hashes_scheme \<Rightarrow> bytes set \<Rightarrow> bytes list \<Rightarrow> bytes \<Rightarrow> bool"
  for H :: "('x) hashes_scheme" and I :: "bytes set" and leaves :: "bytes list" where
  leaf: "x \<in> set leaves \<Longrightarrow> LEAF_PREFIX # x \<in> I \<Longrightarrow> tree_value H I leaves (hash_leaf H x)"
| node: "tree_value H I leaves a \<Longrightarrow> tree_value H I leaves b \<Longrightarrow> NODE_PREFIX # a @ b \<in> I \<Longrightarrow>
         length a = 32 \<Longrightarrow> length b = 32 \<Longrightarrow> tree_value H I leaves (hash_node H a b)"

lemma tree_value_next_level:
  "\<forall>v \<in> set l. tree_value H I leaves v \<and> length v = 32 \<Longrightarrow> node_inputs l \<subseteq> I \<Longrightarrow>
   \<forall>v \<in> set (next_level H l). tree_value H I leaves v"
  by (induction H l rule: next_level.induct) (auto intro: tree_value.node)

lemma length_hash_node [simp]: "hashes_ok H \<Longrightarrow> length (hash_node H a b) = 32"
  by (simp add: hash_node_def hashes_ok_sha256)

lemma length_hash_leaf [simp]: "hashes_ok H \<Longrightarrow> length (hash_leaf H x) = 32"
  by (simp add: hash_leaf_def hashes_ok_sha256)

lemma next_level_32: "hashes_ok H \<Longrightarrow> \<forall>v \<in> set (next_level H l). length v = 32"
  by (induction H l rule: next_level.induct) auto

lemma tree_value_root_loop:
  "hashes_ok H \<Longrightarrow> level \<noteq> [] \<Longrightarrow> \<forall>v \<in> set level. tree_value H I leaves v \<and> length v = 32 \<Longrightarrow>
   level_inputs H level \<subseteq> I \<Longrightarrow> tree_value H I leaves (root_loop H level)"
proof (induction H level rule: root_loop.induct)
  case (1 H level)
  show ?case
  proof (cases "length level > 1")
    case False
    then obtain v where "level = [v]" using 1 by (cases level) auto
    then show ?thesis using 1 by (simp add: root_loop.simps)
  next
    case True
    then have "next_level H level \<noteq> []" using length_next_level [of H level] by (auto simp del: length_next_level)
    moreover have "node_inputs level \<subseteq> I" "level_inputs H (next_level H level) \<subseteq> I"
      using 1 True by (simp_all add: level_inputs.simps [of H level])
    moreover have "\<forall>v \<in> set (next_level H level). tree_value H I leaves v \<and> length v = 32"
      using tree_value_next_level [OF "1.prems"(3) \<open>node_inputs level \<subseteq> I\<close>] next_level_32 [OF "1.prems"(1)]
      by blast
    ultimately have "tree_value H I leaves (root_loop H (next_level H level))"
      using 1 True by blast
    then show ?thesis using True by (simp add: root_loop.simps [of H level])
  qed
qed

lemma tree_value_root:
  assumes "hashes_ok H" and "merkle_root H leaves = Some root"
  shows "tree_value H (tree_inputs H leaves) leaves root"
proof -
  have "leaves \<noteq> []" and root: "root = root_loop H (map (hash_leaf H) leaves)"
    using assms(2) by (auto simp: merkle_root_def split: if_splits)
  then show ?thesis
    unfolding root using assms(1)
    by (intro tree_value_root_loop) (auto simp: tree_inputs_def intro!: tree_value.leaf)
qed

text \<open>Walking the proof down from the root stays inside the tree.\<close>

lemma verify_loop_snoc:
  "verify_loop H c (p @ [(s, l)]) =
     (if l then hash_node H s (verify_loop H c p) else hash_node H (verify_loop H c p) s)"
  by (induction H c p rule: verify_loop.induct) simp_all

lemma path_inputs_snoc:
  "path_inputs H c (p @ [(s, l)]) =
     insert (if l then NODE_PREFIX # s @ verify_loop H c p else NODE_PREFIX # verify_loop H c p @ s)
       (path_inputs H c p)"
  by (induction H c p rule: path_inputs.induct) (auto simp: Let_def hash_node_def)

lemma length_verify_loop: "hashes_ok H \<Longrightarrow> length c = 32 \<Longrightarrow> length (verify_loop H c p) = 32"
  by (induction H c p rule: verify_loop.induct) simp_all

lemma tree_value_down:
  assumes "hashes_ok H" and "\<forall>(s, _) \<in> set p. length s = 32"
    and "inj_on (sha256_digest H) (I \<union> verify_inputs H x p)"
    and "tree_value H I leaves (verify_loop H (hash_leaf H x) p)"
  shows "x \<in> set leaves"
  using assms(2-4)
proof (induction p rule: rev_induct)
  case Nil
  from Nil.prems(3) show ?case
  proof (cases rule: tree_value.cases)
    case (leaf y)
    then have "sha256_digest H (LEAF_PREFIX # x) = sha256_digest H (LEAF_PREFIX # y)"
      by (simp add: hash_leaf_def)
    then have "LEAF_PREFIX # x = LEAF_PREFIX # y"
      by (rule inj_onD [OF Nil.prems(2)]) (use leaf in \<open>auto simp: verify_inputs_def\<close>)
    then show ?thesis using leaf by simp
  next
    case (node a b)
    then have "sha256_digest H (LEAF_PREFIX # x) = sha256_digest H (NODE_PREFIX # a @ b)"
      by (simp add: hash_leaf_def hash_node_def)
    then have "LEAF_PREFIX # x = NODE_PREFIX # a @ b"
      by (rule inj_onD [OF Nil.prems(2)]) (use node in \<open>auto simp: verify_inputs_def\<close>)
    then show ?thesis by (simp add: LEAF_PREFIX_def NODE_PREFIX_def)
  qed
next
  case (snoc e p)
  obtain s l where e: "e = (s, l)" by (cases e)
  let ?c = "verify_loop H (hash_leaf H x) p"
  let ?i = "if l then NODE_PREFIX # s @ ?c else NODE_PREFIX # ?c @ s"
  have vl: "verify_loop H (hash_leaf H x) (p @ [e]) = sha256_digest H ?i"
    by (simp add: e verify_loop_snoc hash_node_def)
  have inp: "verify_inputs H x (p @ [e]) = insert ?i (verify_inputs H x p)"
    by (auto simp: verify_inputs_def e path_inputs_snoc)
  have lens: "length s = 32" "length ?c = 32"
    using snoc.prems(1) e assms(1) by (auto intro!: length_verify_loop)
  from snoc.prems(3) show ?case
  proof (cases rule: tree_value.cases)
    case (leaf y)
    then have "sha256_digest H ?i = sha256_digest H (LEAF_PREFIX # y)"
      using vl by (simp add: hash_leaf_def)
    then have "?i = LEAF_PREFIX # y"
      by (rule inj_onD [OF snoc.prems(2)]) (use leaf inp in auto)
    then show ?thesis by (simp add: LEAF_PREFIX_def NODE_PREFIX_def split: if_splits)
  next
    case (node a b)
    then have "sha256_digest H ?i = sha256_digest H (NODE_PREFIX # a @ b)"
      using vl by (simp add: hash_node_def)
    then have "?i = NODE_PREFIX # a @ b"
      by (rule inj_onD [OF snoc.prems(2)]) (use node inp in auto)
    then have "?c = a \<or> ?c = b"
      using lens node by (auto split: if_splits)
    then have "tree_value H I leaves ?c" using node by auto
    moreover have "inj_on (sha256_digest H) (I \<union> verify_inputs H x p)"
      using snoc.prems(2) by (rule inj_on_subset) (auto simp: inp)
    ultimately show ?thesis using snoc by auto
  qed
qed

section \<open>The duplicated last leaf\<close>

lemma next_level_dup_last:
  "odd (length l) \<Longrightarrow> next_level H (l @ [last l]) = next_level H l"
  by (induction H l rule: next_level.induct) auto

lemma root_loop_dup_last:
  assumes "odd (length l)" and "1 < length l"
  shows "root_loop H (l @ [last l]) = root_loop H l"
proof -
  have "l \<noteq> []" using assms(2) by auto
  then show ?thesis
    using assms by (simp add: root_loop.simps [of H "l @ [last l]"] root_loop.simps [of H l] next_level_dup_last)
qed

section \<open>Properties\<close>

text \<open>
  C4. Every leaf of a nonempty list has an inclusion proof, and that proof verifies against the root
  of the list.
\<close>

theorem merkle_proof_complete:
  assumes "i < length leaves"
  shows "\<exists>root p. merkle_root H leaves = Some root \<and> merkle_proof H leaves i = Some p \<and>
     merkle_verify H root (leaves ! i) p"
proof -
  have "verify_loop H (map (hash_leaf H) leaves ! i) (proof_loop H (map (hash_leaf H) leaves) i) =
      root_loop H (map (hash_leaf H) leaves)"
    using assms by (intro verify_proof_loop) simp
  then show ?thesis
    using assms by (auto simp: merkle_root_def merkle_proof_def merkle_verify_def)
qed

theorem merkle_proof_complete_witness:
  "\<exists>root p. merkle_root sample_hashes [[1], [2], [3]] = Some root \<and>
     merkle_proof sample_hashes [[1], [2], [3]] 2 = Some p \<and> merkle_verify sample_hashes root [3] p"
  using merkle_proof_complete [of 2 "[[1], [2], [3]]" sample_hashes] by simp

text \<open>
  C6. An accepted proof shows membership: if a proof verifies against the root of a list of leaves,
  the proved data is one of the leaves, unless SHA-256 collides on the inputs hashed for the tree and
  for the check. The proof may have any length; the domain separators keep inner nodes from passing
  as leaves.
\<close>

theorem merkle_verify_sound:
  assumes "hashes_ok H" and "merkle_root H leaves = Some root"
    and "\<forall>(s, _) \<in> set p. length s = 32"
    and "inj_on (sha256_digest H) (tree_inputs H leaves \<union> verify_inputs H x p)"
    and "merkle_verify H root x p"
  shows "x \<in> set leaves"
  using tree_value_down [OF assms(1,3,4)] tree_value_root [OF assms(1,2)] assms(5)
  by (simp add: merkle_verify_def)

theorem merkle_verify_sound_witness:
  "\<exists>root. merkle_root sample_hashes [[1]] = Some root \<and> merkle_verify sample_hashes root [1] [] \<and>
     [1] \<in> set [[1 :: byte]]"
proof -
  let ?root = "hash_leaf sample_hashes [1]"
  have root: "merkle_root sample_hashes [[1]] = Some ?root"
    by (simp add: merkle_root_def root_loop.simps)
  have "tree_inputs sample_hashes [[1]] \<union> verify_inputs sample_hashes [1] [] = {[LEAF_PREFIX, 1]}"
    by (auto simp: tree_inputs_def verify_inputs_def level_inputs.simps)
  then have inj: "inj_on (sha256_digest sample_hashes)
      (tree_inputs sample_hashes [[1]] \<union> verify_inputs sample_hashes [1] [])"
    by simp
  have v: "merkle_verify sample_hashes ?root [1] []"
    by (simp add: merkle_verify_def)
  from merkle_verify_sound [OF sample_hashes_ok root _ inj v] root v show ?thesis by simp
qed

text \<open>
  The root does not determine the list of leaves: repeating the last leaf of a list of odd length
  leaves the root unchanged, so two different lists have the same root whatever the hash function is.
\<close>

lemma merkle_root_duplicate_leaf:
  assumes "odd (length leaves)" and "1 < length leaves"
  shows "merkle_root H (leaves @ [last leaves]) = merkle_root H leaves \<and> leaves @ [last leaves] \<noteq> leaves"
proof -
  have "last (map (hash_leaf H) leaves) = hash_leaf H (last leaves)"
    using assms by (intro last_map) auto
  then show ?thesis
    using assms root_loop_dup_last [of "map (hash_leaf H) leaves" H]
    by (auto simp: merkle_root_def)
qed

lemma merkle_root_duplicate_leaf_witness:
  "merkle_root sample_hashes [[1], [2], [3], [3]] = merkle_root sample_hashes [[1], [2], [3]]"
  using merkle_root_duplicate_leaf [of "[[1], [2], [3]]" sample_hashes] by simp

end
