(* ===== verification/Epoch.thy ===== *)
theory Epoch
  imports Merkle
begin

text \<open>
  Epoch roots (\<open>kappa-core/src/epoch.rs\<close>): seven dCBOR leaves under a Merkle root, their serialised
  form (each leaf, and the signature if there is one, behind a four-byte length) and the parser of
  that form. The lemmas show the round trip, what an accepted serialisation looks like, and that
  every leaf can be disclosed with a proof.
\<close>

section \<open>Definitions\<close>

definition EPOCH_LEAF_COUNT :: nat where
  "EPOCH_LEAF_COUNT = 7"

record EpochRootFields =
  ef_namespace :: string
  ef_epoch_number :: u64
  ef_prev_root_kappa :: "string option"
  ef_state_root :: bytes
  ef_mutations_root :: bytes
  ef_timestamp_ms :: u64
  ef_signer_anchor :: string

record EpochRoot =
  er_namespace :: string
  er_epoch_number :: u64
  er_prev_root_kappa :: "string option"
  er_state_root :: bytes
  er_mutations_root :: bytes
  er_timestamp_ms :: u64
  er_signer_anchor :: string
  er_root_hash :: bytes
  er_signature :: bytes
  er_leaves :: "bytes list"

datatype EpochError = MalformedLeafData string

definition encode_leaves ::
  "('x) externals_scheme \<Rightarrow> string \<Rightarrow> u64 \<Rightarrow> string option \<Rightarrow> bytes \<Rightarrow> bytes \<Rightarrow> u64 \<Rightarrow> string \<Rightarrow> bytes list" where
  "encode_leaves H namespace epoch_number prev_root_kappa state_root mutations_root timestamp_ms signer_anchor =
     [canonical_str H namespace,
      canonical_u64 H epoch_number,
      (case prev_root_kappa of Some k \<Rightarrow> canonical_str H k | None \<Rightarrow> cbor_encode H CNull),
      cbor_encode H (CByteString state_root),
      cbor_encode H (CByteString mutations_root),
      canonical_u64 H timestamp_ms,
      canonical_str H signer_anchor]"

definition epoch_build :: "('x) externals_scheme \<Rightarrow> EpochRootFields \<Rightarrow> (EpochRoot, EpochError) result" where
  "epoch_build H f =
     (let leaves = encode_leaves H (ef_namespace f) (ef_epoch_number f) (ef_prev_root_kappa f)
            (ef_state_root f) (ef_mutations_root f) (ef_timestamp_ms f) (ef_signer_anchor f)
      in rbind (unwrap (merkle_root H leaves)) (\<lambda>root_hash.
         Ok \<lparr>er_namespace = ef_namespace f, er_epoch_number = ef_epoch_number f,
             er_prev_root_kappa = ef_prev_root_kappa f, er_state_root = ef_state_root f,
             er_mutations_root = ef_mutations_root f, er_timestamp_ms = ef_timestamp_ms f,
             er_signer_anchor = ef_signer_anchor f, er_root_hash = root_hash,
             er_signature = [], er_leaves = leaves\<rparr>))"

definition with_signature :: "EpochRoot \<Rightarrow> bytes \<Rightarrow> EpochRoot" where
  "with_signature e sig = e\<lparr>er_signature := sig\<rparr>"

definition enc_leaf :: "bytes \<Rightarrow> bytes" where
  "enc_leaf leaf = be_bytes 4 (length leaf) @ leaf"

definition to_leaf_bytes :: "EpochRoot \<Rightarrow> bytes" where
  "to_leaf_bytes e =
     concat (map enc_leaf (er_leaves e)) @ (if er_signature e = [] then [] else enc_leaf (er_signature e))"

definition epoch_kappa :: "('x) externals_scheme \<Rightarrow> EpochRoot \<Rightarrow> string" where
  "epoch_kappa H e = kappa_from_bytes H (to_leaf_bytes e)"

text \<open>The parse loop: one length-prefixed entry, then the entries up to the end of the data.\<close>

definition read_leaf :: "bytes \<Rightarrow> nat \<Rightarrow> (bytes \<times> nat, EpochError) result" where
  "read_leaf data cursor =
     (if cursor + 4 > length data then Err (MalformedLeafData ''truncated length prefix'')
      else (let len = be_val (take 4 (drop cursor data)); cursor = cursor + 4 in
            if cursor + len > length data then Err (MalformedLeafData ''truncated leaf data'')
            else Ok (take len (drop cursor data), cursor + len)))"

function leaf_loop :: "bytes \<Rightarrow> nat \<Rightarrow> (bytes list, EpochError) result" where
  "leaf_loop data cursor =
     (if cursor < length data then
        (case read_leaf data cursor of
           Ok (leaf, cursor') \<Rightarrow> rbind (leaf_loop data cursor') (\<lambda>rest. Ok (leaf # rest))
         | Err e \<Rightarrow> Err e
         | Panic \<Rightarrow> Panic)
      else Ok [])"
  by pat_completeness auto
termination
  by (relation "measure (\<lambda>(data, cursor). length data - cursor)")
    (auto simp: read_leaf_def Let_def split: if_splits)

declare leaf_loop.simps [simp del]

definition decode_prev :: "('x) externals_scheme \<Rightarrow> bytes \<Rightarrow> (string option, EpochError) result" where
  "decode_prev H leaf =
     rbind (map_err MalformedLeafData (cbor_decode H leaf)) (\<lambda>c.
     case c of
       CNull \<Rightarrow> Ok None
     | _ \<Rightarrow> rbind (map_err MalformedLeafData (from_canonical_str H leaf)) (\<lambda>k. Ok (Some k)))"

definition decode_bytes32 :: "('x) externals_scheme \<Rightarrow> string \<Rightarrow> bytes \<Rightarrow> (bytes, EpochError) result" where
  "decode_bytes32 H what leaf =
     rbind (map_err MalformedLeafData (cbor_decode H leaf)) (\<lambda>c.
     case c of
       CByteString b \<Rightarrow> Ok (take 32 b @ replicate (32 - length b) 0)
     | _ \<Rightarrow> Err (MalformedLeafData (what @ '' not a byte string'')))"

definition from_leaf_bytes :: "('x) externals_scheme \<Rightarrow> bytes \<Rightarrow> (EpochRoot, EpochError) result" where
  "from_leaf_bytes H data =
     rbind (leaf_loop data 0) (\<lambda>all.
     rbind (if length all = EPOCH_LEAF_COUNT + 1 then Ok (butlast all, last all)
            else if length all = EPOCH_LEAF_COUNT then Ok (all, [])
            else Err (MalformedLeafData (''expected '' @ show_nat EPOCH_LEAF_COUNT @ '' or '' @
                   show_nat (EPOCH_LEAF_COUNT + 1) @ '' entries, got '' @ show_nat (length all)))) (\<lambda>(leaves, signature).
     rbind (ok_or (MalformedLeafData ''empty leaves'') (merkle_root H leaves)) (\<lambda>root_hash.
     rbind (map_err MalformedLeafData (from_canonical_str H (leaves ! 0))) (\<lambda>namespace.
     rbind (map_err MalformedLeafData (from_canonical_u64 H (leaves ! 1))) (\<lambda>epoch_number.
     rbind (decode_prev H (leaves ! 2)) (\<lambda>prev_root_kappa.
     rbind (decode_bytes32 H ''state_root'' (leaves ! 3)) (\<lambda>sr.
     rbind (decode_bytes32 H ''mutations_root'' (leaves ! 4)) (\<lambda>mr.
     rbind (map_err MalformedLeafData (from_canonical_u64 H (leaves ! 5))) (\<lambda>timestamp_ms.
     rbind (map_err MalformedLeafData (from_canonical_str H (leaves ! 6))) (\<lambda>signer_anchor.
     Ok \<lparr>er_namespace = namespace, er_epoch_number = epoch_number,
         er_prev_root_kappa = prev_root_kappa, er_state_root = sr, er_mutations_root = mr,
         er_timestamp_ms = timestamp_ms, er_signer_anchor = signer_anchor,
         er_root_hash = root_hash, er_signature = signature, er_leaves = leaves\<rparr>))))))))))"

definition proof_for_leaf :: "('x) externals_scheme \<Rightarrow> EpochRoot \<Rightarrow> nat \<Rightarrow> merkle_path option" where
  "proof_for_leaf H e leaf_index =
     (if EPOCH_LEAF_COUNT \<le> leaf_index then None else merkle_proof H (er_leaves e) leaf_index)"

definition verify_leaf :: "('x) externals_scheme \<Rightarrow> EpochRoot \<Rightarrow> bytes \<Rightarrow> merkle_path \<Rightarrow> bool" where
  "verify_leaf H e leaf_data p = merkle_verify H (er_root_hash e) leaf_data p"

definition mutations_merkle_root :: "('x) externals_scheme \<Rightarrow> EpochMutation list \<Rightarrow> bytes" where
  "mutations_merkle_root H ms =
     (if ms = [] then replicate 32 0
      else case merkle_root H (map (enc_EpochMutation H) ms) of Some r \<Rightarrow> r | None \<Rightarrow> replicate 32 0)"

definition state_merkle_root :: "('x) externals_scheme \<Rightarrow> TagEntry list \<Rightarrow> bytes" where
  "state_merkle_root H tags =
     (if tags = [] then replicate 32 0
      else case merkle_root H (map (enc_TagEntry H) tags) of Some r \<Rightarrow> r | None \<Rightarrow> replicate 32 0)"

section \<open>The leaf codec\<close>

interpretation leaf_codec: pos_codec enc_leaf read_leaf "\<lambda>l. length l < 2 ^ 32" "\<lambda>_. True"
  by unfold_locales (simp add: enc_leaf_def read_leaf_def Let_def)

lemma leaf_loop_concat:
  assumes "\<forall>l \<in> set ls. length l < 2 ^ 32"
  shows "leaf_loop (pre @ concat (map enc_leaf ls)) (length pre) = Ok ls"
  using assms
proof (induction ls arbitrary: pre)
  case Nil
  show ?case by (simp add: leaf_loop.simps)
next
  case (Cons l ls)
  let ?rest = "concat (map enc_leaf ls)"
  have step: "read_leaf (pre @ enc_leaf l @ ?rest) (length pre) = Ok (l, length pre + length (enc_leaf l))"
    using Cons.prems by (intro leaf_codec.dec_enc) simp_all
  have ne: "0 < length (enc_leaf l)" by (simp add: enc_leaf_def)
  have "leaf_loop ((pre @ enc_leaf l) @ ?rest) (length (pre @ enc_leaf l)) = Ok ls"
    using Cons.prems by (intro Cons.IH) simp
  then show ?case
    using step ne by (simp add: leaf_loop.simps [of "pre @ enc_leaf l @ ?rest"])
qed

lemma read_leaf_OkD:
  assumes "read_leaf data cursor = Ok (leaf, cursor')"
  shows "drop cursor data = enc_leaf leaf @ drop cursor' data \<and> cursor < cursor' \<and> cursor' \<le> length data \<and>
     length leaf < 2 ^ 32"
proof -
  let ?hdr = "take 4 (drop cursor data)"
  from assms have c: "cursor + 4 \<le> length data" "cursor + 4 + be_val ?hdr \<le> length data"
    and leaf: "leaf = take (be_val ?hdr) (drop (cursor + 4) data)"
    and c': "cursor' = cursor + 4 + be_val ?hdr"
    by (auto simp: read_leaf_def Let_def split: if_splits)
  have hdr: "length ?hdr = 4" using c by simp
  have "be_val ?hdr < 2 ^ 32" using be_val_less [of ?hdr] hdr by simp
  moreover have len: "length leaf = be_val ?hdr" using c leaf by simp
  moreover have "be_bytes 4 (be_val ?hdr) = ?hdr" using be_bytes_be_val [of ?hdr] hdr by simp
  moreover have "drop cursor data = ?hdr @ leaf @ drop cursor' data"
  proof -
    have "drop (cursor + 4) data = drop 4 (drop cursor data)"
      "drop cursor' data = drop (be_val ?hdr) (drop 4 (drop cursor data))"
      by (simp_all add: c' ac_simps)
    then show ?thesis unfolding leaf by (simp only: append_take_drop_id)
  qed
  ultimately show ?thesis using c c' by (simp add: enc_leaf_def)
qed

lemma leaf_loop_OkD:
  "leaf_loop data cursor = Ok ls \<Longrightarrow> cursor \<le> length data \<Longrightarrow>
   drop cursor data = concat (map enc_leaf ls) \<and> (\<forall>l \<in> set ls. length l < 2 ^ 32)"
proof (induction data cursor arbitrary: ls rule: leaf_loop.induct)
  case (1 data cursor)
  show ?case
  proof (cases "cursor < length data")
    case False
    then show ?thesis using 1 by (simp add: leaf_loop.simps)
  next
    case True
    then obtain leaf cursor' rest where s: "read_leaf data cursor = Ok (leaf, cursor')"
      "leaf_loop data cursor' = Ok rest" "ls = leaf # rest"
      using "1.prems"(1) by (auto simp: leaf_loop.simps [of data cursor] split: result.splits)
    show ?thesis
      using read_leaf_OkD [OF s(1)] "1.IH" [OF True s(1)] s by auto
  qed
qed

lemma read_leaf_not_Panic: "read_leaf data cursor \<noteq> Panic"
  by (simp add: read_leaf_def Let_def)

lemma leaf_loop_not_Panic: "leaf_loop data cursor \<noteq> Panic"
proof (induction data cursor rule: leaf_loop.induct)
  case (1 data cursor)
  then show ?case
    using read_leaf_not_Panic [of data cursor]
    by (auto simp: leaf_loop.simps [of data cursor] rbind_eq_Panic split: result.splits)
qed

section \<open>Decoding what was built\<close>

lemma epoch_build_Ok:
  "\<exists>e. epoch_build H f = Ok e \<and> er_signature e = [] \<and> length (er_leaves e) = 7 \<and>
       merkle_root H (er_leaves e) = Some (er_root_hash e)"
  by (auto simp: epoch_build_def Let_def merkle_root_def encode_leaves_def)

lemma decode_bytes32_roundtrip:
  "externals_ok H \<Longrightarrow> length b = 32 \<Longrightarrow> decode_bytes32 H what (cbor_encode H (CByteString b)) = Ok b"
  by (simp add: decode_bytes32_def externals_ok_def)

lemma decode_prev_roundtrip:
  assumes "externals_ok H" and "\<forall>k. p = Some k \<longrightarrow> text_nfc H k"
  shows "decode_prev H (case p of Some k \<Rightarrow> canonical_str H k | None \<Rightarrow> cbor_encode H CNull) = Ok p"
proof (cases p)
  case None
  then show ?thesis using assms by (simp add: decode_prev_def externals_ok_def)
next
  case (Some k)
  then have "cbor_decode H (canonical_str H k) = Ok (CText k)"
    using assms by (simp add: externals_ok_def canonical_str_def)
  then show ?thesis using assms Some by (simp add: decode_prev_def)
qed

definition fields_ok :: "('x) externals_scheme \<Rightarrow> EpochRootFields \<Rightarrow> bool" where
  "fields_ok H f \<longleftrightarrow>
     text_nfc H (ef_namespace f) \<and> text_nfc H (ef_signer_anchor f) \<and>
     (case ef_prev_root_kappa f of None \<Rightarrow> True | Some k \<Rightarrow> text_nfc H k) \<and>
     length (ef_state_root f) = 32 \<and> length (ef_mutations_root f) = 32"

lemma from_leaf_bytes_build:
  assumes H: "externals_ok H" and f: "fields_ok H f" and e: "epoch_build H f = Ok e"
    and lens: "\<forall>l \<in> set (er_leaves e). length l < 2 ^ 32" and sig: "length sig < 2 ^ 32"
  shows "from_leaf_bytes H (to_leaf_bytes (with_signature e sig)) = Ok (with_signature e sig)"
proof -
  let ?ls = "encode_leaves H (ef_namespace f) (ef_epoch_number f) (ef_prev_root_kappa f)
            (ef_state_root f) (ef_mutations_root f) (ef_timestamp_ms f) (ef_signer_anchor f)"
  obtain root where root: "merkle_root H ?ls = Some root"
    by (simp add: merkle_root_def encode_leaves_def)
  have el: "er_leaves e = ?ls" using e by (auto simp: epoch_build_def Let_def root)
  have "to_leaf_bytes (with_signature e sig) = concat (map enc_leaf (?ls @ (if sig = [] then [] else [sig])))"
    by (simp add: to_leaf_bytes_def with_signature_def el)
  then have loop: "leaf_loop (to_leaf_bytes (with_signature e sig)) 0 = Ok (?ls @ (if sig = [] then [] else [sig]))"
    using leaf_loop_concat [of "?ls @ (if sig = [] then [] else [sig])" "[]"] lens sig el by auto
  have len: "length ?ls = 7" by (simp add: encode_leaves_def)
  have nth: "?ls ! 0 = canonical_str H (ef_namespace f)" "?ls ! 1 = canonical_u64 H (ef_epoch_number f)"
    "?ls ! 2 = (case ef_prev_root_kappa f of Some k \<Rightarrow> canonical_str H k | None \<Rightarrow> cbor_encode H CNull)"
    "?ls ! 3 = cbor_encode H (CByteString (ef_state_root f))"
    "?ls ! 4 = cbor_encode H (CByteString (ef_mutations_root f))"
    "?ls ! 5 = canonical_u64 H (ef_timestamp_ms f)" "?ls ! 6 = canonical_str H (ef_signer_anchor f)"
    by (simp_all add: encode_leaves_def)
  have nfc: "text_nfc H (ef_namespace f)" "text_nfc H (ef_signer_anchor f)"
    "\<forall>k. ef_prev_root_kappa f = Some k \<longrightarrow> text_nfc H k" "length (ef_state_root f) = 32"
    "length (ef_mutations_root f) = 32"
    using f by (auto simp: fields_ok_def)
  show ?thesis
    unfolding from_leaf_bytes_def loop
    using e root by (simp add: EPOCH_LEAF_COUNT_def len nth H nfc decode_bytes32_roundtrip decode_prev_roundtrip
        epoch_build_def Let_def with_signature_def del: One_nat_def) auto
qed

section \<open>Properties\<close>

text \<open>
  C26. Serialising an epoch root that was built from its fields, signed or not, and parsing the bytes
  gives the same epoch root: fields, Merkle root, signature and leaves.
\<close>

theorem epoch_roundtrip:
  assumes "externals_ok H" and "fields_ok H f" and "epoch_build H f = Ok e"
    and "\<forall>l \<in> set (er_leaves e). length l < 2 ^ 32" and "length sig < 2 ^ 32"
  shows "from_leaf_bytes H (to_leaf_bytes (with_signature e sig)) = Ok (with_signature e sig)"
  using assms by (rule from_leaf_bytes_build)

theorem epoch_roundtrip_witness:
  "\<exists>e. epoch_build sample_externals
          \<lparr>ef_namespace = ''ns'', ef_epoch_number = 3, ef_prev_root_kappa = None,
           ef_state_root = replicate 32 1, ef_mutations_root = replicate 32 2,
           ef_timestamp_ms = 9, ef_signer_anchor = ''me''\<rparr> = Ok e \<and>
     from_leaf_bytes sample_externals (to_leaf_bytes (with_signature e [5, 6])) = Ok (with_signature e [5, 6])"
proof -
  let ?f = "\<lparr>ef_namespace = ''ns'', ef_epoch_number = 3, ef_prev_root_kappa = None,
           ef_state_root = replicate 32 1, ef_mutations_root = replicate 32 2,
           ef_timestamp_ms = 9, ef_signer_anchor = ''me''\<rparr>"
  have f: "fields_ok sample_externals ?f"
    by (simp add: fields_ok_def sample_externals_def)
  obtain e where e: "epoch_build sample_externals ?f = Ok e" using epoch_build_Ok by blast
  then have "er_leaves e = encode_leaves sample_externals ''ns'' 3 None (replicate 32 1) (replicate 32 2) 9 ''me''"
    by (auto simp: epoch_build_def Let_def)
  then have "\<forall>l \<in> set (er_leaves e). length l < 2 ^ 32"
    by (simp add: encode_leaves_def canonical_str_def canonical_u64_def sample_externals_def)
  from epoch_roundtrip [OF sample_externals_ok f e this, of "[5, 6]"] e show ?thesis by simp
qed

lemma from_canonical_not_Panic:
  assumes "\<And>bs. cbor_decode H bs \<noteq> Panic"
  shows "from_canonical_str H bs \<noteq> Panic" and "from_canonical_u64 H bs \<noteq> Panic"
    and "decode_prev H bs \<noteq> Panic" and "decode_bytes32 H w bs \<noteq> Panic"
  using assms by (auto simp: from_canonical_str_def from_canonical_u64_def decode_prev_def decode_bytes32_def
      rbind_eq_Panic split: cbor.splits)

text \<open>What the parser's result says of the entries.\<close>

lemma from_leaf_bytes_OkD:
  assumes "from_leaf_bytes H data = Ok e"
  shows "\<exists>all. leaf_loop data 0 = Ok all \<and>
     (length all = 8 \<and> er_leaves e = butlast all \<and> er_signature e = last all \<or>
      length all = 7 \<and> er_leaves e = all \<and> er_signature e = []) \<and>
     merkle_root H (er_leaves e) = Some (er_root_hash e)"
  using assms by (auto simp: from_leaf_bytes_def EPOCH_LEAF_COUNT_def split: if_splits)

lemma be_bytes_4_0: "be_bytes 4 0 = [0, 0, 0, 0]"
  by code_simp

text \<open>
  C27. What the parser accepts. It never panics when the dCBOR decoder does not. The bytes it accepts
  are the serialisation of the epoch root it returns, except that one empty trailing entry is
  dropped; the root it returns has seven leaves and carries the Merkle root of exactly these leaves,
  so a root hash cannot be forged in the serialised form.
\<close>

theorem epoch_parse_exact:
  assumes "\<And>bs. cbor_decode H bs \<noteq> Panic"
  shows "from_leaf_bytes H data \<noteq> Panic \<and>
   (\<forall>e. from_leaf_bytes H data = Ok e \<longrightarrow>
      length (er_leaves e) = 7 \<and> merkle_root H (er_leaves e) = Some (er_root_hash e) \<and>
      (data = to_leaf_bytes e \<or> er_signature e = [] \<and> data = to_leaf_bytes e @ [0, 0, 0, 0]))"
proof (intro conjI allI impI)
  show "from_leaf_bytes H data \<noteq> Panic"
    unfolding from_leaf_bytes_def
    by (intro rbind_not_PanicI leaf_loop_not_Panic; (split prod.split)?; (intro allI impI rbind_not_PanicI)?)
      (simp_all add: from_canonical_not_Panic [OF assms])
next
  fix e assume "from_leaf_bytes H data = Ok e"
  from from_leaf_bytes_OkD [OF this] obtain all where loop: "leaf_loop data 0 = Ok all"
    and alt: "length all = 8 \<and> er_leaves e = butlast all \<and> er_signature e = last all \<or>
      length all = 7 \<and> er_leaves e = all \<and> er_signature e = []"
    and root: "merkle_root H (er_leaves e) = Some (er_root_hash e)"
    by blast
  have data: "data = concat (map enc_leaf all)"
    using leaf_loop_OkD [OF loop] by simp
  show "merkle_root H (er_leaves e) = Some (er_root_hash e)" by (rule root)
  from alt show "length (er_leaves e) = 7" by auto
  from alt show "data = to_leaf_bytes e \<or> er_signature e = [] \<and> data = to_leaf_bytes e @ [0, 0, 0, 0]"
  proof (elim disjE conjE)
    assume a: "length all = 8" "er_leaves e = butlast all" "er_signature e = last all"
    then have "all = er_leaves e @ [er_signature e]" by (metis append_butlast_last_id length_0_conv zero_neq_numeral)
    then have "data = concat (map enc_leaf (er_leaves e)) @ enc_leaf (er_signature e)"
      unfolding data by simp
    then show ?thesis
      using be_bytes_4_0 by (cases "er_signature e = []") (simp_all add: to_leaf_bytes_def enc_leaf_def)
  qed (simp add: data to_leaf_bytes_def)
qed

theorem epoch_parse_exact_witness:
  "(\<forall>bs. cbor_decode sample_externals bs \<noteq> Panic) \<and>
   from_leaf_bytes sample_externals [0, 0, 0, 1] = Err (MalformedLeafData ''truncated leaf data'')"
proof -
  have np: "\<And>bs. cbor_decode sample_externals bs \<noteq> Panic"
    by (simp add: sample_externals_def sample_decode_def split: list.splits)
  have "from_leaf_bytes sample_externals [0, 0, 0, 1] \<noteq> Panic"
    using epoch_parse_exact [OF np] by blast
  moreover have "from_leaf_bytes sample_externals [0, 0, 0, 1] = Err (MalformedLeafData ''truncated leaf data'')"
    by (simp add: from_leaf_bytes_def leaf_loop.simps read_leaf_def be_val_def)
  ultimately show ?thesis using np by simp
qed

text \<open>
  Selective disclosure: each of the seven fields of a built epoch root has a proof, and the proof
  verifies the leaf of that field against the root hash.
\<close>

lemma epoch_disclosure:
  assumes "epoch_build H f = Ok e" and "i < 7"
  shows "\<exists>p. proof_for_leaf H e i = Some p \<and> verify_leaf H e (er_leaves e ! i) p"
proof -
  have "length (er_leaves e) = 7" and root: "merkle_root H (er_leaves e) = Some (er_root_hash e)"
    using epoch_build_Ok [of H f] assms(1) by auto
  then have "i < length (map (hash_leaf H) (er_leaves e))" using assms(2) by simp
  from verify_proof_loop [OF this, of H] show ?thesis
    using assms(2) root \<open>length (er_leaves e) = 7\<close>
    by (auto simp: proof_for_leaf_def EPOCH_LEAF_COUNT_def merkle_proof_def verify_leaf_def merkle_verify_def
        merkle_root_def split: if_splits)
qed

lemma epoch_disclosure_witness:
  "\<exists>e p. epoch_build sample_externals
          \<lparr>ef_namespace = ''ns'', ef_epoch_number = 3, ef_prev_root_kappa = None,
           ef_state_root = [1], ef_mutations_root = [2], ef_timestamp_ms = 9, ef_signer_anchor = ''me''\<rparr> = Ok e \<and>
     proof_for_leaf sample_externals e 6 = Some p \<and> verify_leaf sample_externals e (er_leaves e ! 6) p"
proof -
  obtain e where e: "epoch_build sample_externals
          \<lparr>ef_namespace = ''ns'', ef_epoch_number = 3, ef_prev_root_kappa = None,
           ef_state_root = [1], ef_mutations_root = [2], ef_timestamp_ms = 9, ef_signer_anchor = ''me''\<rparr> = Ok e"
    using epoch_build_Ok by blast
  from epoch_disclosure [OF e, of 6] e show ?thesis by auto
qed

end
