(* ===== verification/Delta.thy ===== *)
theory Delta
  imports Types
begin

unbundle bit_operations_syntax

text \<open>
  The delta codec (\<open>kappa-core/src/delta.rs\<close>): variable-length integers, the search for copies of
  the base in the target, the instruction stream, and its application. The lemmas give the round trip
  of the integers, the meaning of each emitted instruction, and that applying a computed delta to its
  base gives back the target, within the bounds that the copy instruction can express.
\<close>

section \<open>Definitions\<close>

definition BLOCK_SIZE :: nat where
  "BLOCK_SIZE = 16"

definition THRESHOLD_PERCENT :: nat where
  "THRESHOLD_PERCENT = 75"

datatype DeltaError =
    DeltaTruncated string
  | VarintOverflow
  | BaseSizeMismatch nat nat
  | CopyOutOfBounds nat nat nat
  | ReservedOpcode
  | ResultSizeMismatch nat nat

fun encode_varint :: "nat \<Rightarrow> bytes" where
  "encode_varint v =
     (if v div 128 > 0 then (word_of_nat (v mod 128) OR 0x80) # encode_varint (v div 128)
      else [word_of_nat (v mod 128)])"

declare encode_varint.simps [simp del]

text \<open>The decoder accumulates in a \<open>usize\<close>: bits shifted out of the 64 are lost.\<close>

function varint_loop :: "bytes \<Rightarrow> nat \<Rightarrow> u64 \<Rightarrow> nat \<Rightarrow> (nat \<times> nat, DeltaError) result" where
  "varint_loop data pos value shift =
     (if length data \<le> pos then Err (DeltaTruncated ''varint'')
      else (let byte = data ! pos;
                value' = value OR push_bit shift (ucast (byte AND 0x7f))
            in if byte AND 0x80 = 0 then Ok (unat value', pos + 1)
               else if shift + 7 > 63 then Err VarintOverflow
               else varint_loop data (pos + 1) value' (shift + 7)))"
  by pat_completeness auto
termination by (relation "measure (\<lambda>(data, pos, v, s). length data - pos)") auto

declare varint_loop.simps [simp del]

definition decode_varint :: "bytes \<Rightarrow> nat \<Rightarrow> (nat \<times> nat, DeltaError) result" where
  "decode_varint data pos = varint_loop data pos 0 0"

definition fnv1a :: "bytes \<Rightarrow> u64" where
  "fnv1a block = foldl (\<lambda>h b. (h XOR ucast b) * 0x100000001b3) 0xcbf29ce484222325 block"

definition subslice :: "bytes \<Rightarrow> nat \<Rightarrow> nat \<Rightarrow> bytes" where
  "subslice xs i n = take n (drop i xs)"

definition build_index :: "bytes \<Rightarrow> (u64, nat list) hmap" where
  "build_index base =
     (if BLOCK_SIZE \<le> length base then
        fold (\<lambda>i idx. hentry (fnv1a (subslice base i BLOCK_SIZE)) [] (\<lambda>v. v @ [i]) idx)
          [0..<length base - BLOCK_SIZE + 1] []
      else [])"

function extend_match :: "bytes \<Rightarrow> bytes \<Rightarrow> nat \<Rightarrow> nat \<Rightarrow> nat \<Rightarrow> nat" where
  "extend_match base target base_off pos len =
     (if base_off + len < length base \<and> pos + len < length target \<and> base ! (base_off + len) = target ! (pos + len)
      then extend_match base target base_off pos (len + 1)
      else len)"
  by pat_completeness auto
termination by (relation "measure (\<lambda>(base, target, bo, pos, len). length base - (bo + len))") auto

declare extend_match.simps [simp del]

text \<open>The candidates of a fingerprint in turn; a longer match replaces the best one.\<close>

fun best_match :: "bytes \<Rightarrow> bytes \<Rightarrow> nat \<Rightarrow> nat list \<Rightarrow> nat \<times> nat \<Rightarrow> nat \<times> nat" where
  "best_match base target pos [] best = best"
| "best_match base target pos (base_off # offs) (best_offset, best_len) =
     (if subslice base base_off BLOCK_SIZE \<noteq> subslice target pos BLOCK_SIZE
      then best_match base target pos offs (best_offset, best_len)
      else (let len = extend_match base target base_off pos BLOCK_SIZE in
            best_match base target pos offs (if len > best_len then (base_off, len) else (best_offset, best_len))))"

definition find_match :: "bytes \<Rightarrow> bytes \<Rightarrow> (u64, nat list) hmap \<Rightarrow> nat \<Rightarrow> nat \<times> nat" where
  "find_match base target index pos =
     (if pos + BLOCK_SIZE \<le> length target then
        (case hget index (fnv1a (subslice target pos BLOCK_SIZE)) of
           Some offsets \<Rightarrow> best_match base target pos offsets (0, 0)
         | None \<Rightarrow> (0, 0))
      else (0, 0))"

function flush_inserts :: "bytes \<Rightarrow> bytes" where
  "flush_inserts buf =
     (if buf = [] then []
      else (let n = min (length buf) 127 in word_of_nat n # take n buf @ flush_inserts (drop n buf)))"
  by pat_completeness auto
termination by (relation "measure length") auto

declare flush_inserts.simps [simp del]

text \<open>One byte of an offset or size: its flag and its value, left out when the byte is zero.\<close>

definition copy_field :: "u32 \<Rightarrow> nat \<Rightarrow> byte \<Rightarrow> byte \<times> bytes" where
  "copy_field w shift flag =
     (if w AND push_bit shift 0xff \<noteq> 0 then (flag, [ucast (drop_bit shift w AND 0xff)]) else (0, []))"

definition emit_copy :: "nat \<Rightarrow> nat \<Rightarrow> bytes" where
  "emit_copy offset csize =
     (let off = word_of_nat offset :: u32;
          sz = (if csize = 0x10000 then 0 else word_of_nat csize) :: u32;
          (c0, e0) = copy_field off 0 0x01;
          (c1, e1) = copy_field off 8 0x02;
          (c2, e2) = copy_field off 16 0x04;
          (c3, e3) = copy_field off 24 0x08;
          (c4, e4) = copy_field sz 0 0x10;
          (c5, e5) = copy_field sz 8 0x20;
          (c6, e6) = copy_field sz 16 0x40
      in (0x80 OR c0 OR c1 OR c2 OR c3 OR c4 OR c5 OR c6) # e0 @ e1 @ e2 @ e3 @ e4 @ e5 @ e6)"

function delta_loop :: "bytes \<Rightarrow> bytes \<Rightarrow> (u64, nat list) hmap \<Rightarrow> nat \<Rightarrow> bytes \<Rightarrow> bytes \<Rightarrow> bytes" where
  "delta_loop base target index pos insert_buf instructions =
     (if pos < length target then
        (let (best_offset, best_len) = find_match base target index pos in
         if best_len \<ge> BLOCK_SIZE then
           delta_loop base target index (pos + best_len) []
             (instructions @ flush_inserts insert_buf @ emit_copy best_offset best_len)
         else
           (let buf = insert_buf @ [target ! pos] in
            if length buf = 127
            then delta_loop base target index (pos + 1) [] (instructions @ flush_inserts buf)
            else delta_loop base target index (pos + 1) buf instructions))
      else instructions @ flush_inserts insert_buf)"
  by pat_completeness auto
termination
  by (relation "measure (\<lambda>(base, target, index, pos, b, i). length target - pos)") (auto simp: BLOCK_SIZE_def)

declare delta_loop.simps [simp del]

definition compute_delta :: "bytes \<Rightarrow> bytes \<Rightarrow> bytes option" where
  "compute_delta base target =
     (if base = [] \<or> target = [] \<or> length target < BLOCK_SIZE then None
      else (let delta = encode_varint (length base) @ encode_varint (length target) @
                  delta_loop base target (build_index base) 0 [] []
            in if length delta \<ge> length target * THRESHOLD_PERCENT div 100 then None else Some delta))"

definition copy_arg :: "byte \<Rightarrow> byte \<Rightarrow> string \<Rightarrow> nat \<Rightarrow> bytes \<Rightarrow> u64 \<times> nat \<Rightarrow> (u64 \<times> nat, DeltaError) result" where
  "copy_arg cmd flag what shift delta = (\<lambda>(value, pos).
     if cmd AND flag \<noteq> 0 then
       (if length delta \<le> pos then Err (DeltaTruncated what)
        else Ok (value OR push_bit shift (ucast (delta ! pos)), pos + 1))
     else Ok (value, pos))"

definition parse_copy :: "byte \<Rightarrow> bytes \<Rightarrow> nat \<Rightarrow> ((nat \<times> nat) \<times> nat, DeltaError) result" where
  "parse_copy cmd delta pos =
     rbind (copy_arg cmd 0x01 ''copy offset'' 0 delta (0, pos)) (\<lambda>a0.
     rbind (copy_arg cmd 0x02 ''copy offset'' 8 delta a0) (\<lambda>a1.
     rbind (copy_arg cmd 0x04 ''copy offset'' 16 delta a1) (\<lambda>a2.
     rbind (copy_arg cmd 0x08 ''copy offset'' 24 delta a2) (\<lambda>(offset, pos3).
     rbind (copy_arg cmd 0x10 ''copy size'' 0 delta (0, pos3)) (\<lambda>s0.
     rbind (copy_arg cmd 0x20 ''copy size'' 8 delta s0) (\<lambda>s1.
     rbind (copy_arg cmd 0x40 ''copy size'' 16 delta s1) (\<lambda>(csize, pos6).
     Ok ((unat offset, if csize = 0 then 0x10000 else unat csize), pos6))))))))"

lemma copy_arg_pos: "copy_arg cmd flag what shift delta (v, p) = Ok (v', p') \<Longrightarrow> p \<le> p'"
  by (auto simp: copy_arg_def split: if_splits)

lemma parse_copy_pos: "parse_copy cmd delta pos = Ok (x, pos') \<Longrightarrow> pos \<le> pos'"
  by (auto simp: parse_copy_def dest!: copy_arg_pos)

function apply_loop :: "bytes \<Rightarrow> bytes \<Rightarrow> nat \<Rightarrow> bytes \<Rightarrow> (bytes, DeltaError) result" where
  "apply_loop base delta pos out =
     (if pos < length delta then
        (let cmd = delta ! pos in
         if cmd = 0 then Err ReservedOpcode
         else if cmd AND 0x80 \<noteq> 0 then
           (case parse_copy cmd delta (pos + 1) of
              Ok ((offset, csize), pos') \<Rightarrow>
                if offset + csize > length base then Err (CopyOutOfBounds offset csize (length base))
                else apply_loop base delta pos' (out @ subslice base offset csize)
            | Err e \<Rightarrow> Err e
            | Panic \<Rightarrow> Panic)
         else (let n = unat cmd in
               if pos + 1 + n > length delta then Err (DeltaTruncated ''insert data'')
               else apply_loop base delta (pos + 1 + n) (out @ subslice delta (pos + 1) n)))
      else Ok out)"
  by pat_completeness auto
termination
  by (relation "measure (\<lambda>(base, delta, pos, out). length delta - pos)") (auto dest: parse_copy_pos)

declare apply_loop.simps [simp del]

text \<open>
  \<open>Vec::with_capacity\<close> panics when the requested size exceeds \<open>isize::MAX\<close>, which a crafted result
  size can do.
\<close>

definition apply_delta :: "bytes \<Rightarrow> bytes \<Rightarrow> (bytes, DeltaError) result" where
  "apply_delta base delta =
     rbind (decode_varint delta 0) (\<lambda>(base_size, pos).
     rbind (decode_varint delta pos) (\<lambda>(result_size, pos).
     if length base \<noteq> base_size then Err (BaseSizeMismatch base_size (length base))
     else if result_size \<ge> 2 ^ 63 then Panic
     else rbind (apply_loop base delta pos []) (\<lambda>out.
       if length out \<noteq> result_size then Err (ResultSizeMismatch result_size (length out))
       else Ok out)))"

section \<open>Variable-length integers\<close>

lemma bit_nat_small: "a < 2 ^ s \<Longrightarrow> bit (a :: nat) n \<Longrightarrow> n < s"
  by (metis bit_take_bit_iff take_bit_nat_eq_self)

lemma unat_shifted:
  assumes "unat (b :: byte) * 2 ^ s < 2 ^ 64"
  shows "unat (push_bit s (ucast b :: u64)) = push_bit s (unat b)"
proof -
  have "unat (ucast b :: u64) = unat b"
    using unsigned_less [of b, where ?'a = nat] by (simp add: unsigned_ucast_eq take_bit_nat_eq_self)
  then have "unat (push_bit s (ucast b :: u64)) = take_bit 64 (push_bit s (unat b))"
    by (simp only: unsigned_push_bit_eq) simp
  then show ?thesis
    using assms by (simp only: push_bit_eq_mult take_bit_nat_eq_self)
qed

lemma unat_or_shift:
  assumes "unat (a :: u64) < 2 ^ s" and "unat (b :: byte) * 2 ^ s < 2 ^ 64"
  shows "unat (a OR push_bit s (ucast b)) = unat a + unat b * 2 ^ s"
proof -
  have "unat a AND push_bit s (unat b) = 0"
    by (rule bit_eqI) (use assms(1) in \<open>auto simp: bit_and_iff bit_push_bit_iff dest: bit_nat_small\<close>)
  then have "unat a OR push_bit s (unat b) = unat a + push_bit s (unat b)"
    by (simp add: disjunctive_add_eq_or)
  then show ?thesis
    using unat_shifted [OF assms(2)] by (simp add: unsigned_or_eq push_bit_eq_mult)
qed

lemma bit_7f: "bit (0x7f :: byte) n \<longleftrightarrow> n < 7"
proof -
  have "(0x7f :: byte) = mask 7" by (simp add: mask_eq_exp_minus_1)
  then show ?thesis by (auto simp only: bit_mask_iff possible_bit_word) simp
qed

lemma bit_80: "bit (0x80 :: byte) n \<longleftrightarrow> n = 7"
proof -
  have "(0x80 :: byte) = push_bit 7 1" by simp
  then show ?thesis by (auto simp only: bit_push_bit_iff bit_1_iff possible_bit_word) simp_all
qed

lemma varint_byte:
  assumes "m < 128"
  shows "(word_of_nat m OR 0x80 :: byte) AND 0x7f = word_of_nat m"
    and "(word_of_nat m OR 0x80 :: byte) AND 0x80 \<noteq> 0"
    and "(word_of_nat m :: byte) AND 0x7f = word_of_nat m"
    and "(word_of_nat m :: byte) AND 0x80 = 0"
proof -
  have b: "bit (word_of_nat m :: byte) n \<Longrightarrow> n < 7" for n
  proof -
    assume "bit (word_of_nat m :: byte) n"
    then have "bit (unat (word_of_nat m :: byte)) n" by (simp add: bit_unsigned_iff)
    moreover have "unat (word_of_nat m :: byte) = m" using assms by (simp add: unat_byte_of_nat)
    ultimately show "n < 7" using bit_nat_small [of m 7 n] assms by simp
  qed
  then have "\<not> bit (word_of_nat m :: byte) 7" by blast
  then show "(word_of_nat m OR 0x80 :: byte) AND 0x7f = word_of_nat m"
    and "(word_of_nat m :: byte) AND 0x7f = word_of_nat m"
    and "(word_of_nat m :: byte) AND 0x80 = 0"
    unfolding bit_eq_iff [where ?'a = "8 word"] bit_and_iff bit_or_iff bit_7f bit_80 bit_0_eq using b by auto
  have "bit ((word_of_nat m OR 0x80 :: byte) AND 0x80) 7" unfolding bit_and_iff bit_or_iff bit_80 by simp
  then show "(word_of_nat m OR 0x80 :: byte) AND 0x80 \<noteq> 0" by auto
qed

lemma varint_sum: "v = 128 * q + m \<Longrightarrow> m * 2 ^ s + q * 2 ^ (s + 7) = v * (2 :: nat) ^ s"
  by (simp add: power_add algebra_simps)

lemma varint_loop_encode:
  assumes "unat a < 2 ^ s" and "unat a + v * 2 ^ s < 2 ^ 64"
  shows "varint_loop (pre @ encode_varint v @ post) (length pre) a s =
     Ok (unat a + v * 2 ^ s, length pre + length (encode_varint v))"
  using assms
proof (induction v arbitrary: a s pre rule: encode_varint.induct)
  case (1 v)
  let ?m = "v mod 128"
  let ?w = "word_of_nat ?m :: byte"
  have m: "?m < 128" "unat ?w = ?m"
    by (simp_all add: unat_byte_of_nat)
  have mv: "?m * 2 ^ s \<le> v * 2 ^ s" by simp
  then have lt: "unat ?w * 2 ^ s < 2 ^ 64"
    unfolding m(2) using "1.prems"(2) by linarith
  note acc = unat_or_shift [OF "1.prems"(1) lt, unfolded m(2)]
  show ?case
  proof (cases "v div 128 > 0")
    case False
    then have v: "v = ?m" by simp
    have e: "encode_varint v = [?w]" using False by (simp add: encode_varint.simps [of v])
    show ?thesis
      unfolding e using acc v varint_byte(3,4) [OF m(1)] by (simp add: varint_loop.simps Let_def)
  next
    case True
    let ?b = "?w OR 0x80"
    let ?a = "a OR push_bit s (ucast ?w)"
    have e: "encode_varint v = ?b # encode_varint (v div 128)"
      using True by (simp add: encode_varint.simps [of v])
    have split: "v = 128 * (v div 128) + ?m" by simp
    have "128 * 2 ^ s \<le> v * 2 ^ s" using True by simp
    then have "128 * 2 ^ s < (2 :: nat) ^ 64" using "1.prems"(2) by linarith
    then have "(2 :: nat) ^ (s + 7) < 2 ^ 64" by (simp add: power_add)
    then have s: "s + 7 \<le> 63" using power_less_imp_less_exp [of "2 :: nat" "s + 7" 64] by simp
    have "?m * 2 ^ s \<le> 127 * 2 ^ s" using m(1) by (intro mult_le_mono1) simp
    then have "unat a + ?m * 2 ^ s < 128 * 2 ^ s" using "1.prems"(1) by linarith
    then have a: "unat ?a < 2 ^ (s + 7)" unfolding acc by (simp add: power_add)
    have sum: "unat ?a + v div 128 * 2 ^ (s + 7) = unat a + v * 2 ^ s"
      unfolding acc using varint_sum [OF split, of s] by simp
    have "varint_loop ((pre @ [?b]) @ encode_varint (v div 128) @ post) (length (pre @ [?b])) ?a (s + 7) =
        Ok (unat ?a + v div 128 * 2 ^ (s + 7), length (pre @ [?b]) + length (encode_varint (v div 128)))"
      using "1.prems"(2) sum a by (intro "1.IH" [OF True]) simp_all
    then show ?thesis
      unfolding e sum using s varint_byte(1,2) [OF m(1)]
      by (simp add: varint_loop.simps [of "pre @ ?b # encode_varint (v div 128) @ post"] Let_def)
  qed
qed

interpretation varint_codec: pos_codec encode_varint decode_varint "\<lambda>v. v < 2 ^ 64" "\<lambda>_. True"
proof
  fix v :: nat and pre post :: bytes
  assume "v < 2 ^ 64"
  then show "decode_varint (pre @ encode_varint v @ post) (length pre) = Ok (v, length pre + length (encode_varint v))"
    using varint_loop_encode [of 0 0 v pre post] by (simp add: decode_varint_def)
qed

section \<open>Copy instructions\<close>

definition field_byte :: "u32 \<Rightarrow> nat \<Rightarrow> byte" where
  "field_byte w shift = ucast (drop_bit shift w AND 0xff)"

lemma bit_255: "bit (0xff :: u32) n \<longleftrightarrow> n < 8"
proof -
  have "(0xff :: u32) = mask 8"
    by (simp add: mask_eq_exp_minus_1)
  then show ?thesis
    by (auto simp only: bit_mask_iff possible_bit_word) simp
qed

lemma bit_field_byte: "bit (field_byte w shift) n \<longleftrightarrow> n < 8 \<and> bit w (shift + n)"
  unfolding field_byte_def bit_ucast_iff bit_and_iff bit_drop_bit_eq bit_255 by (auto simp: bit_drop_bit_eq)

lemma field_byte_0:
  assumes "w AND push_bit shift 0xff = 0"
  shows "field_byte w shift = 0"
proof (rule bit_eqI)
  fix n assume n: "possible_bit TYPE(byte) n"
  have "\<not> bit (w AND push_bit shift 0xff) (shift + n)" unfolding assms by simp
  then have "\<not> (bit w (shift + n) \<and> n < 8)"
    unfolding bit_and_iff bit_push_bit_iff bit_255 by (auto dest: bit_imp_le_length)
  then show "bit (field_byte w shift) n = bit 0 n"
    by (auto simp: bit_field_byte)
qed

lemma copy_field_arg:
  assumes "copy_field w shift flag = (c, e)" and "flag \<noteq> 0" and "cmd AND flag \<noteq> 0 \<longleftrightarrow> c \<noteq> 0"
    and "pos = length pre"
  shows "copy_arg cmd flag what shift (pre @ e @ post) (v, pos) =
     Ok (v OR push_bit shift (ucast (field_byte w shift)), length (pre @ e))"
  using assms field_byte_0 [of w shift]
  by (auto simp: copy_field_def copy_arg_def field_byte_def split: if_splits)

lemma bit_field_shifted:
  "bit (push_bit k (ucast (field_byte w k)) :: u64) n \<longleftrightarrow> k \<le> n \<and> n < k + 8 \<and> n < 64 \<and> bit w n"
  by (auto simp: bit_push_bit_iff bit_ucast_iff bit_field_byte)

lemma field_bytes_u32:
  "push_bit 0 (ucast (field_byte w 0)) OR push_bit 8 (ucast (field_byte w 8)) OR
   push_bit 16 (ucast (field_byte w 16)) OR push_bit 24 (ucast (field_byte w 24)) = (ucast w :: u64)"
proof (rule bit_eqI)
  fix n assume "possible_bit TYPE(u64) n"
  have "bit w n \<Longrightarrow> n < 32" using bit_imp_le_length [of w n] by simp
  then show "bit (push_bit 0 (ucast (field_byte w 0)) OR push_bit 8 (ucast (field_byte w 8)) OR
   push_bit 16 (ucast (field_byte w 16)) OR push_bit 24 (ucast (field_byte w 24)) :: u64) n = bit (ucast w :: u64) n"
    unfolding bit_or_iff bit_field_shifted bit_ucast_iff by auto
qed

lemma field_bytes_u24:
  "push_bit 0 (ucast (field_byte w 0)) OR push_bit 8 (ucast (field_byte w 8)) OR
   push_bit 16 (ucast (field_byte w 16)) = take_bit 24 (ucast w :: u64)"
proof (rule bit_eqI)
  fix n assume "possible_bit TYPE(u64) n"
  show "bit (push_bit 0 (ucast (field_byte w 0)) OR push_bit 8 (ucast (field_byte w 8)) OR
   push_bit 16 (ucast (field_byte w 16)) :: u64) n = bit (take_bit 24 (ucast w :: u64)) n"
    unfolding bit_or_iff bit_field_shifted bit_ucast_iff bit_take_bit_iff by auto
qed

lemma flag_bits:
  "(x :: byte) AND 0x01 \<noteq> 0 \<longleftrightarrow> bit x 0" "x AND 0x02 \<noteq> 0 \<longleftrightarrow> bit x 1" "x AND 0x04 \<noteq> 0 \<longleftrightarrow> bit x 2"
  "x AND 0x08 \<noteq> 0 \<longleftrightarrow> bit x 3" "x AND 0x10 \<noteq> 0 \<longleftrightarrow> bit x 4" "x AND 0x20 \<noteq> 0 \<longleftrightarrow> bit x 5"
  "x AND 0x40 \<noteq> 0 \<longleftrightarrow> bit x 6" "x AND 0x80 \<noteq> 0 \<longleftrightarrow> bit x 7"
  unfolding bit_iff_and_push_bit_not_eq_0 by simp_all

lemma bit_if_0: "bit (if b then x else 0) n \<longleftrightarrow> b \<and> bit (x :: byte) n"
  by simp

lemma copy_flags:
  "let cmd = 0x80 OR (if b0 then 0x01 else 0) OR (if b1 then 0x02 else 0) OR
      (if b2 then 0x04 else 0) OR (if b3 then 0x08 else 0) OR (if b4 then 0x10 else 0) OR
      (if b5 then 0x20 else 0) OR (if b6 then 0x40 else 0) :: byte in
      (cmd AND 0x01 \<noteq> 0 \<longleftrightarrow> b0) \<and> (cmd AND 0x02 \<noteq> 0 \<longleftrightarrow> b1) \<and> (cmd AND 0x04 \<noteq> 0 \<longleftrightarrow> b2) \<and>
      (cmd AND 0x08 \<noteq> 0 \<longleftrightarrow> b3) \<and> (cmd AND 0x10 \<noteq> 0 \<longleftrightarrow> b4) \<and> (cmd AND 0x20 \<noteq> 0 \<longleftrightarrow> b5) \<and>
      (cmd AND 0x40 \<noteq> 0 \<longleftrightarrow> b6) \<and> cmd AND 0x80 \<noteq> 0"
  unfolding Let_def flag_bits bit_or_iff bit_if_0 by simp

text \<open>What a copy instruction says when it is read back: 32 bits of the offset, 24 of the size.\<close>

definition copy_size :: "nat \<Rightarrow> nat" where
  "copy_size n = (if n mod 2 ^ 24 = 0 then 0x10000 else n mod 2 ^ 24)"

lemma parse_emit_copy:
  "\<exists>cmd extra. emit_copy offset n = cmd # extra \<and> cmd AND 0x80 \<noteq> 0 \<and>
     parse_copy cmd (pre @ cmd # extra @ post) (length pre + 1) =
       Ok ((offset mod 2 ^ 32, copy_size n), length pre + length (emit_copy offset n))"
proof -
  define off where "off = (word_of_nat offset :: u32)"
  define sz where "sz = ((if n = 0x10000 then 0 else word_of_nat n) :: u32)"
  define f where "f w sh = (w AND push_bit sh 0xff \<noteq> (0 :: u32))" for w sh
  define e where "e w sh = (if f w sh then [field_byte w sh] else [])" for w sh
  define cmd where "cmd = 0x80 OR (if f off 0 then 0x01 else 0) OR (if f off 8 then 0x02 else 0) OR
      (if f off 16 then 0x04 else 0) OR (if f off 24 then 0x08 else 0) OR (if f sz 0 then 0x10 else 0) OR
      (if f sz 8 then 0x20 else 0) OR (if f sz 16 then 0x40 else 0 :: byte)"
  define extra where "extra = e off 0 @ e off 8 @ e off 16 @ e off 24 @ e sz 0 @ e sz 8 @ e sz 16"
  have fld: "copy_field w sh flag = (if f w sh then flag else 0, e w sh)" for w sh flag
    by (simp add: copy_field_def f_def e_def field_byte_def)
  have emit: "emit_copy offset n = cmd # extra"
    by (simp add: emit_copy_def fld cmd_def extra_def flip: off_def sz_def)
  have flags: "(cmd AND 0x01 \<noteq> 0 \<longleftrightarrow> f off 0) \<and> (cmd AND 0x02 \<noteq> 0 \<longleftrightarrow> f off 8) \<and>
      (cmd AND 0x04 \<noteq> 0 \<longleftrightarrow> f off 16) \<and> (cmd AND 0x08 \<noteq> 0 \<longleftrightarrow> f off 24) \<and> (cmd AND 0x10 \<noteq> 0 \<longleftrightarrow> f sz 0) \<and>
      (cmd AND 0x20 \<noteq> 0 \<longleftrightarrow> f sz 8) \<and> (cmd AND 0x40 \<noteq> 0 \<longleftrightarrow> f sz 16) \<and> cmd AND 0x80 \<noteq> 0"
    using copy_flags [of "f off 0" "f off 8" "f off 16" "f off 24" "f sz 0" "f sz 8" "f sz 16"]
    unfolding Let_def cmd_def .
  have arg: "copy_arg cmd flag what sh D (v, k) =
      Ok (v OR push_bit sh (ucast (field_byte w sh)), k + length (e w sh))"
    if "cmd AND flag \<noteq> 0 \<longleftrightarrow> f w sh" "D = pr @ e w sh @ q" "k = length pr" "flag \<noteq> 0" for w sh flag what pr q v k D
    using that copy_field_arg [of w sh flag "if f w sh then flag else 0" "e w sh" cmd k pr what q v]
    by (simp add: fld)
  let ?p = "pre @ [cmd]"
  define D where "D = ?p @ extra @ post"
  define k where "k = length ?p"
  note D = D_def k_def extra_def
  note fl = flags [THEN conjunct1] flags [THEN conjunct2, THEN conjunct1]
    flags [THEN conjunct2, THEN conjunct2, THEN conjunct1]
    flags [THEN conjunct2, THEN conjunct2, THEN conjunct2, THEN conjunct1]
    flags [THEN conjunct2, THEN conjunct2, THEN conjunct2, THEN conjunct2, THEN conjunct1]
    flags [THEN conjunct2, THEN conjunct2, THEN conjunct2, THEN conjunct2, THEN conjunct2, THEN conjunct1]
    flags [THEN conjunct2, THEN conjunct2, THEN conjunct2, THEN conjunct2, THEN conjunct2, THEN conjunct2, THEN conjunct1]
  have a0: "copy_arg cmd 0x01 what 0 D (v, k) =
      Ok (v OR push_bit 0 (ucast (field_byte off 0)), k + length (e off 0))" for what v
    by (rule arg [OF fl(1), of D "?p"
          "e off 8 @ e off 16 @ e off 24 @ e sz 0 @ e sz 8 @ e sz 16 @ post"]) (simp_all add: D)
  have a1: "copy_arg cmd 0x02 what 8 D (v, k + length (e off 0)) =
      Ok (v OR push_bit 8 (ucast (field_byte off 8)), k + length (e off 0) + length (e off 8))" for what v
    by (rule arg [OF fl(2), of D "?p @ e off 0"
          "e off 16 @ e off 24 @ e sz 0 @ e sz 8 @ e sz 16 @ post"]) (simp_all add: D)
  have a2: "copy_arg cmd 0x04 what 16 D (v, k + length (e off 0) + length (e off 8)) =
      Ok (v OR push_bit 16 (ucast (field_byte off 16)), k + length (e off 0) + length (e off 8) + length (e off 16))" for what v
    by (rule arg [OF fl(3), of D "?p @ e off 0 @ e off 8"
          "e off 24 @ e sz 0 @ e sz 8 @ e sz 16 @ post"]) (simp_all add: D)
  have a3: "copy_arg cmd 0x08 what 24 D (v, k + length (e off 0) + length (e off 8) + length (e off 16)) =
      Ok (v OR push_bit 24 (ucast (field_byte off 24)), k + length (e off 0) + length (e off 8) + length (e off 16) + length (e off 24))" for what v
    by (rule arg [OF fl(4), of D "?p @ e off 0 @ e off 8 @ e off 16"
          "e sz 0 @ e sz 8 @ e sz 16 @ post"]) (simp_all add: D)
  have a4: "copy_arg cmd 0x10 what 0 D (v, k + length (e off 0) + length (e off 8) + length (e off 16) + length (e off 24)) =
      Ok (v OR push_bit 0 (ucast (field_byte sz 0)), k + length (e off 0) + length (e off 8) + length (e off 16) + length (e off 24) + length (e sz 0))" for what v
    by (rule arg [OF fl(5), of D "?p @ e off 0 @ e off 8 @ e off 16 @ e off 24"
          "e sz 8 @ e sz 16 @ post"]) (simp_all add: D)
  have a5: "copy_arg cmd 0x20 what 8 D (v, k + length (e off 0) + length (e off 8) + length (e off 16) + length (e off 24) + length (e sz 0)) =
      Ok (v OR push_bit 8 (ucast (field_byte sz 8)), k + length (e off 0) + length (e off 8) + length (e off 16) + length (e off 24) + length (e sz 0) + length (e sz 8))" for what v
    by (rule arg [OF fl(6), of D "?p @ e off 0 @ e off 8 @ e off 16 @ e off 24 @ e sz 0"
          "e sz 16 @ post"]) (simp_all add: D)
  have a6: "copy_arg cmd 0x40 what 16 D (v, k + length (e off 0) + length (e off 8) + length (e off 16) + length (e off 24) + length (e sz 0) + length (e sz 8)) =
      Ok (v OR push_bit 16 (ucast (field_byte sz 16)), k + length (e off 0) + length (e off 8) + length (e off 16) + length (e off 24) + length (e sz 0) + length (e sz 8) + length (e sz 16))" for what v
    by (rule arg [OF fl(7), of D "?p @ e off 0 @ e off 8 @ e off 16 @ e off 24 @ e sz 0 @ e sz 8"
          "post"]) (simp_all add: D)
  have parse: "parse_copy cmd D k =
      Ok ((unat (ucast off :: u64),
           if take_bit 24 (ucast sz) = (0 :: u64) then 0x10000 else unat (take_bit 24 (ucast sz :: u64))),
          k + length extra)"
    unfolding parse_copy_def field_bytes_u32 [of off, symmetric] field_bytes_u24 [of sz, symmetric] extra_def
    by (simp only: a0 a1 a2 a3 a4 a5 a6 rbind.simps prod.case)
      (simp only: or.assoc or.left_neutral length_append add.assoc)
  have "unat (ucast off :: u64) = offset mod 2 ^ 32"
    by (simp add: off_def unsigned_ucast_eq unat_of_nat take_bit_eq_mod)
  moreover have "unat (take_bit 24 (ucast sz :: u64)) = (if n = 0x10000 then 0 else n mod 2 ^ 24)"
  proof -
    have "unat sz = (if n = 0x10000 then 0 else n mod 2 ^ 32)"
      by (simp add: sz_def unat_of_nat take_bit_eq_mod)
    moreover have "unat (take_bit 24 (ucast sz :: u64)) = take_bit 24 (take_bit 64 (unat sz))"
      by (simp only: unsigned_take_bit_eq unsigned_ucast_eq) simp
    ultimately show ?thesis by (simp add: take_bit_eq_mod mod_mod_cancel)
  qed
  ultimately show ?thesis
    using parse flags emit by (auto simp: copy_size_def D_def k_def unat_eq_zero [symmetric])
qed

section \<open>What instructions do\<close>

text \<open>
  \<open>runs base ins res\<close>: wherever the instructions \<open>ins\<close> stand in a stream, the interpreter reaches
  their end and has appended \<open>res\<close>.
\<close>

definition runs :: "bytes \<Rightarrow> bytes \<Rightarrow> bytes \<Rightarrow> bool" where
  "runs base ins res \<longleftrightarrow>
     (\<forall>pre post out. apply_loop base (pre @ ins @ post) (length pre) out =
        apply_loop base (pre @ ins @ post) (length pre + length ins) (out @ res))"

lemma runs_Nil [simp]: "runs base [] []"
  by (simp add: runs_def)

lemma runs_append:
  assumes "runs base a x" and "runs base b y"
  shows "runs base (a @ b) (x @ y)"
  unfolding runs_def
proof (intro allI)
  fix pre post out
  have "apply_loop base (pre @ a @ b @ post) (length pre) out =
      apply_loop base (pre @ a @ b @ post) (length pre + length a) (out @ x)"
    using assms(1) unfolding runs_def by blast
  also have "\<dots> = apply_loop base ((pre @ a) @ b @ post) (length (pre @ a)) (out @ x)" by simp
  also have "\<dots> = apply_loop base ((pre @ a) @ b @ post) (length (pre @ a) + length b) ((out @ x) @ y)"
    using assms(2) unfolding runs_def by blast
  finally show "apply_loop base (pre @ (a @ b) @ post) (length pre) out =
      apply_loop base (pre @ (a @ b) @ post) (length pre + length (a @ b)) (out @ x @ y)"
    by (simp add: add.assoc)
qed

lemma runs_copy:
  assumes "offset < 2 ^ 32" and "0 < n" and "n < 2 ^ 24" and "offset + n \<le> length base"
  shows "runs base (emit_copy offset n) (subslice base offset n)"
  unfolding runs_def
proof (intro allI)
  fix pre post out
  obtain cmd extra where e: "emit_copy offset n = cmd # extra" and c: "cmd AND 0x80 \<noteq> 0"
    and p: "parse_copy cmd (pre @ cmd # extra @ post) (length pre + 1) =
       Ok ((offset mod 2 ^ 32, copy_size n), length pre + length (emit_copy offset n))"
    using parse_emit_copy by blast
  have "cmd \<noteq> 0" using c by auto
  moreover have "offset mod 2 ^ 32 = offset" "copy_size n = n"
    using assms by (simp_all add: copy_size_def)
  ultimately show "apply_loop base (pre @ emit_copy offset n @ post) (length pre) out =
      apply_loop base (pre @ emit_copy offset n @ post) (length pre + length (emit_copy offset n)) (out @ subslice base offset n)"
    using c p assms(4) by (simp add: e apply_loop.simps [of base "pre @ cmd # extra @ post" "length pre" out] Let_def)
qed

lemma insert_cmd:
  assumes "0 < n" and "n < 128"
  shows "(word_of_nat n :: byte) \<noteq> 0" and "(word_of_nat n :: byte) AND 0x80 = 0"
    and "unat (word_of_nat n :: byte) = n"
  using assms varint_byte(4) [of n] unat_byte_of_nat [of n] by auto

lemma runs_insert:
  assumes "0 < length d" and "length d < 128"
  shows "runs base (word_of_nat (length d) # d) d"
  unfolding runs_def
proof (intro allI)
  fix pre post out
  show "apply_loop base (pre @ (word_of_nat (length d) # d) @ post) (length pre) out =
      apply_loop base (pre @ (word_of_nat (length d) # d) @ post)
        (length pre + length (word_of_nat (length d) # d)) (out @ d)"
    using insert_cmd [OF assms]
    by (simp add: apply_loop.simps [of base "pre @ word_of_nat (length d) # d @ post" "length pre" out] Let_def subslice_def)
qed

lemma runs_flush: "runs base (flush_inserts buf) buf"
proof (induction buf rule: flush_inserts.induct)
  case (1 buf)
  show ?case
  proof (cases "buf = []")
    case True
    then show ?thesis by (simp add: flush_inserts.simps)
  next
    case False
    let ?n = "min (length buf) 127"
    let ?d = "take ?n buf"
    have d: "length ?d = ?n" "0 < length ?d" "length ?d < 128" using False by auto
    have "runs base (word_of_nat (length ?d) # ?d) ?d"
      using d by (intro runs_insert)
    from runs_append [OF this "1.IH" [OF False refl]] have
      "runs base ((word_of_nat ?n # ?d) @ flush_inserts (drop ?n buf)) (?d @ drop ?n buf)"
      unfolding d(1) .
    then show ?thesis using False by (simp add: flush_inserts.simps [of buf] Let_def)
  qed
qed

section \<open>The matcher\<close>

lemma extend_match_ok:
  assumes "subslice base bo len = subslice target pos len" and "bo + len \<le> length base" and "pos + len \<le> length target"
    and "n = extend_match base target bo pos len"
  shows "len \<le> n \<and> bo + n \<le> length base \<and> pos + n \<le> length target \<and> subslice base bo n = subslice target pos n"
  using assms
proof (induction base target bo pos len arbitrary: n rule: extend_match.induct)
  case (1 base target bo pos len)
  let ?c = "bo + len < length base \<and> pos + len < length target \<and> base ! (bo + len) = target ! (pos + len)"
  show ?case
  proof (cases ?c)
    case False
    then have "extend_match base target bo pos len = len"
      by (subst extend_match.simps) (rule if_not_P)
    then show ?thesis using 1 by simp
  next
    case True
    then have "len < length (drop bo base)" "len < length (drop pos target)" by auto
    then have sl: "subslice base bo (len + 1) = subslice target pos (len + 1)"
      using "1.prems"(1) True by (simp add: subslice_def take_Suc_conv_app_nth)
    have "extend_match base target bo pos len = extend_match base target bo pos (len + 1)"
      using True by (subst extend_match.simps) (rule if_P)
    then have n: "n = extend_match base target bo pos (len + 1)" using "1.prems"(4) by simp
    show ?thesis
      using "1.IH" [OF True sl _ _ n] True by simp
  qed
qed

lemma best_match_ok:
  assumes "\<forall>i \<in> set offs. i + BLOCK_SIZE \<le> length base" and "pos + BLOCK_SIZE \<le> length target"
    and "snd best \<ge> BLOCK_SIZE \<Longrightarrow> fst best + snd best \<le> length base \<and> pos + snd best \<le> length target \<and>
           subslice base (fst best) (snd best) = subslice target pos (snd best)"
    and "best_match base target pos offs best = (bo, n)" and "n \<ge> BLOCK_SIZE"
  shows "bo + n \<le> length base \<and> pos + n \<le> length target \<and> subslice base bo n = subslice target pos n"
  using assms(1,3,4)
proof (induction offs arbitrary: best)
  case Nil
  then show ?case using assms(5) by simp
next
  case (Cons i offs)
  have offs: "\<forall>i \<in> set offs. i + BLOCK_SIZE \<le> length base" using Cons.prems(1) by simp
  let ?l = "extend_match base target i pos BLOCK_SIZE"
  let ?best = "if subslice base i BLOCK_SIZE = subslice target pos BLOCK_SIZE \<and> ?l > snd best then (i, ?l) else best"
  have step: "best_match base target pos offs ?best = (bo, n)"
    using Cons.prems(3) by (cases best) (auto simp: Let_def split: if_splits)
  have "fst ?best + snd ?best \<le> length base \<and> pos + snd ?best \<le> length target \<and>
      subslice base (fst ?best) (snd ?best) = subslice target pos (snd ?best)" if "snd ?best \<ge> BLOCK_SIZE"
  proof (cases "subslice base i BLOCK_SIZE = subslice target pos BLOCK_SIZE \<and> ?l > snd best")
    case True
    then have "subslice base i BLOCK_SIZE = subslice target pos BLOCK_SIZE" by blast
    from extend_match_ok [OF this _ assms(2) refl] Cons.prems(1) True show ?thesis by simp
  next
    case False
    then have "?best = best" by (rule if_not_P)
    then show ?thesis using that Cons.prems(2) by simp
  qed
  then show ?case by (rule Cons.IH [OF offs _ step])
qed

lemma hget_build_fold:
  "hget (fold (\<lambda>i idx. hentry (f i) [] (\<lambda>v. v @ [i]) idx) is idx) k = Some offs \<Longrightarrow>
   set offs \<subseteq> set is \<union> (case hget idx k of None \<Rightarrow> {} | Some v \<Rightarrow> set v)"
proof (induction "is" arbitrary: idx)
  case Nil
  then show ?case by simp
next
  case (Cons i "is")
  from Cons.IH [of "hentry (f i) [] (\<lambda>v. v @ [i]) idx"] Cons.prems
  show ?case by (auto split: option.splits if_splits)
qed

lemma build_index_ok:
  assumes "hget (build_index base) k = Some offs"
  shows "\<forall>i \<in> set offs. i + BLOCK_SIZE \<le> length base"
proof (cases "BLOCK_SIZE \<le> length base")
  case True
  then have "set offs \<subseteq> set [0..<length base - BLOCK_SIZE + 1]"
    using hget_build_fold [of "\<lambda>i. fnv1a (subslice base i BLOCK_SIZE)" "[0..<length base - BLOCK_SIZE + 1]" "[]" k offs]
      assms by (simp add: build_index_def)
  with True show ?thesis by auto
next
  case False
  then show ?thesis using assms by (simp add: build_index_def)
qed

lemma find_match_ok:
  assumes "find_match base target (build_index base) pos = (bo, n)" and "n \<ge> BLOCK_SIZE"
  shows "bo + n \<le> length base \<and> pos + n \<le> length target \<and> subslice base bo n = subslice target pos n"
proof -
  have b: "BLOCK_SIZE > 0" by (simp add: BLOCK_SIZE_def)
  have pos: "pos + BLOCK_SIZE \<le> length target"
  proof (rule ccontr)
    assume "\<not> ?thesis"
    then have "n = 0" using assms(1) by (simp add: find_match_def)
    then show False using assms(2) b by simp
  qed
  show ?thesis
  proof (cases "hget (build_index base) (fnv1a (subslice target pos BLOCK_SIZE))")
    case None
    then have "n = 0" using assms(1) pos by (simp add: find_match_def)
    then show ?thesis using assms(2) b by simp
  next
    case (Some offs)
    then have "best_match base target pos offs (0, 0) = (bo, n)"
      using assms(1) pos by (simp add: find_match_def)
    from best_match_ok [OF build_index_ok [OF Some] pos _ this assms(2)] show ?thesis
      using b by simp
  qed
qed

section \<open>The delta applies\<close>

definition copy_bounds :: "bytes \<Rightarrow> bytes \<Rightarrow> bool" where
  "copy_bounds base target \<longleftrightarrow>
     length base \<le> 2 ^ 32 \<and> length target < 2 ^ 63 \<and> (length base < 2 ^ 24 \<or> length target < 2 ^ 24)"

lemma delta_loop_runs:
  assumes "copy_bounds base target" and "index = build_index base"
  shows "\<exists>ins. delta_loop base target index pos buf instrs = instrs @ ins \<and>
     runs base ins (buf @ drop pos target)"
  using assms
proof (induction base target index pos buf instrs rule: delta_loop.induct)
  case (1 base target index pos buf instrs)
  obtain bo n where m: "find_match base target index pos = (bo, n)" by fastforce
  show ?case
  proof (cases "pos < length target")
    case False
    then show ?thesis
      using runs_flush [of base buf] by (simp add: delta_loop.simps [of base target index pos])
  next
    case pos: True
    show ?thesis
    proof (cases "n \<ge> BLOCK_SIZE")
      case True
      have ok: "bo + n \<le> length base \<and> pos + n \<le> length target \<and> subslice base bo n = subslice target pos n"
        using find_match_ok m True "1.prems"(2) by blast
      have n0: "0 < n" using True by (simp add: BLOCK_SIZE_def)
      have copy: "runs base (emit_copy bo n) (subslice target pos n)"
        using runs_copy [of bo n base] ok "1.prems"(1) n0 by (auto simp: copy_bounds_def)
      obtain ins where ins: "delta_loop base target index (pos + n) [] (instrs @ flush_inserts buf @ emit_copy bo n) =
          (instrs @ flush_inserts buf @ emit_copy bo n) @ ins" "runs base ins ([] @ drop (pos + n) target)"
        using "1.IH"(1) [OF pos m [symmetric] refl True] "1.prems" by blast
      have "runs base (flush_inserts buf @ emit_copy bo n @ ins) (buf @ subslice target pos n @ drop (pos + n) target)"
        using runs_flush copy ins(2) by (intro runs_append) simp_all
      moreover have "subslice target pos n @ drop (pos + n) target = drop pos target"
        by (simp add: subslice_def add.commute flip: drop_drop)
      ultimately show ?thesis
        using pos m True ins(1) by (simp add: delta_loop.simps [of base target index pos buf])
    next
      case False
      have d: "drop pos target = target ! pos # drop (pos + 1) target"
        using pos by (simp add: Cons_nth_drop_Suc)
      show ?thesis
      proof (cases "length (buf @ [target ! pos]) = 127")
        case True
        obtain ins where ins: "delta_loop base target index (pos + 1) [] (instrs @ flush_inserts (buf @ [target ! pos])) =
            (instrs @ flush_inserts (buf @ [target ! pos])) @ ins" "runs base ins ([] @ drop (pos + 1) target)"
          using "1.IH"(2) [OF pos m [symmetric] refl False refl True] "1.prems" by blast
        have "runs base (flush_inserts (buf @ [target ! pos]) @ ins) ((buf @ [target ! pos]) @ drop (pos + 1) target)"
          using runs_flush ins(2) by (intro runs_append) simp_all
        then show ?thesis
          using pos m False True ins(1) d by (simp add: delta_loop.simps [of base target index pos buf] Let_def)
      next
        case f127: False
        obtain ins where "delta_loop base target index (pos + 1) (buf @ [target ! pos]) instrs = instrs @ ins"
          "runs base ins ((buf @ [target ! pos]) @ drop (pos + 1) target)"
          using "1.IH"(3) [OF pos m [symmetric] refl False refl f127] "1.prems" by blast
        then show ?thesis
          using pos m False f127 d by (simp add: delta_loop.simps [of base target index pos buf] Let_def)
      qed
    qed
  qed
qed

lemma apply_compute_delta:
  assumes "copy_bounds base target" and "compute_delta base target = Some d"
  shows "apply_delta base d = Ok target"
proof -
  obtain ins where loop: "delta_loop base target (build_index base) 0 [] [] = ins"
    and r: "runs base ins target"
    using delta_loop_runs [OF assms(1) refl, of 0 "[]" "[]"] by auto
  let ?h = "encode_varint (length base) @ encode_varint (length target)"
  have d: "d = ?h @ ins"
    using assms(2) loop by (auto simp: compute_delta_def Let_def split: if_splits)
  have lens: "length base < 2 ^ 64" "length target < 2 ^ 63" "length target < 2 ^ 64"
    using assms(1) by (auto simp: copy_bounds_def)
  have v1: "decode_varint d 0 = Ok (length base, length (encode_varint (length base)))"
    unfolding d using varint_codec.dec_enc_prefix [OF lens(1)] by simp
  have v2: "decode_varint d (length (encode_varint (length base))) = Ok (length target, length ?h)"
    unfolding d using varint_codec.dec_enc [OF lens(3), of "encode_varint (length base)" ins] by simp
  have "apply_loop base (?h @ ins @ []) (length ?h) [] = apply_loop base (?h @ ins @ []) (length ?h + length ins) ([] @ target)"
    using r unfolding runs_def by blast
  also have "\<dots> = Ok target" by (simp add: apply_loop.simps)
  finally have "apply_loop base d (length ?h) [] = Ok target" unfolding d by simp
  then show ?thesis
    using v1 v2 lens by (simp add: apply_delta_def)
qed

section \<open>Identical large objects\<close>

lemma fold_index_keeps:
  "hget idx k = Some v \<Longrightarrow>
   \<exists>w. hget (fold (\<lambda>i idx. hentry (f i) [] (\<lambda>v. v @ [i]) idx) is idx) k = Some (v @ w)"
proof (induction "is" arbitrary: idx v)
  case Nil
  then show ?case by simp
next
  case (Cons i "is")
  then have "\<exists>v'. hget (hentry (f i) [] (\<lambda>v. v @ [i]) idx) k = Some (v @ v')"
    by (cases "f i = k") auto
  then obtain v' where "hget (hentry (f i) [] (\<lambda>v. v @ [i]) idx) k = Some (v @ v')" by blast
  from Cons.IH [OF this] show ?case by auto
qed

lemma build_index_first:
  assumes "BLOCK_SIZE \<le> length base"
  shows "\<exists>offs. hget (build_index base) (fnv1a (subslice base 0 BLOCK_SIZE)) = Some (0 # offs)"
proof -
  let ?f = "\<lambda>i. fnv1a (subslice base i BLOCK_SIZE)"
  let ?g = "\<lambda>i idx. hentry (?f i) [] (\<lambda>v. v @ [i]) idx"
  have "[0..<length base - BLOCK_SIZE + 1] = 0 # [1..<length base - BLOCK_SIZE + 1]"
    by (simp add: upt_rec)
  then have "build_index base = fold ?g [1..<length base - BLOCK_SIZE + 1] (?g 0 [])"
    using assms by (simp add: build_index_def)
  moreover have "hget (?g 0 []) (?f 0) = Some [0]" by simp
  ultimately show ?thesis
    using fold_index_keeps [of "?g 0 []" "?f 0" "[0]" ?f "[1..<length base - BLOCK_SIZE + 1]"] by auto
qed

lemma extend_match_self: "len \<le> length base \<Longrightarrow> extend_match base base 0 0 len = length base"
proof (induction "length base - len" arbitrary: len)
  case 0
  then show ?case by (simp add: extend_match.simps [of base base 0 0 len])
next
  case (Suc k)
  then have "len < length base" "k = length base - (len + 1)" by auto
  then show ?case using Suc.hyps(1) [of "len + 1"] by (simp add: extend_match.simps [of base base 0 0 len])
qed

lemma best_match_keep:
  assumes "\<forall>i \<in> set offs. i + BLOCK_SIZE \<le> length base" and "BLOCK_SIZE \<le> length target"
  shows "best_match base target 0 offs (b, length target) = (b, length target)"
  using assms
proof (induction offs)
  case (Cons i offs)
  have "extend_match base target i 0 BLOCK_SIZE \<le> length target"
    if "subslice base i BLOCK_SIZE = subslice target 0 BLOCK_SIZE"
    using extend_match_ok [OF that _ _ refl] Cons.prems by simp
  then show ?case using Cons by (auto simp: Let_def)
qed simp

lemma delta_loop_self:
  assumes "BLOCK_SIZE \<le> length base"
  shows "delta_loop base base (build_index base) 0 [] [] = emit_copy 0 (length base)"
proof -
  obtain offs where offs: "hget (build_index base) (fnv1a (subslice base 0 BLOCK_SIZE)) = Some (0 # offs)"
    using build_index_first [OF assms] by blast
  have "best_match base base 0 (0 # offs) (0, 0) = (0, length base)"
    using extend_match_self [OF assms] best_match_keep [of offs base base 0] build_index_ok [OF offs] assms
    by (auto simp: BLOCK_SIZE_def)
  then have m: "find_match base base (build_index base) 0 = (0, length base)"
    using offs assms by (simp add: find_match_def)
  have "0 < length base" using assms by (simp add: BLOCK_SIZE_def del: length_greater_0_conv)
  then show ?thesis
    using m assms by (simp add: delta_loop.simps flush_inserts.simps)
qed

section \<open>Properties\<close>

text \<open>
  Variable-length integers round-trip: wherever the encoding of a 64-bit value stands in a
  buffer, decoding there returns the value and the position after it.
\<close>

lemma varint_roundtrip:
  assumes "v < 2 ^ 64"
  shows "decode_varint (pre @ encode_varint v @ post) (length pre) = Ok (v, length pre + length (encode_varint v))"
  using assms by (intro varint_codec.dec_enc TrueI)

lemma varint_roundtrip_witness:
  "decode_varint ([9] @ encode_varint 300 @ [7]) 1 = Ok (300, 1 + length (encode_varint 300))"
  using varint_roundtrip [of 300 "[9]" "[7]"] by simp

text \<open>
  C24. Applying a computed delta to its base returns the target, for a base of at most 4 GiB as long
  as one of the two objects is smaller than 16 MiB.
\<close>

theorem delta_roundtrip:
  assumes "copy_bounds base target" and "compute_delta base target = Some d"
  shows "apply_delta base d = Ok target"
  using assms by (rule apply_compute_delta)

theorem delta_roundtrip_witness:
  "\<exists>d. compute_delta (replicate 100 1) (replicate 100 1) = Some d \<and>
       apply_delta (replicate 100 1) d = Ok (replicate 100 1)"
proof -
  let ?b = "replicate 100 1"
  have "delta_loop ?b ?b (build_index ?b) 0 [] [] = emit_copy 0 100"
    using delta_loop_self [of ?b] by (simp add: BLOCK_SIZE_def)
  then have "compute_delta ?b ?b = Some (encode_varint 100 @ encode_varint 100 @ emit_copy 0 100)"
    by (simp add: compute_delta_def BLOCK_SIZE_def THRESHOLD_PERCENT_def Let_def)
      (simp add: encode_varint.simps emit_copy_def copy_field_def)
  moreover have "copy_bounds ?b ?b" by (simp add: copy_bounds_def)
  ultimately show ?thesis using delta_roundtrip by blast
qed

text \<open>
  Beyond that bound the encoder produces deltas that cannot be applied: the delta of a 16 MiB
  object against itself is accepted by the size test, and applying it fails, because the copy
  instruction keeps only 24 bits of the size.
\<close>

lemma delta_large_copy_fails:
  assumes "length base = 2 ^ 24"
  shows "\<exists>d. compute_delta base base = Some d \<and>
     apply_delta base d = Err (ResultSizeMismatch (2 ^ 24) 0x10000)"
proof -
  have block: "BLOCK_SIZE \<le> length base" and ne: "base \<noteq> []"
    using assms by (auto simp: BLOCK_SIZE_def)
  have v: "encode_varint (2 ^ 24) = [0x80, 0x80, 0x80, 0x08]"
    by (simp add: encode_varint.simps)
  have c: "emit_copy 0 (2 ^ 24) = [0x80]"
    by (simp add: emit_copy_def copy_field_def)
  let ?d = "[0x80, 0x80, 0x80, 0x08, 0x80, 0x80, 0x80, 0x08, 0x80] :: bytes"
  have loop: "delta_loop base base (build_index base) 0 [] [] = [0x80]"
    using delta_loop_self [OF block] assms c by simp
  have "compute_delta base base = Some ?d"
    unfolding compute_delta_def loop assms v using ne
    by (simp add: BLOCK_SIZE_def THRESHOLD_PERCENT_def)
  moreover have "decode_varint ?d 0 = Ok (2 ^ 24, 4)" "decode_varint ?d 4 = Ok (2 ^ 24, 8)"
  proof -
    have "decode_varint ?d 0 = Ok (2 ^ 24, 0 + length (encode_varint (2 ^ 24)))"
      by (rule varint_codec.dec_enc_at [where pre = "[]" and post = "[0x80, 0x80, 0x80, 0x08, 0x80]"]) (simp_all add: v [simplified])
    moreover have "decode_varint ?d 4 = Ok (2 ^ 24, 4 + length (encode_varint (2 ^ 24)))"
      by (rule varint_codec.dec_enc_at [where pre = "[0x80, 0x80, 0x80, 0x08]" and post = "[0x80]"]) (simp_all add: v [simplified])
    ultimately show "decode_varint ?d 0 = Ok (2 ^ 24, 4)" "decode_varint ?d 4 = Ok (2 ^ 24, 8)"
      unfolding v by simp_all
  qed
  moreover have "parse_copy 0x80 ?d 9 = Ok ((0, 0x10000), 9)"
    by (simp add: parse_copy_def copy_arg_def)
  then have "apply_loop base ?d 8 [] = Ok (take 0x10000 base)"
    using assms by (simp add: apply_loop.simps Let_def subslice_def)
  ultimately show ?thesis
    using assms by (auto simp: apply_delta_def)
qed

lemma delta_large_copy_fails_witness:
  "\<exists>d. compute_delta (replicate (2 ^ 24) 0) (replicate (2 ^ 24) 0) = Some d \<and>
     apply_delta (replicate (2 ^ 24) 0) d = Err (ResultSizeMismatch (2 ^ 24) 0x10000)"
  by (rule delta_large_copy_fails) (rule length_replicate)

end
