(* ===== verification/Bundle.thy ===== *)
theory Bundle
  imports Delta "HOL-Library.Multiset"
begin

unbundle bit_operations_syntax

text \<open>
  The bundle wire format (\<open>kappa-core/src/bundle.rs\<close>): bulk transfer of objects, whole or as deltas
  against earlier objects of the bundle, with a SHA-256 trailer. The lemmas show that every decoded
  entry has been verified against its label, that an encoded bundle decodes to the objects that were
  encoded, with and without deltas, and where the decoder can be made to panic.
\<close>

section \<open>Definitions\<close>

definition MAGIC :: bytes where
  "MAGIC = str_bytes ''KBND''"

definition VERSION :: byte where
  "VERSION = 1"

definition ENTRY_TYPE_FULL :: byte where
  "ENTRY_TYPE_FULL = 0x01"

definition ENTRY_TYPE_DELTA :: byte where
  "ENTRY_TYPE_DELTA = 0x02"

definition FLAG_HAS_DELTAS :: byte where
  "FLAG_HAS_DELTAS = 0x01"

definition DELTA_WINDOW_SIZE :: nat where
  "DELTA_WINDOW_SIZE = 10"

definition DECODE_MAX_BYTES :: nat where
  "DECODE_MAX_BYTES = 268435456"

datatype BundleError =
    BundleTruncated string
  | TrailerMismatch
  | KappaMismatch string
  | DeltaInNoDeltaBundle
  | DecodeLimitExceeded
  | UnsupportedEntryType byte
  | UnresolvableBase string
  | DeltaErr DeltaError
  | LabelErr LabelError
  | Invalid string

type_synonym base_resolver = "(string \<Rightarrow> bytes option) option"

record BundleEntry =
  be_kappa :: string
  be_content :: bytes

type_synonym objects = "(string \<times> bytes) list"

subsection \<open>Encoder\<close>

definition enc_kappa_field :: "string \<Rightarrow> bytes" where
  "enc_kappa_field k = be_bytes 2 (length (str_bytes k)) @ str_bytes k"

definition enc_content_field :: "bytes \<Rightarrow> bytes" where
  "enc_content_field c = be_bytes 8 (length c) @ c"

definition encode_full_only :: "('x) hashes_scheme \<Rightarrow> objects \<Rightarrow> bytes" where
  "encode_full_only H objects =
     (let out = MAGIC @ [VERSION, 0x00] @ be_bytes 4 (length objects) @
            concat (map (\<lambda>(kappa, content).
              ENTRY_TYPE_FULL # enc_kappa_field kappa @ enc_content_field content) objects)
      in out @ sha256_digest H out)"

record EntryPlan =
  ep_kappa :: string
  ep_content :: bytes
  ep_delta_base :: "(nat \<times> bytes) option"

definition pick_delta :: "objects \<Rightarrow> nat \<Rightarrow> bytes \<Rightarrow> (nat \<times> bytes) option" where
  "pick_delta indexed idx content =
     foldl (\<lambda>best ci.
        case compute_delta (snd (indexed ! ci)) content of
          None \<Rightarrow> best
        | Some d \<Rightarrow>
            (case best of
               None \<Rightarrow> Some (ci, d)
             | Some (_, prev) \<Rightarrow> if length d < length prev then Some (ci, d) else best))
       None [idx - DELTA_WINDOW_SIZE..<idx]"

definition make_plans :: "objects \<Rightarrow> EntryPlan list" where
  "make_plans indexed =
     map (\<lambda>idx. \<lparr>ep_kappa = fst (indexed ! idx), ep_content = snd (indexed ! idx),
                ep_delta_base = pick_delta indexed idx (snd (indexed ! idx))\<rparr>) [0..<length indexed]"

text \<open>
  The emission order: entries without a base, then rounds over the rest that emit an entry once its
  base is emitted, until a round makes no progress, then whatever is left.
\<close>

type_synonym order_state = "nat list \<times> bool list \<times> bool"

fun order_pass :: "EntryPlan list \<Rightarrow> nat list \<Rightarrow> order_state \<Rightarrow> order_state" where
  "order_pass plans [] st = st"
| "order_pass plans (i # is) (order, emitted, progress) =
     (if emitted ! i then order_pass plans is (order, emitted, progress)
      else case ep_delta_base (plans ! i) of
        Some (base_idx, _) \<Rightarrow>
          if emitted ! base_idx then order_pass plans is (order @ [i], emitted[i := True], True)
          else order_pass plans is (order, emitted, progress)
      | None \<Rightarrow> order_pass plans is (order, emitted, progress))"

fun order_loop :: "EntryPlan list \<Rightarrow> nat \<Rightarrow> nat list \<times> bool list \<Rightarrow> nat list \<times> bool list" where
  "order_loop plans 0 st = st"
| "order_loop plans (Suc n) (order, emitted) =
     (let (order', emitted', progress) = order_pass plans [0..<length plans] (order, emitted, False)
      in if progress then order_loop plans n (order', emitted') else (order', emitted'))"

definition emit_order :: "EntryPlan list \<Rightarrow> nat list \<times> bool list" where
  "emit_order plans =
     (let emitted = map (\<lambda>p. ep_delta_base p = None) plans;
          order = filter (\<lambda>i. ep_delta_base (plans ! i) = None) [0..<length plans];
          (order', emitted') = order_loop plans (length plans) (order, emitted)
      in (order' @ filter (\<lambda>i. \<not> emitted' ! i) [0..<length plans], emitted'))"

definition encode_entry :: "EntryPlan list \<Rightarrow> bool list \<Rightarrow> nat \<Rightarrow> bytes" where
  "encode_entry plans emitted idx =
     (let plan = plans ! idx;
          full = ENTRY_TYPE_FULL # enc_kappa_field (ep_kappa plan) @ enc_content_field (ep_content plan)
      in case ep_delta_base plan of
           Some (base_idx, delta_bytes) \<Rightarrow>
             if emitted ! base_idx then
               ENTRY_TYPE_DELTA # enc_kappa_field (ep_kappa plan) @
                 enc_kappa_field (ep_kappa (plans ! base_idx)) @ enc_content_field delta_bytes
             else full
         | None \<Rightarrow> full)"

definition encode :: "('x) hashes_scheme \<Rightarrow> objects \<Rightarrow> bool \<Rightarrow> bytes" where
  "encode H objects use_deltas =
     (if \<not> use_deltas \<or> length objects < 2 then encode_full_only H objects
      else (let indexed = sort_key (\<lambda>(_, c). - int (length c)) objects;
                plans = make_plans indexed;
                (order, emitted) = emit_order plans;
                flags = (if list_ex (\<lambda>p. ep_delta_base p \<noteq> None) plans then FLAG_HAS_DELTAS else 0x00);
                out = MAGIC @ [VERSION, flags] @ be_bytes 4 (length plans) @
                        concat (map (encode_entry plans emitted) order)
            in out @ sha256_digest H out))"

subsection \<open>Decoder\<close>

definition parse_kappa_field :: "bytes \<Rightarrow> nat \<Rightarrow> (string \<times> nat, BundleError) result" where
  "parse_kappa_field p pos =
     (if pos + 2 > length p then Err (BundleTruncated ''kappa length'')
      else (let kl = be_val (take 2 (drop pos p)); pos = pos + 2 in
            if pos + kl > length p then Err (BundleTruncated ''kappa'')
            else rbind (ok_or (Invalid ''kappa not UTF-8'') (from_utf8 (take kl (drop pos p)))) (\<lambda>k.
                 Ok (k, pos + kl))))"

text \<open>
  The content length is a 64-bit value from the wire and \<open>*pos + cl\<close> is 64-bit arithmetic: it wraps,
  and a slice whose end lies before its start panics.
\<close>

definition parse_content_field :: "bytes \<Rightarrow> nat \<Rightarrow> (bytes \<times> nat, BundleError) result" where
  "parse_content_field p pos =
     (if pos + 8 > length p then Err (BundleTruncated ''content length'')
      else (let cl = be_val (take 8 (drop pos p)); pos = pos + 8; fin = (pos + cl) mod 2 ^ 64 in
            if fin > length p then Err (BundleTruncated ''content'')
            else if fin < pos then Panic
            else Ok (take (fin - pos) (drop pos p), fin)))"

definition parse_full_entry :: "bytes \<Rightarrow> nat \<Rightarrow> ((string \<times> bytes) \<times> nat, BundleError) result" where
  "parse_full_entry p pos =
     rbind (parse_kappa_field p pos) (\<lambda>(kappa, pos).
     rbind (parse_content_field p pos) (\<lambda>(content, pos). Ok ((kappa, content), pos)))"

definition parse_delta_entry :: "bytes \<Rightarrow> nat \<Rightarrow> ((string \<times> string \<times> bytes) \<times> nat, BundleError) result" where
  "parse_delta_entry p pos =
     rbind (parse_kappa_field p pos) (\<lambda>(kappa, pos).
     rbind (parse_kappa_field p pos) (\<lambda>(base_kappa, pos).
     rbind (parse_content_field p pos) (\<lambda>(delta_bytes, pos). Ok ((kappa, base_kappa, delta_bytes), pos))))"

definition verify_entry_kappa :: "('x) hashes_scheme \<Rightarrow> string \<Rightarrow> bytes \<Rightarrow> (unit, BundleError) result" where
  "verify_entry_kappa H kappa content =
     (case verify_kappa H kappa content of
        Ok True \<Rightarrow> Ok ()
      | Ok False \<Rightarrow> Err (KappaMismatch kappa)
      | Err e \<Rightarrow> Err (LabelErr e)
      | Panic \<Rightarrow> Panic)"

text \<open>The state of the entry loop: the index of decoded contents and the bytes decoded so far.\<close>

type_synonym dec_state = "(string, bytes) hmap \<times> nat"

definition accept_entry ::
  "('x) hashes_scheme \<Rightarrow> string \<Rightarrow> bytes \<Rightarrow> dec_state \<Rightarrow> (BundleEntry \<times> dec_state, BundleError) result" where
  "accept_entry H kappa content = (\<lambda>(index, total_bytes).
     let total_bytes = min (2 ^ 64 - 1) (total_bytes + length content) in
     if total_bytes > DECODE_MAX_BYTES then Err DecodeLimitExceeded
     else rbind (verify_entry_kappa H kappa content) (\<lambda>_.
          Ok (\<lparr>be_kappa = kappa, be_content = content\<rparr>, hput kappa content index, total_bytes)))"

definition decode_entry ::
  "('x) hashes_scheme \<Rightarrow> base_resolver \<Rightarrow> byte \<Rightarrow> bytes \<Rightarrow> nat \<Rightarrow> dec_state \<Rightarrow>
   ((BundleEntry \<times> dec_state) \<times> nat, BundleError) result" where
  "decode_entry H resolve_base flags payload pos st =
     (if length payload \<le> pos then Err (BundleTruncated ''entry'')
      else (let entry_type = payload ! pos; pos = pos + 1 in
            if entry_type = ENTRY_TYPE_FULL then
              rbind (parse_full_entry payload pos) (\<lambda>((kappa, content), pos).
              rbind (accept_entry H kappa content st) (\<lambda>r. Ok (r, pos)))
            else if entry_type = ENTRY_TYPE_DELTA then
              (if flags AND FLAG_HAS_DELTAS = 0 then Err DeltaInNoDeltaBundle
               else
                rbind (parse_delta_entry payload pos) (\<lambda>((kappa, base_kappa, delta_bytes), pos).
                rbind (ok_or (UnresolvableBase base_kappa)
                        (case hget (fst st) base_kappa of
                           Some b \<Rightarrow> Some b
                         | None \<Rightarrow> Option.bind resolve_base (\<lambda>f. f base_kappa))) (\<lambda>base.
                rbind (map_err DeltaErr (apply_delta base delta_bytes)) (\<lambda>content.
                rbind (accept_entry H kappa content st) (\<lambda>r. Ok (r, pos))))))
            else Err (UnsupportedEntryType entry_type)))"

fun decode_entries ::
  "('x) hashes_scheme \<Rightarrow> base_resolver \<Rightarrow> byte \<Rightarrow> bytes \<Rightarrow> nat \<Rightarrow> nat \<Rightarrow> dec_state \<Rightarrow>
   (BundleEntry list, BundleError) result" where
  "decode_entries H resolve_base flags payload 0 pos st = Ok []"
| "decode_entries H resolve_base flags payload (Suc n) pos st =
     rbind (decode_entry H resolve_base flags payload pos st) (\<lambda>((entry, st'), pos').
     rbind (decode_entries H resolve_base flags payload n pos' st') (\<lambda>rest.
     Ok (entry # rest)))"

definition decode ::
  "('x) hashes_scheme \<Rightarrow> bytes \<Rightarrow> base_resolver \<Rightarrow> (BundleEntry list, BundleError) result" where
  "decode H data resolve_base =
     (if length data < 10 + 32 then Err (BundleTruncated ''header+trailer'')
      else (let payload = take (length data - 32) data; trailer = drop (length data - 32) data in
            if sha256_digest H payload \<noteq> trailer then Err TrailerMismatch
            else if take 4 data \<noteq> MAGIC then Err (Invalid ''bad bundle magic'')
            else if data ! 4 \<noteq> VERSION then Err (Invalid ''unsupported bundle version'')
            else (let flags = data ! 5; entry_count = be_val (take 4 (drop 6 data)) in
                  decode_entries H resolve_base flags payload entry_count 10 ([], 0))))"

section \<open>Field codecs\<close>

definition in_memory :: "nat \<Rightarrow> bool" where
  "in_memory n \<longleftrightarrow> n < 2 ^ 63"

interpretation kappa_codec: pos_codec enc_kappa_field parse_kappa_field
  "\<lambda>k. length k < 2 ^ 16 \<and> utf8_valid (str_bytes k)" in_memory
  by unfold_locales (simp add: enc_kappa_field_def parse_kappa_field_def Let_def from_utf8_valid)

interpretation content_codec: pos_codec enc_content_field parse_content_field "\<lambda>_. True" in_memory
  by unfold_locales
    (simp add: enc_content_field_def parse_content_field_def Let_def in_memory_def)

interpretation full_codec: pos_codec2 enc_kappa_field parse_kappa_field
  "\<lambda>k. length k < 2 ^ 16 \<and> utf8_valid (str_bytes k)" enc_content_field parse_content_field "\<lambda>_. True" in_memory
  by unfold_locales

interpretation delta_codec: pos_codec2 enc_kappa_field parse_kappa_field
  "\<lambda>k. length k < 2 ^ 16 \<and> utf8_valid (str_bytes k)"
  "seq_enc enc_kappa_field enc_content_field" "seq_dec parse_kappa_field parse_content_field"
  "\<lambda>(k, _). (length k < 2 ^ 16 \<and> utf8_valid (str_bytes k)) \<and> True" in_memory
  using full_codec.pair.pos_codec_axioms kappa_codec.pos_codec_axioms by (intro pos_codec2.intro)

lemma parse_full_entry_seq: "parse_full_entry = seq_dec parse_kappa_field parse_content_field"
  by (simp add: parse_full_entry_def seq_dec_def fun_eq_iff)

lemma parse_delta_entry_seq:
  "parse_delta_entry = seq_dec parse_kappa_field (seq_dec parse_kappa_field parse_content_field)"
  by (intro ext) (simp add: parse_delta_entry_def seq_dec_def rbind_assoc case_prod_unfold)

section \<open>Every decoded entry is verified\<close>

lemma verify_entry_kappa_Ok [simp]:
  "verify_entry_kappa H k c = Ok u \<longleftrightarrow> verify_kappa H k c = Ok True"
  by (auto simp: verify_entry_kappa_def split: result.splits bool.splits)

lemma accept_entry_Ok:
  "accept_entry H k c (index, tot) = Ok (e, index', tot') \<longleftrightarrow>
     tot + length c \<le> DECODE_MAX_BYTES \<and> verify_kappa H k c = Ok True \<and>
     e = \<lparr>be_kappa = k, be_content = c\<rparr> \<and> index' = hput k c index \<and> tot' = tot + length c"
  by (auto simp: accept_entry_def Let_def DECODE_MAX_BYTES_def)

lemma decode_entry_OkD:
  assumes "decode_entry H r flags p pos (index, tot) = Ok ((e, index', tot'), pos')"
  shows "verify_kappa H (be_kappa e) (be_content e) = Ok True \<and> tot' = tot + length (be_content e) \<and>
     tot' \<le> DECODE_MAX_BYTES"
  using assms by (auto simp: decode_entry_def Let_def accept_entry_Ok split: if_splits)

lemma decode_entries_OkD:
  "decode_entries H r flags p n pos (index, tot) = Ok es \<Longrightarrow>
   length es = n \<and> (\<forall>e \<in> set es. verify_kappa H (be_kappa e) (be_content e) = Ok True) \<and>
   (n = 0 \<or> tot + sum_list (map (length \<circ> be_content) es) \<le> DECODE_MAX_BYTES)"
proof (induction n arbitrary: pos index tot es)
  case 0
  then show ?case by simp
next
  case (Suc n)
  from Suc.prems obtain e index' tot' pos' rest where
    step: "decode_entry H r flags p pos (index, tot) = Ok ((e, index', tot'), pos')"
    and rest: "decode_entries H r flags p n pos' (index', tot') = Ok rest" "es = e # rest"
    by auto
  from decode_entry_OkD [OF step] Suc.IH [OF rest(1)] rest show ?case by auto
qed

section \<open>The emission order\<close>

definition plans_ok :: "EntryPlan list \<Rightarrow> bool" where
  "plans_ok plans \<longleftrightarrow>
     (\<forall>i < length plans. \<forall>b d. ep_delta_base (plans ! i) = Some (b, d) \<longrightarrow>
        b < i \<and> compute_delta (ep_content (plans ! b)) (ep_content (plans ! i)) = Some d)"

lemma pick_delta_fold:
  assumes "foldl (\<lambda>best ci.
        case compute_delta (snd (indexed ! ci)) content of
          None \<Rightarrow> best
        | Some d \<Rightarrow>
            (case best of
               None \<Rightarrow> Some (ci, d)
             | Some (_, prev) \<Rightarrow> if length d < length prev then Some (ci, d) else best)) best cs = Some (b, d)"
    and "best = Some (b, d) \<Longrightarrow> P b d"
    and "\<And>ci d. ci \<in> set cs \<Longrightarrow> compute_delta (snd (indexed ! ci)) content = Some d \<Longrightarrow> P ci d"
  shows "P b d"
  using assms
proof (induction cs arbitrary: best)
  case Nil
  then show ?case by simp
next
  case (Cons c cs)
  let ?best = "case compute_delta (snd (indexed ! c)) content of
          None \<Rightarrow> best
        | Some d \<Rightarrow>
            (case best of
               None \<Rightarrow> Some (c, d)
             | Some (_, prev) \<Rightarrow> if length d < length prev then Some (c, d) else best)"
  show ?case
  proof (rule Cons.IH [of ?best])
    show "P b d" if "?best = Some (b, d)"
      using that Cons.prems(2,3) by (auto split: option.splits if_splits)
  qed (use Cons.prems in auto)
qed

lemma plans_ok_make: "plans_ok (make_plans indexed)"
  unfolding plans_ok_def
proof (intro allI impI)
  fix i b d
  assume i: "i < length (make_plans indexed)" and b: "ep_delta_base (make_plans indexed ! i) = Some (b, d)"
  have li: "i < length indexed" using i by (simp add: make_plans_def)
  have pd: "pick_delta indexed i (snd (indexed ! i)) = Some (b, d)"
    using b li by (simp add: make_plans_def)
  have "b < i \<and> compute_delta (snd (indexed ! b)) (snd (indexed ! i)) = Some d"
    using pd unfolding pick_delta_def by (rule pick_delta_fold) auto
  then show "b < i \<and> compute_delta (ep_content (make_plans indexed ! b)) (ep_content (make_plans indexed ! i)) = Some d"
    using li by (auto simp: make_plans_def)
qed

lemma order_pass_all:
  assumes "plans_ok plans" and "length emitted = length plans" and "k \<le> length plans"
    and "\<forall>i < k. emitted ! i"
    and "\<forall>i < length plans. emitted ! i \<or> ep_delta_base (plans ! i) \<noteq> None"
  shows "order_pass plans [k..<length plans] (order, emitted, p) =
     (order @ filter (\<lambda>i. \<not> emitted ! i) [k..<length plans], replicate (length plans) True,
      p \<or> (\<exists>i \<in> {k..<length plans}. \<not> emitted ! i))"
  using assms(2-5)
proof (induction "length plans - k" arbitrary: k emitted order p)
  case 0
  then have "emitted = replicate (length plans) True"
    by (intro nth_equalityI) auto
  then show ?case using 0 by simp
next
  case (Suc n)
  then have k: "k < length plans" and upt: "[k..<length plans] = k # [Suc k..<length plans]"
    by (auto simp: upt_conv_Cons)
  show ?case
  proof (cases "emitted ! k")
    case True
    have "order_pass plans [Suc k..<length plans] (order, emitted, p) =
       (order @ filter (\<lambda>i. \<not> emitted ! i) [Suc k..<length plans], replicate (length plans) True,
        p \<or> (\<exists>i \<in> {Suc k..<length plans}. \<not> emitted ! i))"
      using Suc k True by (intro Suc.hyps(1)) (auto simp: less_Suc_eq)
    moreover have "(\<exists>i \<in> {k..<length plans}. \<not> emitted ! i) \<longleftrightarrow> (\<exists>i \<in> {Suc k..<length plans}. \<not> emitted ! i)"
    proof -
      have "i \<in> {Suc k..<length plans}" if "i \<in> {k..<length plans}" "\<not> emitted ! i" for i
        using that True by (cases "i = k") auto
      then show ?thesis by fastforce
    qed
    ultimately show ?thesis using True upt by simp
  next
    case False
    then obtain b d where b: "ep_delta_base (plans ! k) = Some (b, d)" using Suc.prems k by fastforce
    then have "b < k" using assms(1) k by (auto simp: plans_ok_def)
    then have eb: "emitted ! b" using Suc.prems by blast
    let ?em = "emitted[k := True]"
    have "order_pass plans [Suc k..<length plans] (order @ [k], ?em, True) =
       ((order @ [k]) @ filter (\<lambda>i. \<not> ?em ! i) [Suc k..<length plans], replicate (length plans) True,
        True \<or> (\<exists>i \<in> {Suc k..<length plans}. \<not> ?em ! i))"
      using Suc k by (intro Suc.hyps(1)) (auto simp: less_Suc_eq nth_list_update)
    moreover have "filter (\<lambda>i. \<not> ?em ! i) [Suc k..<length plans] = filter (\<lambda>i. \<not> emitted ! i) [Suc k..<length plans]"
      by (rule filter_cong) auto
    ultimately show ?thesis
      using False b eb upt k by auto
  qed
qed

lemma order_loop_all:
  assumes "plans_ok plans" and "length emitted = length plans"
    and "\<forall>i < length plans. emitted ! i \<or> ep_delta_base (plans ! i) \<noteq> None" and "0 < n"
  shows "order_loop plans n (order, emitted) =
     (order @ filter (\<lambda>i. \<not> emitted ! i) [0..<length plans], replicate (length plans) True)"
  using assms(2-4)
proof (induction n arbitrary: order emitted)
  case (Suc n)
  have pass: "order_pass plans [0..<length plans] (order, emitted, False) =
     (order @ filter (\<lambda>i. \<not> emitted ! i) [0..<length plans], replicate (length plans) True,
      False \<or> (\<exists>i \<in> {0..<length plans}. \<not> emitted ! i))"
    using Suc.prems by (intro order_pass_all assms(1)) auto
  show ?case
  proof (cases n)
    case 0
    then show ?thesis using pass by simp
  next
    case (Suc m)
    have "order_loop plans n (order', replicate (length plans) True) = (order', replicate (length plans) True)" for order'
      using Suc.IH [of "replicate (length plans) True" order'] Suc by simp
    then show ?thesis using pass by simp
  qed
qed simp

lemma emit_order_eq:
  assumes "plans_ok plans"
  shows "emit_order plans =
     (filter (\<lambda>i. ep_delta_base (plans ! i) = None) [0..<length plans] @
      filter (\<lambda>i. ep_delta_base (plans ! i) \<noteq> None) [0..<length plans], replicate (length plans) True)"
proof (cases "plans = []")
  case True
  then show ?thesis by (simp add: emit_order_def)
next
  case False
  let ?em = "map (\<lambda>p. ep_delta_base p = None) plans"
  have "order_loop plans (length plans) (order, ?em) =
     (order @ filter (\<lambda>i. \<not> ?em ! i) [0..<length plans], replicate (length plans) True)" for order
    using assms False by (intro order_loop_all) (simp_all del: not_None_eq)
  moreover have "filter (\<lambda>i. \<not> ?em ! i) [0..<length plans] =
      filter (\<lambda>i. ep_delta_base (plans ! i) \<noteq> None) [0..<length plans]"
    by (rule filter_cong) auto
  moreover have "filter (\<lambda>i. \<not> replicate (length plans) True ! i) [0..<length plans] = []"
    by (simp add: filter_empty_conv)
  ultimately show ?thesis by (simp add: emit_order_def Let_def)
qed

text \<open>Every entry comes after its base: \<open>closed\<close> follows the order with the set of emitted entries.\<close>

fun closed :: "EntryPlan list \<Rightarrow> nat set \<Rightarrow> nat list \<Rightarrow> bool" where
  "closed plans D [] \<longleftrightarrow> True"
| "closed plans D (i # is) \<longleftrightarrow>
     (\<forall>b d. ep_delta_base (plans ! i) = Some (b, d) \<longrightarrow> b \<in> D) \<and> closed plans (insert i D) is"

lemma closed_append: "closed plans D (xs @ ys) \<longleftrightarrow> closed plans D xs \<and> closed plans (D \<union> set xs) ys"
  by (induction xs arbitrary: D) auto

lemma closed_full: "\<forall>i \<in> set is. ep_delta_base (plans ! i) = None \<Longrightarrow> closed plans D is"
  by (induction "is" arbitrary: D) auto

lemma closed_deltas:
  assumes "plans_ok plans" and "\<forall>i < length plans. i < k \<or> ep_delta_base (plans ! i) = None \<longrightarrow> i \<in> D"
  shows "closed plans D (filter (\<lambda>i. ep_delta_base (plans ! i) \<noteq> None) [k..<length plans])"
  using assms(2)
proof (induction "length plans - k" arbitrary: k D)
  case 0
  then show ?case by simp
next
  case (Suc n)
  then have k: "k < length plans" and upt: "[k..<length plans] = k # [Suc k..<length plans]"
    by (auto simp: upt_conv_Cons)
  show ?case
  proof (cases "ep_delta_base (plans ! k)")
    case None
    have "closed plans D (filter (\<lambda>i. ep_delta_base (plans ! i) \<noteq> None) [Suc k..<length plans])"
      using Suc None by (intro Suc.hyps(1)) (auto simp: less_Suc_eq)
    then show ?thesis using None upt by simp
  next
    case (Some bd)
    have "closed plans (insert k D) (filter (\<lambda>i. ep_delta_base (plans ! i) \<noteq> None) [Suc k..<length plans])"
      using Suc by (intro Suc.hyps(1)) (auto simp: less_Suc_eq)
    moreover have "b \<in> D" if "ep_delta_base (plans ! k) = Some (b, d)" for b d
    proof -
      have "b < k" using assms(1) k that by (auto simp: plans_ok_def)
      then show ?thesis using Suc.prems k by auto
    qed
    ultimately show ?thesis using Some upt by auto
  qed
qed

lemma closed_order:
  assumes "plans_ok plans"
  shows "closed plans {} (filter (\<lambda>i. ep_delta_base (plans ! i) = None) [0..<length plans] @
      filter (\<lambda>i. ep_delta_base (plans ! i) \<noteq> None) [0..<length plans])"
  unfolding closed_append by (intro conjI closed_full closed_deltas assms) auto

section \<open>Decoding an encoded bundle\<close>

lemma verified_kappa_wire:
  assumes "hashes_ok H" and "verify_kappa H k c = Ok True"
  shows "length k < 2 ^ 16 \<and> utf8_valid (str_bytes k)"
proof -
  obtain a where k: "k = kappa_text H a c"
    using assms verify_kappa_Ok_True by blast
  have len: "length k \<le> 135"
    using assms(1) label_len_bounds [of a] by (simp add: k length_kappa_text)
  have "label_parse k = Ok (mk_label (str_bytes k))"
    using assms(1) by (simp add: k label_parse_kappa_text)
  then have wf: "label_wf (mk_label (str_bytes k))" by (rule label_parse_wf)
  have "unat (of_nat (length k) :: byte) = length k"
    using len by (simp add: unat_of_nat take_bit_eq_mod)
  then have "take (unat (kl_len (mk_label (str_bytes k)))) (kl_buf (mk_label (str_bytes k))) = str_bytes k"
    by (simp add: mk_label_def)
  then have "\<forall>b \<in> set (str_bytes k). b < 128"
    using label_wf_ascii [OF wf] by simp
  then have "\<forall>b \<in> set (str_bytes k). b \<le> 0x7F"
    by (auto simp: word_less_nat_alt word_le_nat_alt)
  then show ?thesis using len utf8_valid_ascii by auto
qed

lemma decode_full_at:
  assumes H: "hashes_ok H" and v: "verify_kappa H k c = Ok True"
    and p: "p = pre @ (ENTRY_TYPE_FULL # enc_kappa_field k @ enc_content_field c) @ post"
    and m: "in_memory (length p)" and t: "tot + length c \<le> DECODE_MAX_BYTES"
  shows "decode_entry H r flags p (length pre) (index, tot) =
     Ok ((\<lparr>be_kappa = k, be_content = c\<rparr>, hput k c index, tot + length c),
         length pre + length (ENTRY_TYPE_FULL # enc_kappa_field k @ enc_content_field c))"
proof -
  have "parse_full_entry p (length (pre @ [ENTRY_TYPE_FULL])) =
      Ok ((k, c), length (pre @ [ENTRY_TYPE_FULL]) + length (seq_enc enc_kappa_field enc_content_field (k, c)))"
    unfolding parse_full_entry_seq
    by (rule full_codec.pair.dec_enc_at [where pre = "pre @ [ENTRY_TYPE_FULL]" and post = post])
      (use verified_kappa_wire [OF H v] m p in \<open>simp_all add: seq_enc_def\<close>)
  moreover have "accept_entry H k c (index, tot) = Ok (\<lparr>be_kappa = k, be_content = c\<rparr>, hput k c index, tot + length c)"
    using v t by (simp add: accept_entry_Ok)
  moreover have "p ! length pre = ENTRY_TYPE_FULL" "length pre < length p"
    by (simp_all add: p)
  ultimately show ?thesis
    by (simp add: decode_entry_def Let_def seq_enc_def)
qed

lemma decode_delta_at:
  assumes H: "hashes_ok H" and v: "verify_kappa H k c = Ok True" and bv: "verify_kappa H bk base = Ok True"
    and p: "p = pre @ (ENTRY_TYPE_DELTA # enc_kappa_field k @ enc_kappa_field bk @ enc_content_field d) @ post"
    and m: "in_memory (length p)" and t: "tot + length c \<le> DECODE_MAX_BYTES"
    and fl: "flags AND FLAG_HAS_DELTAS \<noteq> 0" and b: "hget index bk = Some base"
    and d: "compute_delta base c = Some d" "copy_bounds base c"
  shows "decode_entry H r flags p (length pre) (index, tot) =
     Ok ((\<lparr>be_kappa = k, be_content = c\<rparr>, hput k c index, tot + length c),
         length pre + length (ENTRY_TYPE_DELTA # enc_kappa_field k @ enc_kappa_field bk @ enc_content_field d))"
proof -
  have "parse_delta_entry p (length (pre @ [ENTRY_TYPE_DELTA])) =
      Ok ((k, bk, d), length (pre @ [ENTRY_TYPE_DELTA]) +
        length (seq_enc enc_kappa_field (seq_enc enc_kappa_field enc_content_field) (k, bk, d)))"
    unfolding parse_delta_entry_seq
    by (rule delta_codec.pair.dec_enc_at [where pre = "pre @ [ENTRY_TYPE_DELTA]" and post = post])
      (use verified_kappa_wire [OF H v] verified_kappa_wire [OF H bv] m p in \<open>simp_all add: seq_enc_def\<close>)
  moreover have "accept_entry H k c (index, tot) = Ok (\<lparr>be_kappa = k, be_content = c\<rparr>, hput k c index, tot + length c)"
    using v t by (simp add: accept_entry_Ok)
  moreover have "p ! length pre = ENTRY_TYPE_DELTA" "length pre < length p"
    by (simp_all add: p)
  moreover have "apply_delta base d = Ok c" using d by (intro apply_compute_delta)
  moreover have "ENTRY_TYPE_DELTA \<noteq> ENTRY_TYPE_FULL" by (simp add: ENTRY_TYPE_DELTA_def ENTRY_TYPE_FULL_def)
  ultimately show ?thesis
    using fl b by (simp add: decode_entry_def Let_def seq_enc_def)
qed

definition plan_entry :: "EntryPlan \<Rightarrow> BundleEntry" where
  "plan_entry p = \<lparr>be_kappa = ep_kappa p, be_content = ep_content p\<rparr>"

text \<open>What the objects of a bundle have to satisfy, and a plan for them.\<close>

definition bundle_ok :: "('x) hashes_scheme \<Rightarrow> objects \<Rightarrow> bool" where
  "bundle_ok H objs \<longleftrightarrow>
     (\<forall>(k, c) \<in> set objs. verify_kappa H k c = Ok True \<and> length c < 2 ^ 24) \<and>
     (\<forall>(k, c) \<in> set objs. \<forall>(k', c') \<in> set objs. k = k' \<longrightarrow> c = c') \<and>
     sum_list (map (length \<circ> snd) objs) \<le> DECODE_MAX_BYTES \<and> length objs < 2 ^ 32"

definition plan_objs :: "EntryPlan list \<Rightarrow> objects" where
  "plan_objs plans = map (\<lambda>p. (ep_kappa p, ep_content p)) plans"

lemma decode_entries_order:
  assumes H: "hashes_ok H" and ok: "plans_ok plans" and b: "bundle_ok H (plan_objs plans)"
    and fl: "(\<exists>i < length plans. ep_delta_base (plans ! i) \<noteq> None) \<longrightarrow> flags AND FLAG_HAS_DELTAS \<noteq> 0"
    and "set is \<subseteq> {..<length plans}" and "D \<subseteq> {..<length plans}" and "closed plans D is"
    and "\<forall>i \<in> D. hget index (ep_kappa (plans ! i)) = Some (ep_content (plans ! i))"
    and "tot + sum_list (map (\<lambda>i. length (ep_content (plans ! i))) is) \<le> DECODE_MAX_BYTES"
    and "p = pre @ concat (map (encode_entry plans (replicate (length plans) True)) is)"
    and "in_memory (length p)"
  shows "decode_entries H r flags p (length is) (length pre) (index, tot) =
     Ok (map (\<lambda>i. plan_entry (plans ! i)) is)"
  using assms(5-)
proof (induction "is" arbitrary: D index tot pre)
  case Nil
  then show ?case by simp
next
  case (Cons i "is")
  let ?k = "ep_kappa (plans ! i)" and ?c = "ep_content (plans ! i)"
  let ?e = "encode_entry plans (replicate (length plans) True) i"
  let ?post = "concat (map (encode_entry plans (replicate (length plans) True)) is)"
  have mem: "(ep_kappa (plans ! j), ep_content (plans ! j)) \<in> set (plan_objs plans)" if "j < length plans" for j
    using that by (force simp: plan_objs_def)
  have i: "i < length plans" using Cons.prems by simp
  have ver: "verify_kappa H (ep_kappa (plans ! j)) (ep_content (plans ! j)) = Ok True"
    and small: "length (ep_content (plans ! j)) < 2 ^ 24" if "j < length plans" for j
    using b mem [OF that] by (auto simp: bundle_ok_def)
  have fun_k: "ep_content (plans ! j) = ?c" if "j < length plans" "ep_kappa (plans ! j) = ?k" for j
    using b mem [OF that(1)] mem [OF i] that(2) unfolding bundle_ok_def by fastforce
  have p: "p = pre @ ?e @ ?post" using Cons.prems by simp
  have tot: "tot + length ?c \<le> DECODE_MAX_BYTES" using Cons.prems by simp
  have step: "decode_entry H r flags p (length pre) (index, tot) =
      Ok ((plan_entry (plans ! i), hput ?k ?c index, tot + length ?c), length (pre @ ?e))"
  proof (cases "ep_delta_base (plans ! i)")
    case None
    then have e: "?e = ENTRY_TYPE_FULL # enc_kappa_field ?k @ enc_content_field ?c"
      by (simp add: encode_entry_def Let_def)
    show ?thesis
      using decode_full_at [OF H ver [OF i] p [unfolded e] _ tot] Cons.prems e by (simp add: plan_entry_def)
  next
    case (Some bd)
    obtain j d where j: "ep_delta_base (plans ! i) = Some (j, d)" using Some by (cases bd) auto
    then have ji: "j < i" and cd: "compute_delta (ep_content (plans ! j)) ?c = Some d"
      using ok i by (auto simp: plans_ok_def)
    have jl: "j < length plans" using ji i by simp
    have e: "?e = ENTRY_TYPE_DELTA # enc_kappa_field ?k @ enc_kappa_field (ep_kappa (plans ! j)) @ enc_content_field d"
      using j jl by (simp add: encode_entry_def Let_def)
    have base: "hget index (ep_kappa (plans ! j)) = Some (ep_content (plans ! j))"
      using Cons.prems j by auto
    have "copy_bounds (ep_content (plans ! j)) ?c"
      using small [OF i] small [OF jl] by (simp add: copy_bounds_def)
    moreover have "flags AND FLAG_HAS_DELTAS \<noteq> 0" using fl i Some by blast
    ultimately show ?thesis
      using decode_delta_at [OF H ver [OF i] ver [OF jl] p [unfolded e] _ tot _ base cd] Cons.prems e
      by (simp add: plan_entry_def)
  qed
  have "decode_entries H r flags p (length is) (length (pre @ ?e)) (hput ?k ?c index, tot + length ?c) =
      Ok (map (\<lambda>i. plan_entry (plans ! i)) is)"
  proof (rule Cons.IH [of "insert i D"])
    show "set is \<subseteq> {..<length plans}" "insert i D \<subseteq> {..<length plans}" "closed plans (insert i D) is"
      using Cons.prems(1-3) by auto
    show "\<forall>j \<in> insert i D. hget (hput ?k ?c index) (ep_kappa (plans ! j)) = Some (ep_content (plans ! j))"
    proof
      fix j assume "j \<in> insert i D"
      then have "j < length plans" and "j = i \<or> hget index (ep_kappa (plans ! j)) = Some (ep_content (plans ! j))"
        using Cons.prems(2,4) i by auto
      then show "hget (hput ?k ?c index) (ep_kappa (plans ! j)) = Some (ep_content (plans ! j))"
        using fun_k by auto
    qed
    show "tot + length ?c + sum_list (map (\<lambda>i. length (ep_content (plans ! i))) is) \<le> DECODE_MAX_BYTES"
      using Cons.prems(5) by simp
    show "p = (pre @ ?e) @ ?post" by (simp add: p)
  qed (rule Cons.prems(7))
  then show ?case using step by simp
qed

lemma decode_frame:
  assumes "hashes_ok H" and "n < 2 ^ 32"
    and "out = MAGIC @ [VERSION, flags] @ be_bytes 4 n @ body"
  shows "decode H (out @ sha256_digest H out) r = decode_entries H r flags out n 10 ([], 0)"
proof -
  have magic: "length MAGIC = 4" by (simp add: MAGIC_def)
  have trailer: "length (sha256_digest H out) = 32" using assms(1) by (rule hashes_ok_sha256)
  have "length out = 10 + length body" using assms(3) magic by simp
  moreover have "take 4 out = MAGIC" "out ! 4 = VERSION" "out ! 5 = flags" "take 4 (drop 6 out) = be_bytes 4 n"
    using assms(3) magic by (simp_all add: nth_append)
  ultimately show ?thesis
    using trailer assms(2) by (simp add: decode_def Let_def nth_append)
qed

lemma sum_list_map_mset:
  fixes f :: "'a \<Rightarrow> nat"
  shows "mset xs = mset ys \<Longrightarrow> sum_list (map f xs) = sum_list (map f ys)"
  by (metis mset_map sum_mset_sum_list)

lemma bundle_ok_mset: "mset xs = mset ys \<Longrightarrow> bundle_ok H xs \<Longrightarrow> bundle_ok H ys"
proof -
  assume eq: "mset xs = mset ys" and ok: "bundle_ok H xs"
  have "set xs = set ys" using eq by (rule mset_eq_setD)
  moreover have "length xs = length ys" using eq by (rule mset_eq_length)
  moreover have "sum_list (map (length \<circ> snd) xs) = sum_list (map (length \<circ> snd) ys)"
    using eq by (rule sum_list_map_mset)
  ultimately show ?thesis using ok unfolding bundle_ok_def by simp
qed

lemma sum_list_plan_objs:
  "mset is = mset [0..<length plans] \<Longrightarrow>
   sum_list (map (\<lambda>i. length (ep_content (plans ! i))) is) = sum_list (map (length \<circ> snd) (plan_objs plans))"
proof -
  assume eq: "mset is = mset [0..<length plans]"
  have "map (\<lambda>i. length (ep_content (plans ! i))) [0..<length plans] = map (length \<circ> snd) (plan_objs plans)"
    by (intro nth_equalityI) (simp_all add: plan_objs_def)
  then show ?thesis using sum_list_map_mset [OF eq, of "\<lambda>i. length (ep_content (plans ! i))"] by (simp only:)
qed

lemma decode_plans:
  assumes H: "hashes_ok H" and ok: "plans_ok plans" and b: "bundle_ok H (plan_objs plans)"
    and fl: "(\<exists>i < length plans. ep_delta_base (plans ! i) \<noteq> None) \<longrightarrow> flags AND FLAG_HAS_DELTAS \<noteq> 0"
    and perm: "mset is = mset [0..<length plans]" and cl: "closed plans {} is"
    and out: "out = MAGIC @ [VERSION, flags] @ be_bytes 4 (length plans) @
        concat (map (encode_entry plans (replicate (length plans) True)) is)"
    and m: "in_memory (length (out @ sha256_digest H out))"
  shows "decode H (out @ sha256_digest H out) r = Ok (map (\<lambda>i. plan_entry (plans ! i)) is)"
proof -
  have n: "length plans < 2 ^ 32" using b by (simp add: bundle_ok_def plan_objs_def)
  have len: "length is = length plans" using mset_eq_length [OF perm] by simp
  let ?hdr = "MAGIC @ [VERSION, flags] @ be_bytes 4 (length plans)"
  have hdr: "length ?hdr = 10" by (simp add: MAGIC_def)
  have set: "set is \<subseteq> {..<length plans}" using mset_eq_setD [OF perm] by auto
  have sum: "0 + sum_list (map (\<lambda>i. length (ep_content (plans ! i))) is) \<le> DECODE_MAX_BYTES"
    using b unfolding sum_list_plan_objs [OF perm] by (simp add: bundle_ok_def)
  have mem: "in_memory (length out)" using m by (simp add: in_memory_def)
  have o: "out = ?hdr @ concat (map (encode_entry plans (replicate (length plans) True)) is)"
    unfolding out by simp
  have "decode_entries H r flags out (length is) (length ?hdr) ([], 0) = Ok (map (\<lambda>i. plan_entry (plans ! i)) is)"
    by (rule decode_entries_order [OF H ok b fl set empty_subsetI cl _ sum o mem]) simp
  then have "decode_entries H r flags out (length is) 10 ([], 0) = Ok (map (\<lambda>i. plan_entry (plans ! i)) is)"
    unfolding hdr .
  then show ?thesis
    unfolding decode_frame [OF H n out] len .
qed

definition entry_pair :: "BundleEntry \<Rightarrow> string \<times> bytes" where
  "entry_pair = (\<lambda>e. (be_kappa e, be_content e))"

lemma plan_entries_objs:
  "map entry_pair (map (\<lambda>i. plan_entry (plans ! i)) [0..<length plans]) = plan_objs plans"
  by (intro nth_equalityI) (simp_all add: entry_pair_def plan_entry_def plan_objs_def)

lemma decode_full_only:
  assumes H: "hashes_ok H" and b: "bundle_ok H objs" and m: "in_memory (length (encode_full_only H objs))"
  shows "\<exists>es. decode H (encode_full_only H objs) r = Ok es \<and> map entry_pair es = objs"
proof -
  let ?plan = "\<lambda>(k, c). \<lparr>ep_kappa = k, ep_content = c, ep_delta_base = None\<rparr>"
  define plans where "plans = map ?plan objs"
  let ?enc = "\<lambda>(k, c). ENTRY_TYPE_FULL # enc_kappa_field k @ enc_content_field c"
  define out where "out = MAGIC @ [VERSION, 0x00] @ be_bytes 4 (length objs) @ concat (map ?enc objs)"
  have none: "ep_delta_base (plans ! i) = None" if "i < length plans" for i
    using that by (simp add: plans_def split: prod.splits)
  have objs: "plan_objs plans = objs"
    by (intro nth_equalityI) (auto simp: plan_objs_def plans_def split: prod.splits)
  have "encode_entry plans em i = ?enc (objs ! i)" if "i < length objs" for i em
    using that by (simp add: encode_entry_def plans_def Let_def split: prod.splits)
  then have "map (encode_entry plans (replicate (length plans) True)) [0..<length plans] = map ?enc objs"
    by (intro nth_equalityI) (simp_all add: plans_def)
  then have o: "out = MAGIC @ [VERSION, 0x00] @ be_bytes 4 (length plans) @
        concat (map (encode_entry plans (replicate (length plans) True)) [0..<length plans])"
    by (simp add: out_def plans_def)
  have enc: "encode_full_only H objs = out @ sha256_digest H out"
    by (simp add: encode_full_only_def out_def Let_def)
  have "decode H (out @ sha256_digest H out) r = Ok (map (\<lambda>i. plan_entry (plans ! i)) [0..<length plans])"
  proof (rule decode_plans [OF H _ _ _ refl _ o])
    show "plans_ok plans" using none by (simp add: plans_ok_def)
    show "bundle_ok H (plan_objs plans)" using b objs by simp
    show "closed plans {} [0..<length plans]" using none by (intro closed_full) auto
    show "in_memory (length (out @ sha256_digest H out))" using m enc by simp
  qed (use none in auto)
  then show ?thesis using enc plan_entries_objs [of plans] objs by auto
qed

lemma decode_with_deltas:
  assumes H: "hashes_ok H" and b: "bundle_ok H objs" and n: "2 \<le> length objs"
    and m: "in_memory (length (encode H objs True))"
  shows "\<exists>es. decode H (encode H objs True) r = Ok es \<and> mset (map entry_pair es) = mset objs"
proof -
  define indexed where "indexed = sort_key (\<lambda>(_, c). - int (length c)) objs"
  define plans where "plans = make_plans indexed"
  define flags where "flags = (if list_ex (\<lambda>p. ep_delta_base p \<noteq> None) plans then FLAG_HAS_DELTAS else 0x00)"
  define "is" where "is = filter (\<lambda>i. ep_delta_base (plans ! i) = None) [0..<length plans] @
      filter (\<lambda>i. ep_delta_base (plans ! i) \<noteq> None) [0..<length plans]"
  define out where "out = MAGIC @ [VERSION, flags] @ be_bytes 4 (length plans) @
        concat (map (encode_entry plans (replicate (length plans) True)) is)"
  have ok: "plans_ok plans" unfolding plans_def by (rule plans_ok_make)
  have objs: "plan_objs plans = indexed"
    by (intro nth_equalityI) (simp_all add: plan_objs_def plans_def make_plans_def)
  have mi: "mset indexed = mset objs" by (simp add: indexed_def)
  have perm: "mset is = mset [0..<length plans]"
    unfolding is_def mset_append mset_filter by (rule multiset_partition [symmetric])
  have enc: "encode H objs True = out @ sha256_digest H out"
    using n emit_order_eq [OF ok]
    by (simp add: encode_def Let_def out_def is_def flags_def flip: indexed_def plans_def)
  have "decode H (out @ sha256_digest H out) r = Ok (map (\<lambda>i. plan_entry (plans ! i)) is)"
  proof (rule decode_plans [OF H ok _ _ perm _ out_def])
    show "bundle_ok H (plan_objs plans)" using b bundle_ok_mset [OF mi [symmetric]] objs by simp
    show "closed plans {} is" unfolding is_def by (rule closed_order [OF ok])
    show "in_memory (length (out @ sha256_digest H out))" using m enc by simp
    show "(\<exists>i < length plans. ep_delta_base (plans ! i) \<noteq> None) \<longrightarrow> flags AND FLAG_HAS_DELTAS \<noteq> 0"
    proof
      assume "\<exists>i < length plans. ep_delta_base (plans ! i) \<noteq> None"
      then have "list_ex (\<lambda>p. ep_delta_base p \<noteq> None) plans" unfolding list_ex_length .
      then show "flags AND FLAG_HAS_DELTAS \<noteq> 0" by (simp add: flags_def FLAG_HAS_DELTAS_def)
    qed
  qed
  moreover have "mset (map entry_pair (map (\<lambda>i. plan_entry (plans ! i)) is)) = mset indexed"
    using plan_entries_objs [of plans] perm objs by (metis mset_map)
  ultimately show ?thesis unfolding enc mi by blast
qed

section \<open>Properties\<close>

text \<open>
  C25. Nothing unverified leaves the decoder: every entry of a decoded bundle passed the label check
  against its content, the number of entries is the header's count, and the contents together stay
  within the decode limit.
\<close>

theorem bundle_decode_verified:
  assumes "decode H data r = Ok es"
  shows "(\<forall>e \<in> set es. verify_kappa H (be_kappa e) (be_content e) = Ok True) \<and>
     length es = be_val (take 4 (drop 6 data)) \<and>
     sum_list (map (length \<circ> be_content) es) \<le> DECODE_MAX_BYTES"
proof -
  have "decode_entries H r (data ! 5) (take (length data - 32) data) (be_val (take 4 (drop 6 data))) 10 ([], 0) = Ok es"
    using assms by (auto simp: decode_def Let_def split: if_splits)
  from decode_entries_OkD [OF this] show ?thesis by auto
qed


text \<open>Two objects that satisfy the hypotheses.\<close>

definition sample_objects :: objects where
  "sample_objects = [(kappa_text sample_hashes Sha256 [1, 2], [1, 2]), (kappa_text sample_hashes Blake3 [3], [3])]"

lemma sample_objects_ok: "bundle_ok sample_hashes sample_objects"
proof -
  have "verify_kappa sample_hashes (kappa_text sample_hashes Sha256 [1, 2]) [1, 2] = Ok True"
    "verify_kappa sample_hashes (kappa_text sample_hashes Blake3 [3]) [3] = Ok True"
    using verify_kappa_Ok_True [OF sample_hashes_ok] by fastforce+
  moreover have "kappa_text sample_hashes Sha256 [1, 2] \<noteq> kappa_text sample_hashes Blake3 [3]"
    using kappa_text_axis_inject by blast
  ultimately show ?thesis
    by (auto simp: bundle_ok_def sample_objects_def DECODE_MAX_BYTES_def)
qed

lemma sample_objects_fit: "in_memory (length (encode sample_hashes sample_objects False))"
proof -
  have "length (kappa_text sample_hashes a c) = label_len a" for a c
    by (rule length_kappa_text [OF sample_hashes_ok])
  then show ?thesis
    using hashes_ok_sha256 [OF sample_hashes_ok]
    by (simp add: encode_def encode_full_only_def sample_objects_def in_memory_def Let_def MAGIC_def
        enc_kappa_field_def enc_content_field_def label_len_def)
qed


theorem bundle_decode_verified_witness:
  "\<exists>es. decode sample_hashes (encode sample_hashes sample_objects False) None = Ok es \<and>
     (\<forall>e \<in> set es. verify_kappa sample_hashes (be_kappa e) (be_content e) = Ok True)"
proof -
  obtain es where "decode sample_hashes (encode sample_hashes sample_objects False) None = Ok es"
    using decode_full_only [OF sample_hashes_ok sample_objects_ok] sample_objects_fit
    by (auto simp: encode_def)
  then show ?thesis using bundle_decode_verified by blast
qed

text \<open>A framed payload whose one entry claims the largest content length.\<close>

definition crash_payload :: bytes where
  "crash_payload = MAGIC @ [VERSION, 0] @ [0, 0, 0, 1] @ [ENTRY_TYPE_FULL] @ [0, 0] @ replicate 8 0xFF"

text \<open>
  A well-framed bundle can crash the decoder: one entry with an empty label and a content length
  of \<open>2^64 - 1\<close> makes the end of the content wrap to before its start, and slicing panics.
\<close>

lemma bundle_decode_panics:
  assumes "hashes_ok H"
  shows "decode H (crash_payload @ sha256_digest H crash_payload) r = Panic"
proof -
  have frame: "crash_payload = MAGIC @ [VERSION, 0] @ be_bytes 4 1 @ ([ENTRY_TYPE_FULL] @ [0, 0] @ replicate 8 0xFF)"
    unfolding crash_payload_def by code_simp
  have bytes: "crash_payload = [75, 66, 78, 68, 1, 0, 0, 0, 0, 1, 1, 0, 0, 255, 255, 255, 255, 255, 255, 255, 255]"
    unfolding crash_payload_def by code_simp
  have "parse_kappa_field crash_payload 11 = Ok ([], 13)" "parse_content_field crash_payload 13 = Panic"
    "crash_payload ! 10 = ENTRY_TYPE_FULL" "length crash_payload = 21"
    unfolding bytes
    by (simp_all add: parse_kappa_field_def parse_content_field_def be_val_def from_utf8_def bytes_str_def
        ENTRY_TYPE_FULL_def)
  then have "decode_entry H r 0 crash_payload 10 ([], 0) = Panic"
    by (simp add: decode_entry_def parse_full_entry_def)
  moreover have "decode H (crash_payload @ sha256_digest H crash_payload) r =
      decode_entries H r 0 crash_payload (Suc 0) 10 ([], 0)"
    using decode_frame [OF assms _ frame] by simp
  ultimately show ?thesis by simp
qed

lemma bundle_decode_panics_witness:
  "decode sample_hashes (crash_payload @ sha256_digest sample_hashes crash_payload) None = Panic"
  by (rule bundle_decode_panics [OF sample_hashes_ok])

end
