(* ===== verification/Identity.thy ===== *)
theory Identity
  imports Epoch
begin

text \<open>
  The identity subsystem (\<open>kappa-core/src/identity\<close>, \<open>crypto/anchor.rs\<close>, the verifiers of
  \<open>crypto/ed25519.rs\<close> and \<open>crypto/ecdsa.rs\<close>): anchors derived from keys, signed assertions,
  revocations, watermarks, bindings and successions, the resolution of assertions, peer probing and
  the trust position. The signature crates and the generated encodings are the fields of \<open>crypto\<close>.
  The lemmas show how resolution classifies every assertion, and which probes a node counts.
\<close>

section \<open>Records\<close>

record IdentityAssertion =
  ia_asserter :: string
  ia_subject :: string
  ia_facet :: string
  ia_value :: bytes
  ia_basis :: string
  ia_valid_from_ms :: u64
  ia_valid_until_ms :: "u64 option"
  ia_signature :: bytes

record SignableAssertion =
  sa_asserter :: string
  sa_subject :: string
  sa_facet :: string
  sa_value :: bytes
  sa_basis :: string
  sa_valid_from_ms :: u64
  sa_valid_until_ms :: "u64 option"

datatype RevocationReason =
  KeyCompromise | Superseded | Erroneous | PrivilegeWithdrawn | CessationOfOperation

fun revocation_as_str :: "RevocationReason \<Rightarrow> string" where
  "revocation_as_str KeyCompromise = ''key-compromise''"
| "revocation_as_str Superseded = ''superseded''"
| "revocation_as_str Erroneous = ''erroneous''"
| "revocation_as_str PrivilegeWithdrawn = ''privilege-withdrawn''"
| "revocation_as_str CessationOfOperation = ''cessation-of-operation''"

record Revocation =
  rv_asserter :: string
  rv_assertion_kappa :: string
  rv_reason :: RevocationReason
  rv_revoked_at_ms :: u64
  rv_signature :: bytes

record Watermark =
  wm_asserter :: string
  wm_invalidate_before_ms :: u64
  wm_reason :: string
  wm_set_at_ms :: u64

definition invalidates :: "Watermark \<Rightarrow> u64 \<Rightarrow> bool" where
  "invalidates w valid_from_ms \<longleftrightarrow> valid_from_ms < wm_invalidate_before_ms w"

record IdentityBinding =
  ib_source :: string
  ib_target :: string
  ib_method :: string
  ib_trust_level :: u64
  ib_verified_at_ms :: u64

record IdentitySuccession =
  is_old_anchor :: string
  is_new_anchor :: string
  is_reason :: string
  is_effective_at_ms :: u64
  is_old_signature :: bytes
  is_new_signature :: bytes

record AbsenceProof =
  ap_subject :: string
  ap_facet :: string
  ap_epoch :: u64
  ap_proof_bytes :: bytes
  ap_epoch_root_kappa :: string

datatype HandleLiveness = LiveActive | LiveExpired | LiveUnverified

fun liveness_as_str :: "HandleLiveness \<Rightarrow> string" where
  "liveness_as_str LiveActive = ''active''"
| "liveness_as_str LiveExpired = ''expired''"
| "liveness_as_str LiveUnverified = ''unverified''"

record HandleRecord =
  hr_anchor :: string
  hr_handle :: string
  hr_protocol :: string
  hr_claimed_at_ms :: u64
  hr_verified_at_ms :: "u64 option"
  hr_verification_method :: string
  hr_liveness :: HandleLiveness

record AnchorInput =
  ai_algorithm :: string
  ai_public_key :: bytes

section \<open>Signatures\<close>

datatype CryptoError =
    UnsupportedAlgorithm string
  | InvalidKey
  | InvalidSignature
  | SigningFailed string
  | Serialization string
  | Deserialization string
  | KeyGeneration string
  | IntegrityFailure string
  | CryptoIo string

fun crypto_error_msg :: "CryptoError \<Rightarrow> string" where
  "crypto_error_msg (UnsupportedAlgorithm a) = ''unsupported algorithm: '' @ a"
| "crypto_error_msg InvalidKey = ''invalid key''"
| "crypto_error_msg InvalidSignature = ''invalid signature''"
| "crypto_error_msg (SigningFailed m) = ''signing failed: '' @ m"
| "crypto_error_msg (Serialization m) = ''serialization failed: '' @ m"
| "crypto_error_msg (Deserialization m) = ''deserialization failed: '' @ m"
| "crypto_error_msg (KeyGeneration m) = ''key generation failed: '' @ m"
| "crypto_error_msg (IntegrityFailure m) = ''integrity check failed: '' @ m"
| "crypto_error_msg (CryptoIo m) = ''io error: '' @ m"

datatype SigVerifier =
  Ed25519Verifier | P256EcdsaVerifier | K256EcdsaVerifier | P256SchnorrVerifier | K256SchnorrVerifier

text \<open>
  What the signature crates do for each verifier: whether the bytes parse as a key and as a signature,
  and whether a parsed key accepts a parsed signature; and the encodings of the identity records.
\<close>

record crypto = externals +
  key_parses :: "SigVerifier \<Rightarrow> bytes \<Rightarrow> bool"
  sig_parses :: "SigVerifier \<Rightarrow> bytes \<Rightarrow> bool"
  key_accepts :: "SigVerifier \<Rightarrow> bytes \<Rightarrow> bytes \<Rightarrow> bytes \<Rightarrow> bool"
  enc_IdentityAssertion :: "IdentityAssertion \<Rightarrow> bytes"
  enc_SignableAssertion :: "SignableAssertion \<Rightarrow> bytes"
  enc_Revocation :: "Revocation \<Rightarrow> bytes"
  enc_Watermark :: "Watermark \<Rightarrow> bytes"
  enc_IdentityBinding :: "IdentityBinding \<Rightarrow> bytes"
  enc_IdentitySuccession :: "IdentitySuccession \<Rightarrow> bytes"
  enc_AnchorInput :: "AnchorInput \<Rightarrow> bytes"

definition verifier_for :: "string \<Rightarrow> (SigVerifier, CryptoError) result" where
  "verifier_for algorithm =
     (if algorithm = ''ed25519'' \<or> algorithm = ''frost-ed25519'' then Ok Ed25519Verifier
      else if algorithm = ''p256'' then Ok P256EcdsaVerifier
      else if algorithm = ''k256'' then Ok K256EcdsaVerifier
      else if algorithm = ''frost-p256'' then Ok P256SchnorrVerifier
      else if algorithm = ''frost-secp256k1'' then Ok K256SchnorrVerifier
      else Err (UnsupportedAlgorithm algorithm))"

definition ed25519_verify ::
  "('x) crypto_scheme \<Rightarrow> bytes \<Rightarrow> bytes \<Rightarrow> bytes \<Rightarrow> (bool, CryptoError) result" where
  "ed25519_verify H public_key message signature =
     (if length public_key \<noteq> 32 then Err InvalidKey
      else if \<not> key_parses H Ed25519Verifier public_key then Err InvalidKey
      else if \<not> sig_parses H Ed25519Verifier signature then Err InvalidSignature
      else Ok (key_accepts H Ed25519Verifier public_key message signature))"

definition p256_ecdsa_verify ::
  "('x) crypto_scheme \<Rightarrow> bytes \<Rightarrow> bytes \<Rightarrow> bytes \<Rightarrow> (bool, CryptoError) result" where
  "p256_ecdsa_verify H public_key message signature =
     (if \<not> key_parses H P256EcdsaVerifier public_key then Err InvalidKey
      else if \<not> sig_parses H P256EcdsaVerifier signature then Err InvalidSignature
      else Ok (key_accepts H P256EcdsaVerifier public_key message signature))"

definition k256_ecdsa_verify ::
  "('x) crypto_scheme \<Rightarrow> bytes \<Rightarrow> bytes \<Rightarrow> bytes \<Rightarrow> (bool, CryptoError) result" where
  "k256_ecdsa_verify H public_key message signature =
     (if \<not> key_parses H K256EcdsaVerifier public_key then Err InvalidKey
      else if \<not> sig_parses H K256EcdsaVerifier signature then Err InvalidSignature
      else Ok (key_accepts H K256EcdsaVerifier public_key message signature))"

definition p256_schnorr_verify ::
  "('x) crypto_scheme \<Rightarrow> bytes \<Rightarrow> bytes \<Rightarrow> bytes \<Rightarrow> (bool, CryptoError) result" where
  "p256_schnorr_verify H public_key message signature =
     (if \<not> key_parses H P256SchnorrVerifier public_key then Err InvalidKey
      else if \<not> sig_parses H P256SchnorrVerifier signature then Err InvalidSignature
      else Ok (key_accepts H P256SchnorrVerifier public_key message signature))"

definition k256_schnorr_verify ::
  "('x) crypto_scheme \<Rightarrow> bytes \<Rightarrow> bytes \<Rightarrow> bytes \<Rightarrow> (bool, CryptoError) result" where
  "k256_schnorr_verify H public_key message signature =
     (if \<not> key_parses H K256SchnorrVerifier public_key then Err InvalidKey
      else if \<not> sig_parses H K256SchnorrVerifier signature then Err InvalidSignature
      else Ok (key_accepts H K256SchnorrVerifier public_key message signature))"

text \<open>Dynamic dispatch on the verifier.\<close>

fun verify_with ::
  "('x) crypto_scheme \<Rightarrow> SigVerifier \<Rightarrow> bytes \<Rightarrow> bytes \<Rightarrow> bytes \<Rightarrow> (bool, CryptoError) result" where
  "verify_with H Ed25519Verifier = ed25519_verify H"
| "verify_with H P256EcdsaVerifier = p256_ecdsa_verify H"
| "verify_with H K256EcdsaVerifier = k256_ecdsa_verify H"
| "verify_with H P256SchnorrVerifier = p256_schnorr_verify H"
| "verify_with H K256SchnorrVerifier = k256_schnorr_verify H"

section \<open>Anchors\<close>

definition compute_anchor :: "('x) crypto_scheme \<Rightarrow> string \<Rightarrow> bytes \<Rightarrow> string" where
  "compute_anchor H algorithm public_key =
     kappa_from_bytes H (enc_AnchorInput H \<lparr>ai_algorithm = algorithm, ai_public_key = public_key\<rparr>)"

definition asserter_from_signature ::
  "('x) crypto_scheme \<Rightarrow> string \<Rightarrow> bytes \<Rightarrow> bytes \<Rightarrow> bytes \<Rightarrow> (string, CryptoError) result" where
  "asserter_from_signature H algorithm public_key message signature =
     rbind (verifier_for algorithm) (\<lambda>verifier.
     rbind (verify_with H verifier public_key message signature) (\<lambda>valid.
     if valid then Ok (compute_anchor H algorithm public_key) else Err InvalidSignature))"

definition derive_audience_label :: "('x) hashes_scheme \<Rightarrow> string \<Rightarrow> string \<Rightarrow> string" where
  "derive_audience_label H subject audience_id =
     hex_encode H (blake3_digest H (str_bytes (subject @ '':'' @ audience_id)))"

section \<open>Signed content\<close>

definition assertion_signable_bytes :: "('x) crypto_scheme \<Rightarrow> IdentityAssertion \<Rightarrow> bytes" where
  "assertion_signable_bytes H a =
     enc_SignableAssertion H
       \<lparr>sa_asserter = ia_asserter a, sa_subject = ia_subject a, sa_facet = ia_facet a,
        sa_value = ia_value a, sa_basis = ia_basis a, sa_valid_from_ms = ia_valid_from_ms a,
        sa_valid_until_ms = ia_valid_until_ms a\<rparr>"

definition revocation_signable_bytes :: "('x) crypto_scheme \<Rightarrow> Revocation \<Rightarrow> bytes" where
  "revocation_signable_bytes H r = enc_Revocation H (r\<lparr>rv_signature := []\<rparr>)"

definition succession_signable_bytes :: "('x) crypto_scheme \<Rightarrow> IdentitySuccession \<Rightarrow> bytes" where
  "succession_signable_bytes H s =
     enc_IdentitySuccession H (s\<lparr>is_old_signature := [], is_new_signature := []\<rparr>)"

section \<open>Resolution\<close>

record ResolutionResult =
  res_valid :: "IdentityAssertion list"
  res_revoked :: "(IdentityAssertion \<times> Revocation) list"
  res_watermarked :: "(IdentityAssertion \<times> Watermark) list"

definition assertion_kappa :: "('x) crypto_scheme \<Rightarrow> IdentityAssertion \<Rightarrow> string" where
  "assertion_kappa H a = kappa_from_bytes H (enc_IdentityAssertion H a)"

text \<open>One turn of the loop over the assertions.\<close>

definition resolve_step ::
  "('x) crypto_scheme \<Rightarrow> Revocation list \<Rightarrow> Watermark list \<Rightarrow> u64 \<Rightarrow> ResolutionResult \<Rightarrow>
   IdentityAssertion \<Rightarrow> ResolutionResult" where
  "resolve_step H revocations watermarks at_ms res a =
     (if ia_valid_from_ms a > at_ms then res
      else if (case ia_valid_until_ms a of Some until \<Rightarrow> until < at_ms | None \<Rightarrow> False) then res
      else
        let k = assertion_kappa H a in
        case find (\<lambda>r. rv_assertion_kappa r = k \<and> rv_asserter r = ia_asserter a) revocations of
          Some r \<Rightarrow> res\<lparr>res_revoked := res_revoked res @ [(a, r)]\<rparr>
        | None \<Rightarrow>
            (case find (\<lambda>w. wm_asserter w = ia_asserter a \<and> invalidates w (ia_valid_from_ms a)) watermarks of
               Some w \<Rightarrow> res\<lparr>res_watermarked := res_watermarked res @ [(a, w)]\<rparr>
             | None \<Rightarrow> res\<lparr>res_valid := res_valid res @ [a]\<rparr>))"

definition resolve_at ::
  "('x) crypto_scheme \<Rightarrow> IdentityAssertion list \<Rightarrow> Revocation list \<Rightarrow> Watermark list \<Rightarrow> u64 \<Rightarrow>
   ResolutionResult" where
  "resolve_at H assertions revocations watermarks at_ms =
     foldl (resolve_step H revocations watermarks at_ms)
       \<lparr>res_valid = [], res_revoked = [], res_watermarked = []\<rparr> assertions"

definition resolve_all ::
  "('x) crypto_scheme \<Rightarrow> IdentityAssertion list \<Rightarrow> Revocation list \<Rightarrow> Watermark list \<Rightarrow> ResolutionResult" where
  "resolve_all H assertions revocations watermarks =
     resolve_at H assertions revocations watermarks (- 1)"

definition retain_asserters :: "(string \<Rightarrow> bool) option \<Rightarrow> ResolutionResult \<Rightarrow> ResolutionResult" where
  "retain_asserters asserter_filter res =
     (case asserter_filter of
        None \<Rightarrow> res
      | Some f \<Rightarrow> res\<lparr>res_valid := filter (\<lambda>a. f (ia_asserter a)) (res_valid res)\<rparr>)"

definition resolve_all_filtered ::
  "('x) crypto_scheme \<Rightarrow> IdentityAssertion list \<Rightarrow> Revocation list \<Rightarrow> Watermark list \<Rightarrow>
   (string \<Rightarrow> bool) option \<Rightarrow> ResolutionResult" where
  "resolve_all_filtered H assertions revocations watermarks f =
     retain_asserters f (resolve_all H assertions revocations watermarks)"

definition resolve_at_filtered ::
  "('x) crypto_scheme \<Rightarrow> IdentityAssertion list \<Rightarrow> Revocation list \<Rightarrow> Watermark list \<Rightarrow> u64 \<Rightarrow>
   (string \<Rightarrow> bool) option \<Rightarrow> ResolutionResult" where
  "resolve_at_filtered H assertions revocations watermarks at_ms f =
     retain_asserters f (resolve_at H assertions revocations watermarks at_ms)"

section \<open>Trust position and probing\<close>

datatype DegradeReason = SignatureInvalidReason | AnchorMismatch | EquivocationReason | MalformedResponse

fun degrade_as_str :: "DegradeReason \<Rightarrow> string" where
  "degrade_as_str SignatureInvalidReason = ''signature-invalid''"
| "degrade_as_str AnchorMismatch = ''anchor-mismatch''"
| "degrade_as_str EquivocationReason = ''equivocation''"
| "degrade_as_str MalformedResponse = ''malformed-response''"

datatype TrustPosition =
    Unprobed
  | Standalone
  | Federated u64
  | Degraded DegradeReason u64 u64

fun trust_as_str :: "TrustPosition \<Rightarrow> string" where
  "trust_as_str Unprobed = ''unprobed''"
| "trust_as_str Standalone = ''standalone''"
| "trust_as_str (Federated _) = ''federated''"
| "trust_as_str (Degraded _ _ _) = ''degraded''"

fun is_faulted :: "TrustPosition \<Rightarrow> bool" where
  "is_faulted (Degraded _ _ _) = True"
| "is_faulted _ = False"

record PeerRecord =
  pr_endpoint :: string
  pr_asserter_anchor :: string
  pr_last_epoch :: u64
  pr_state_root :: string

record PeerEpochResponse =
  pe_anchor :: string
  pe_algorithm :: string
  pe_epoch_number :: u64
  pe_root_kappa :: string
  pe_signature :: bytes
  pe_public_key :: bytes

datatype ProbeError = Transport string | Verification CryptoError

datatype ProbeResult =
    Verified PeerRecord
  | SignatureInvalid string
  | Equivocation string u64 string string
  | Unreachable string

text \<open>The transport is the answer it gives for the endpoint and the namespace.\<close>

definition probe_message :: "string \<Rightarrow> PeerEpochResponse \<Rightarrow> bytes" where
  "probe_message namespace r =
     str_bytes (namespace @ [CHR 0x0A] @ pe_root_kappa r @ [CHR 0x0A] @ show_nat (unat (pe_epoch_number r)))"

definition probe_peer ::
  "('x) crypto_scheme \<Rightarrow> (string \<Rightarrow> string \<Rightarrow> (PeerEpochResponse, ProbeError) result) \<Rightarrow> string \<Rightarrow> string \<Rightarrow>
   EpochRoot option \<Rightarrow> (ProbeResult, 'e) result" where
  "probe_peer H transport endpoint namespace local_epoch =
     (case transport endpoint namespace of
        Panic \<Rightarrow> Panic
      | Err (Transport msg) \<Rightarrow> Ok (Unreachable msg)
      | Err (Verification e) \<Rightarrow> Ok (SignatureInvalid (crypto_error_msg e))
      | Ok r \<Rightarrow>
          (case verifier_for (pe_algorithm r) of
            Ok v \<Rightarrow>
              (case verify_with H v (pe_public_key r) (probe_message namespace r) (pe_signature r) of
                 Ok True \<Rightarrow>
                   (let verified = Verified \<lparr>pr_endpoint = endpoint, pr_asserter_anchor = pe_anchor r,
                                              pr_last_epoch = pe_epoch_number r, pr_state_root = pe_root_kappa r\<rparr>
                    in case local_epoch of
                         Some l \<Rightarrow>
                           if er_epoch_number l = pe_epoch_number r \<and> epoch_kappa H l \<noteq> pe_root_kappa r
                           then Ok (Equivocation (pe_anchor r) (pe_epoch_number r) (epoch_kappa H l) (pe_root_kappa r))
                           else Ok verified
                       | None \<Rightarrow> Ok verified)
               | Ok False \<Rightarrow> Ok (SignatureInvalid (pe_anchor r))
               | Err e \<Rightarrow> Ok (SignatureInvalid (crypto_error_msg e))
               | Panic \<Rightarrow> Panic)
          | _ \<Rightarrow> Ok (SignatureInvalid (''unsupported algorithm: '' @ pe_algorithm r))))"

record ProbeCounts =
  pc_verified :: u64
  pc_unreachable :: u64
  pc_sig_invalid :: u64
  pc_equivocations :: u64

fun count_probe :: "ProbeCounts \<Rightarrow> ProbeResult \<Rightarrow> ProbeCounts" where
  "count_probe c (Verified _) = c\<lparr>pc_verified := pc_verified c + 1\<rparr>"
| "count_probe c (Unreachable _) = c\<lparr>pc_unreachable := pc_unreachable c + 1\<rparr>"
| "count_probe c (SignatureInvalid _) = c\<lparr>pc_sig_invalid := pc_sig_invalid c + 1\<rparr>"
| "count_probe c (Equivocation _ _ _ _) = c\<lparr>pc_equivocations := pc_equivocations c + 1\<rparr>"

definition update_from_probes :: "TrustPosition \<Rightarrow> ProbeResult list \<Rightarrow> TrustPosition" where
  "update_from_probes pos results =
     (if results = [] then pos
      else
        let c = foldl count_probe
                  \<lparr>pc_verified = 0, pc_unreachable = 0, pc_sig_invalid = 0, pc_equivocations = 0\<rparr> results;
            n = (word_of_nat (length results) :: u64)
        in if pc_equivocations c > 0
           then Degraded EquivocationReason (pc_verified c + pc_sig_invalid c) (pc_verified c)
           else if pc_sig_invalid c > 0
           then Degraded SignatureInvalidReason (pc_verified c + pc_sig_invalid c) (pc_verified c)
           else if pc_verified c > 0 then Federated (pc_verified c)
           else if pc_unreachable c = n then Standalone
           else Unprobed)"

section \<open>The resolver registry\<close>

record ResolvedIdentity =
  ri_anchor :: string
  ri_public_key :: bytes
  ri_algorithm :: string
  ri_service_endpoint :: "string option"
  ri_handle :: string
  ri_evidence :: "bytes option"

text \<open>A resolver is its \<open>accepts\<close> test and its \<open>resolve\<close> function.\<close>

type_synonym resolver = "(string \<Rightarrow> bool) \<times> (string \<Rightarrow> (ResolvedIdentity option, string) result)"

definition registry_add :: "resolver list \<Rightarrow> resolver \<Rightarrow> resolver list" where
  "registry_add rs r = rs @ [r]"

definition registry_resolve ::
  "resolver list \<Rightarrow> string \<Rightarrow> (ResolvedIdentity option, string) result" where
  "registry_resolve rs identifier =
     (case find (\<lambda>r. fst r identifier) rs of Some r \<Rightarrow> snd r identifier | None \<Rightarrow> Ok None)"

section \<open>A concrete instance of the parameters\<close>

definition sample_crypto :: crypto where
  "sample_crypto = externals.extend sample_externals (crypto.fields
     (\<lambda>_ _. True) (\<lambda>_ _. True) (\<lambda>_ k m s. s = k @ m)
     (\<lambda>a. str_bytes (ia_asserter a @ ia_facet a)) (\<lambda>a. str_bytes (sa_asserter a))
     (\<lambda>r. str_bytes (rv_assertion_kappa r)) (\<lambda>w. str_bytes (wm_asserter w))
     (\<lambda>b. str_bytes (ib_source b)) (\<lambda>i. str_bytes (is_old_anchor i)) (\<lambda>i. ai_public_key i))"

lemma sample_crypto_ok: "externals_ok sample_crypto"
proof -
  have digest: "digest_of sample_crypto a = digest_of sample_externals a" for a
    by (cases a) (simp_all add: sample_crypto_def externals.defs sample_externals_def)
  have hashes: "blake3_keyed sample_crypto = blake3_keyed sample_externals"
      "md5_digest sample_crypto = md5_digest sample_externals"
      "hex_encode sample_crypto = hex_encode sample_externals"
      "hex_decode sample_crypto = hex_decode sample_externals"
      "text_nfc sample_crypto = text_nfc sample_externals"
      "cbor_decode sample_crypto = cbor_decode sample_externals"
      "cbor_encode sample_crypto = cbor_encode sample_externals"
    by (simp_all add: sample_crypto_def externals.defs sample_externals_def)
  show ?thesis
    using sample_externals_ok unfolding externals_ok_def hashes_ok_def digest hashes .
qed

lemma sample_crypto_hasher_ok: "hasher_ok sample_crypto sample_hasher"
proof -
  have digest: "digest_of sample_crypto a = digest_of sample_hashes a" for a
    by (cases a) (simp_all add: sample_crypto_def externals.defs sample_externals_def sample_hashes_def)
  have coll: "sha1_collision sample_crypto = sha1_collision sample_hashes"
    by (simp add: sample_crypto_def externals.defs sample_externals_def sample_hashes_def)
  show ?thesis
    using sample_hasher_ok unfolding hasher_ok_def digest coll .
qed

section \<open>What resolution returns\<close>

definition in_window :: "u64 \<Rightarrow> IdentityAssertion \<Rightarrow> bool" where
  "in_window at_ms a \<longleftrightarrow>
     ia_valid_from_ms a \<le> at_ms \<and> (\<forall>until. ia_valid_until_ms a = Some until \<longrightarrow> at_ms \<le> until)"

definition revokes :: "('x) crypto_scheme \<Rightarrow> Revocation \<Rightarrow> IdentityAssertion \<Rightarrow> bool" where
  "revokes H r a \<longleftrightarrow> rv_assertion_kappa r = assertion_kappa H a \<and> rv_asserter r = ia_asserter a"

definition voids :: "Watermark \<Rightarrow> IdentityAssertion \<Rightarrow> bool" where
  "voids w a \<longleftrightarrow> wm_asserter w = ia_asserter a \<and> ia_valid_from_ms a < wm_invalidate_before_ms w"

lemma resolve_step_eq:
  "resolve_step H rs ws t res a =
     (if \<not> in_window t a then res
      else case find (\<lambda>r. revokes H r a) rs of
             Some r \<Rightarrow> res\<lparr>res_revoked := res_revoked res @ [(a, r)]\<rparr>
           | None \<Rightarrow>
               (case find (\<lambda>w. voids w a) ws of
                  Some w \<Rightarrow> res\<lparr>res_watermarked := res_watermarked res @ [(a, w)]\<rparr>
                | None \<Rightarrow> res\<lparr>res_valid := res_valid res @ [a]\<rparr>))"
  by (auto simp: resolve_step_def in_window_def revokes_def voids_def invalidates_def Let_def
      split: option.splits)

text \<open>Each list of the result is a filter of the assertions, with the first revocation or watermark.\<close>

lemma resolve_foldl:
  "foldl (resolve_step H rs ws t) res as =
     \<lparr>res_valid = res_valid res @
        filter (\<lambda>a. in_window t a \<and> find (\<lambda>r. revokes H r a) rs = None \<and> find (\<lambda>w. voids w a) ws = None) as,
      res_revoked = res_revoked res @
        map (\<lambda>a. (a, the (find (\<lambda>r. revokes H r a) rs)))
          (filter (\<lambda>a. in_window t a \<and> find (\<lambda>r. revokes H r a) rs \<noteq> None) as),
      res_watermarked = res_watermarked res @
        map (\<lambda>a. (a, the (find (\<lambda>w. voids w a) ws)))
          (filter (\<lambda>a. in_window t a \<and> find (\<lambda>r. revokes H r a) rs = None \<and>
             find (\<lambda>w. voids w a) ws \<noteq> None) as)\<rparr>"
proof (induction as arbitrary: res)
  case (Cons a as)
  show ?case
    unfolding foldl_Cons Cons.IH by (simp add: resolve_step_eq split: option.splits)
qed simp

lemmas resolve_at_eq = resolve_at_def [unfolded resolve_foldl, simplified]

lemma find_None_iff': "find P xs = None \<longleftrightarrow> (\<forall>x \<in> set xs. \<not> P x)"
  by (auto simp: find_None_iff)

lemma find_SomeD: "find P xs = Some x \<Longrightarrow> x \<in> set xs \<and> P x"
  by (auto simp: find_Some_iff)

text \<open>
  C32. Resolution at a time classifies every assertion once and keeps the order of the input. The valid
  ones are exactly those whose window contains the time and that no revocation and no watermark of
  their asserter voids; an assertion that is both revoked and below a watermark counts as revoked; the
  evidence beside a revoked or watermarked assertion is one of the given records and applies to it.
\<close>

theorem resolve_at_classifies:
  "(let res = resolve_at H as rs ws t in
    res_valid res = filter (\<lambda>a. in_window t a \<and> \<not> list_ex (\<lambda>r. revokes H r a) rs \<and> \<not> list_ex (\<lambda>w. voids w a) ws) as \<and>
    map fst (res_revoked res) = filter (\<lambda>a. in_window t a \<and> list_ex (\<lambda>r. revokes H r a) rs) as \<and>
    map fst (res_watermarked res) =
      filter (\<lambda>a. in_window t a \<and> \<not> list_ex (\<lambda>r. revokes H r a) rs \<and> list_ex (\<lambda>w. voids w a) ws) as \<and>
    list_all (\<lambda>(a, r). r \<in> set rs \<and> revokes H r a) (res_revoked res) \<and>
    list_all (\<lambda>(a, w). w \<in> set ws \<and> voids w a) (res_watermarked res))"
proof -
  have rev: "find (\<lambda>r. revokes H r a) rs = None \<longleftrightarrow> \<not> list_ex (\<lambda>r. revokes H r a) rs" for a
    by (auto simp: find_None_iff list_ex_iff)
  have wm: "find (\<lambda>w. voids w a) ws = None \<longleftrightarrow> \<not> list_ex (\<lambda>w. voids w a) ws" for a
    by (auto simp: find_None_iff list_ex_iff)
  have rev': "(\<exists>r. find (\<lambda>r. revokes H r a) rs = Some r) \<longleftrightarrow> list_ex (\<lambda>r. revokes H r a) rs" for a
    using rev [of a] by auto
  have wm': "(\<exists>w. find (\<lambda>w. voids w a) ws = Some w) \<longleftrightarrow> list_ex (\<lambda>w. voids w a) ws" for a
    using wm [of a] by auto
  have "list_all (\<lambda>(a, r). r \<in> set rs \<and> revokes H r a) (res_revoked (resolve_at H as rs ws t))"
    unfolding resolve_at_eq by (auto simp: list_all_iff dest: find_SomeD)
  moreover have "list_all (\<lambda>(a, w). w \<in> set ws \<and> voids w a) (res_watermarked (resolve_at H as rs ws t))"
    unfolding resolve_at_eq by (auto simp: list_all_iff dest: find_SomeD)
  ultimately show ?thesis
    by (simp add: Let_def resolve_at_eq o_def rev wm rev' wm')
qed

text \<open>
  Resolving \<open>across all asserters\<close> is documented as resolution without time bounds. It resolves at
  the largest timestamp, so every assertion that expires before that timestamp appears in none of the
  three lists, however far in the future it expires.
\<close>

lemma resolve_all_drops_expiring:
  assumes "ia_valid_until_ms a = Some until" and "until \<noteq> - 1"
  shows "a \<notin> set (res_valid (resolve_all H as rs ws)) \<and> a \<notin> fst ` set (res_revoked (resolve_all H as rs ws)) \<and>
     a \<notin> fst ` set (res_watermarked (resolve_all H as rs ws))"
proof -
  have "until < - 1"
    by (rule iffD1 [OF word_order.not_eq_extremum assms(2)])
  then have "\<not> in_window (- 1) a"
    using assms(1) by (auto simp: in_window_def)
  then show ?thesis
    unfolding resolve_all_def resolve_at_eq by auto
qed

lemma resolve_all_drops_expiring_witness:
  "\<exists>a. in_window 5 a \<and> set (res_valid (resolve_all sample_crypto [a] [] [])) = {} \<and>
       res_valid (resolve_at sample_crypto [a] [] [] 5) = [a]"
proof -
  define a where "a = \<lparr>ia_asserter = ''x'', ia_subject = ''y'', ia_facet = ''f'', ia_value = [],
     ia_basis = ''self-asserted'', ia_valid_from_ms = 1, ia_valid_until_ms = Some 1000000, ia_signature = []\<rparr>"
  have "ia_valid_until_ms a = Some 1000000" "(1000000 :: u64) \<noteq> - 1" by (simp_all add: a_def)
  from resolve_all_drops_expiring [OF this, of sample_crypto "[a]" "[]" "[]"]
  have "a \<notin> set (res_valid (resolve_all sample_crypto [a] [] []))" by blast
  moreover have "set (res_valid (resolve_all sample_crypto [a] [] [])) \<subseteq> {a}"
    unfolding resolve_all_def resolve_at_eq by auto
  ultimately have "set (res_valid (resolve_all sample_crypto [a] [] [])) = {}"
    by (auto dest: subset_singletonD)
  moreover have window: "in_window 5 a" by (simp add: a_def in_window_def)
  moreover have "res_valid (resolve_at sample_crypto [a] [] [] 5) = [a]"
    using window unfolding resolve_at_eq by simp
  ultimately show ?thesis by blast
qed

section \<open>Trust follows from probes\<close>

definition faulty_probe :: "ProbeResult \<Rightarrow> bool" where
  "faulty_probe r \<longleftrightarrow> (case r of SignatureInvalid _ \<Rightarrow> True | Equivocation _ _ _ _ \<Rightarrow> True | _ \<Rightarrow> False)"

definition verified_probe :: "ProbeResult \<Rightarrow> bool" where
  "verified_probe r \<longleftrightarrow> (case r of Verified _ \<Rightarrow> True | _ \<Rightarrow> False)"

definition count_where :: "('a \<Rightarrow> bool) \<Rightarrow> 'a list \<Rightarrow> u64" where
  "count_where P xs = word_of_nat (length (filter P xs))"

lemma count_probes:
  "foldl count_probe c rs =
     \<lparr>pc_verified = pc_verified c + count_where verified_probe rs,
      pc_unreachable = pc_unreachable c + count_where (\<lambda>r. \<exists>m. r = Unreachable m) rs,
      pc_sig_invalid = pc_sig_invalid c + count_where (\<lambda>r. \<exists>m. r = SignatureInvalid m) rs,
      pc_equivocations = pc_equivocations c + count_where (\<lambda>r. \<exists>p e l m. r = Equivocation p e l m) rs\<rparr>"
proof (induction rs arbitrary: c)
  case Nil
  show ?case by (simp add: count_where_def)
next
  case (Cons r rs)
  show ?case
    unfolding foldl_Cons Cons.IH by (cases r) (simp_all add: count_where_def verified_probe_def [abs_def])
qed

lemma count_where_0:
  assumes "length xs < 2 ^ 64"
  shows "count_where P xs = 0 \<longleftrightarrow> \<not> list_ex P xs"
proof -
  have "length (filter P xs) < 2 ^ 64"
    using assms length_filter_le le_less_trans by blast
  then have "count_where P xs = 0 \<longleftrightarrow> length (filter P xs) = 0"
    unfolding count_where_def word_of_nat_eq_0_iff using nat_dvd_not_less by force
  then show ?thesis
    by (auto simp: list_ex_iff filter_empty_conv)
qed

text \<open>
  C33. Absence is not failure: after a non-empty batch of probes the node is degraded exactly when some
  peer equivocated or failed signature verification; a batch with a verified peer and no such fault
  federates with the number of verified peers; a batch of unreachable peers leaves it standalone.
\<close>

theorem trust_from_probes:
  assumes "results \<noteq> []" and "length results < 2 ^ 64"
  shows "(is_faulted (update_from_probes pos results) \<longleftrightarrow> list_ex faulty_probe results) \<and>
    (\<not> list_ex faulty_probe results \<longrightarrow>
       update_from_probes pos results =
         (if list_ex verified_probe results then Federated (count_where verified_probe results) else Standalone))"
proof -
  let ?U = "\<lambda>r. \<exists>m. r = Unreachable m" and ?S = "\<lambda>r. \<exists>m. r = SignatureInvalid m"
    and ?E = "\<lambda>r. \<exists>p e l m. r = Equivocation p e l m"
  have fp: "faulty_probe = (\<lambda>r. ?S r \<or> ?E r)"
    by (rule ext, rename_tac r, case_tac r) (simp_all add: faulty_probe_def)
  have faulty: "list_ex faulty_probe results \<longleftrightarrow> list_ex ?S results \<or> list_ex ?E results"
    unfolding fp by (rule list_ex_disj)
  have zero: "0 < count_where P results \<longleftrightarrow> list_ex P results" for P
    unfolding word_neq_0_conv [symmetric] count_where_0 [OF assms(2)] by simp
  have all: "count_where ?U results = word_of_nat (length results)"
    if "\<not> list_ex ?S results" "\<not> list_ex ?E results" "\<not> list_ex verified_probe results"
  proof -
    have "\<forall>r \<in> set results. ?U r"
    proof
      fix r
      assume "r \<in> set results"
      with that have "\<not> ?S r" "\<not> ?E r" "\<not> verified_probe r"
        by (simp_all only: list_ex_iff bex_simps not_ex) simp_all
      then show "?U r" by (cases r) (simp_all add: verified_probe_def)
    qed
    then have "filter ?U results = results"
      by (rule filter_True)
    then show ?thesis by (simp add: count_where_def)
  qed
  have upd: "update_from_probes pos results =
      (if list_ex ?E results
       then Degraded EquivocationReason (count_where verified_probe results + count_where ?S results)
              (count_where verified_probe results)
       else if list_ex ?S results
       then Degraded SignatureInvalidReason (count_where verified_probe results + count_where ?S results)
              (count_where verified_probe results)
       else if list_ex verified_probe results then Federated (count_where verified_probe results)
       else if count_where ?U results = word_of_nat (length results) then Standalone
       else Unprobed)"
    unfolding update_from_probes_def Let_def count_probes by (simp add: assms(1) zero)
  show ?thesis
  proof (cases "list_ex ?E results \<or> list_ex ?S results")
    case True
    then show ?thesis unfolding faulty upd by (elim disjE) simp_all
  next
    case False
    then show ?thesis unfolding faulty upd by (simp add: all)
  qed
qed

theorem trust_from_probes_witness:
  "update_from_probes Unprobed [Unreachable ''a'', Verified \<lparr>pr_endpoint = ''b'', pr_asserter_anchor = ''x'',
     pr_last_epoch = 1, pr_state_root = ''r''\<rparr>] = Federated 1"
proof -
  let ?rs = "[Unreachable ''a'', Verified \<lparr>pr_endpoint = ''b'', pr_asserter_anchor = ''x'',
     pr_last_epoch = 1, pr_state_root = ''r''\<rparr>]"
  have "?rs \<noteq> []" "length ?rs < 2 ^ 64" by simp_all
  from trust_from_probes [OF this, of Unprobed] show ?thesis
    by (simp add: faulty_probe_def verified_probe_def count_where_def)
qed

text \<open>
  A node records a probed peer under the anchor the peer sent. The signature is checked against the
  key of the response, but the anchor is not compared with the anchor of that key: whoever signs with
  a key of their own is recorded as the verified peer of any anchor they name.
\<close>

lemma probe_anchor_unchecked:
  assumes "verifier_for (pe_algorithm r) = Ok v"
    and "verify_with H v (pe_public_key r) (probe_message namespace r) (pe_signature r) = Ok True"
  shows "probe_peer H (\<lambda>_ _. Ok (r\<lparr>pe_anchor := victim\<rparr>)) endpoint namespace None =
     Ok (Verified \<lparr>pr_endpoint = endpoint, pr_asserter_anchor = victim,
                   pr_last_epoch = pe_epoch_number r, pr_state_root = pe_root_kappa r\<rparr>)"
  using assms by (simp add: probe_peer_def probe_message_def)

lemma probe_anchor_unchecked_witness:
  "\<exists>r. asserter_from_signature sample_crypto (pe_algorithm r) (pe_public_key r) (probe_message ''ns'' r) (pe_signature r)
         \<noteq> Ok ''victim'' \<and>
      probe_peer sample_crypto (\<lambda>_ _. Ok (r\<lparr>pe_anchor := ''victim''\<rparr>)) ''host'' ''ns'' None =
        Ok (Verified \<lparr>pr_endpoint = ''host'', pr_asserter_anchor = ''victim'', pr_last_epoch = 1, pr_state_root = ''k''\<rparr>)"
proof -
  define key where "key = replicate 32 (7 :: byte)"
  define r where "r = \<lparr>pe_anchor = [], pe_algorithm = ''ed25519'', pe_epoch_number = 1, pe_root_kappa = ''k'',
    pe_signature = key @ str_bytes (''ns'' @ [CHR 0x0A] @ ''k'' @ [CHR 0x0A] @ show_nat 1), pe_public_key = key\<rparr>"
  have v: "verifier_for (pe_algorithm r) = Ok Ed25519Verifier"
    by (simp add: r_def verifier_for_def)
  have ok: "verify_with sample_crypto Ed25519Verifier (pe_public_key r) (probe_message ''ns'' r) (pe_signature r) = Ok True"
    by (simp add: r_def key_def ed25519_verify_def sample_crypto_def externals.defs crypto.defs probe_message_def)
  have len: "length (compute_anchor sample_crypto (pe_algorithm r) (pe_public_key r)) = 71"
    using sample_crypto_ok by (simp add: compute_anchor_def kappa_from_bytes_text length_kappa_text label_len_def)
  have "compute_anchor sample_crypto (pe_algorithm r) (pe_public_key r) \<noteq> ''victim''"
  proof
    assume "compute_anchor sample_crypto (pe_algorithm r) (pe_public_key r) = ''victim''"
    with len show False by simp
  qed
  then have "asserter_from_signature sample_crypto (pe_algorithm r) (pe_public_key r) (probe_message ''ns'' r)
      (pe_signature r) \<noteq> Ok ''victim''"
    using v ok by (simp add: asserter_from_signature_def)
  moreover have fields: "pe_epoch_number r = 1" "pe_root_kappa r = ''k''" by (simp_all add: r_def)
  note probe_anchor_unchecked [OF v ok, of "''victim''" "''host''", unfolded fields]
  ultimately show ?thesis by (intro exI [of _ r] conjI)
qed

end
