(* ===== verification/File_System.thy ===== *)
theory File_System
  imports Kappa_Path
begin

text \<open>
  What the stores use of \<open>std::fs\<close>: a file system is a map from the resolved path of a file to its
  content. Directories are not tracked, symbolic links do not occur, and the only I/O failure is a
  missing file. \<open>write_then_rename\<close> is the write to a temporary sibling followed by a rename that the
  blob store, the counter and the key store share.
\<close>

section \<open>Files\<close>

type_synonym fs = "(path, bytes) hmap"

definition fs_key :: "path \<Rightarrow> path" where
  "fs_key p = path_resolve [] p"

definition fs_read :: "fs \<Rightarrow> path \<Rightarrow> bytes option" where
  "fs_read d p = hget d (fs_key p)"

definition fs_exists :: "fs \<Rightarrow> path \<Rightarrow> bool" where
  "fs_exists d p \<longleftrightarrow> fs_read d p \<noteq> None"

definition fs_write :: "path \<Rightarrow> bytes \<Rightarrow> fs \<Rightarrow> fs" where
  "fs_write p c d = hput (fs_key p) c d"

definition fs_rename :: "path \<Rightarrow> path \<Rightarrow> fs \<Rightarrow> (fs, string) result" where
  "fs_rename p q d =
     (case fs_read d p of
        None \<Rightarrow> Err ''No such file or directory (os error 2)''
      | Some c \<Rightarrow> Ok (hput (fs_key q) c (hdel (fs_key p) d)))"

definition fs_remove :: "path \<Rightarrow> fs \<Rightarrow> fs" where
  "fs_remove p d = hdel (fs_key p) d"

text \<open>\<open>Path::with_extension\<close>: what follows the last dot of the file name, unless the name starts with it.\<close>

definition file_stem :: "string \<Rightarrow> string" where
  "file_stem n =
     (case position (\<lambda>c. c = CHR ''.'') (rev n) of
        None \<Rightarrow> n
      | Some i \<Rightarrow> if i + 1 = length n then n else take (length n - i - 1) n)"

definition with_extension :: "path \<Rightarrow> string \<Rightarrow> path" where
  "with_extension p e = butlast p @ [file_stem (last p) @ ''.'' @ e]"

definition write_then_rename :: "path \<Rightarrow> bytes \<Rightarrow> fs \<Rightarrow> (fs, string) result" where
  "write_then_rename p c d = fs_rename (with_extension p ''tmp'') p (fs_write (with_extension p ''tmp'') c d)"

section \<open>Lemmas\<close>

lemma path_resolve_append: "path_resolve acc (p @ q) = path_resolve (rev (path_resolve acc p)) q"
  by (induction acc p rule: path_resolve.induct) auto

lemma path_resolve_plain: "''..'' \<notin> set p \<Longrightarrow> path_resolve acc p = rev acc @ p"
  by (induction acc p rule: path_resolve.induct) auto

lemma fs_key_append: "''..'' \<notin> set q \<Longrightarrow> fs_key (p @ q) = fs_key p @ q"
  by (simp add: fs_key_def path_resolve_append path_resolve_plain)

lemma fs_read_write [simp, hm_simps]:
  "fs_read (fs_write p c d) q = (if fs_key q = fs_key p then Some c else fs_read d q)"
  by (simp add: fs_read_def fs_write_def)

lemma fs_read_remove [simp, hm_simps]:
  "fs_read (fs_remove p d) q = (if fs_key q = fs_key p then None else fs_read d q)"
  by (simp add: fs_read_def fs_remove_def)

lemma hm_ok_fs [simp, wf_intros]:
  "hm_ok d \<Longrightarrow> hm_ok (fs_write p c d)" "hm_ok d \<Longrightarrow> hm_ok (fs_remove p d)"
  by (simp_all add: fs_write_def fs_remove_def)

lemma file_stem_plain: "CHR ''.'' \<notin> set n \<Longrightarrow> file_stem n = n"
proof -
  assume "CHR ''.'' \<notin> set n"
  then have "position (\<lambda>c. c = CHR ''.'') (rev n) = None" by auto
  then show ?thesis by (simp only: file_stem_def option.case)
qed

text \<open>The temporary file is gone when the new content is visible, and no other file has changed.\<close>

lemma write_then_rename_ok:
  "\<exists>d'. write_then_rename p c d = Ok d' \<and> (hm_ok d \<longrightarrow> hm_ok d') \<and>
     (\<forall>k. hget d' k = (if k = fs_key p then Some c
                       else if k = fs_key (with_extension p ''tmp'') then None else hget d k))"
  by (auto simp: write_then_rename_def fs_rename_def fs_write_def fs_read_def)

end
