(* ===== verification/Blob_Store.thy ===== *)
theory Blob_Store
  imports Kappa_Path
begin

text \<open>
  The blob half of the \<open>KappaStore\<close> interface (\<open>kappa-core/src/store/mod.rs\<close>): what a store promises of
  putting, getting, listing and deleting content-addressed blobs, stated over the map from labels to
  contents that the store implements, and what its clients may conclude.
\<close>

definition absorb :: "string \<Rightarrow> bytes \<Rightarrow> (string \<Rightarrow> bytes option) \<Rightarrow> string \<Rightarrow> bytes option" where
  "absorb k c m = (if m k = None then m(k \<mapsto> c) else m)"

lemma absorb_same [simp]: "absorb k c (absorb k c m) = absorb k c m"
  by (simp add: absorb_def)

lemma absorb_apply: "absorb k c m k' = (if k' = k \<and> m k = None then Some c else m k')"
  by (simp add: absorb_def)

locale blob_store =
  fixes inv :: "'s \<Rightarrow> bool"
    and label :: "string \<Rightarrow> bool"
    and proved :: "VerifiedContent \<Rightarrow> bool"
    and contents :: "'s \<Rightarrow> string \<Rightarrow> bytes option"
    and put :: "VerifiedContent \<Rightarrow> 's \<Rightarrow> (bool, StoreError, 's) stateful"
    and get :: "'s \<Rightarrow> string \<Rightarrow> (bytes, StoreError) result"
    and del :: "string \<Rightarrow> 's \<Rightarrow> (unit, StoreError, 's) stateful"
    and size_of :: "'s \<Rightarrow> string \<Rightarrow> (u64, StoreError) result"
    and all :: "'s \<Rightarrow> string list"
  assumes label_proved: "proved v \<Longrightarrow> label (vc_kappa v)"
    and label_contents: "contents s k = Some c \<Longrightarrow> label k"
    and put_law: "inv s \<Longrightarrow> proved v \<Longrightarrow>
      \<exists>s'. put v s = (Ok (contents s (vc_kappa v) = None), s') \<and> inv s' \<and>
        contents s' = absorb (vc_kappa v) (vc_content v) (contents s)"
    and get_law: "inv s \<Longrightarrow> label k \<Longrightarrow> get s k = ok_or (NotFound k) (contents s k)"
    and del_law: "inv s \<Longrightarrow> label k \<Longrightarrow>
      \<exists>s'. del k s = (Ok (), s') \<and> inv s' \<and> contents s' = (contents s)(k := None)"
    and size_law: "inv s \<Longrightarrow> label k \<Longrightarrow>
      size_of s k = rbind (ok_or (NotFound k) (contents s k)) (\<lambda>c. Ok (word_of_nat (length c)))"
    and all_law: "inv s \<Longrightarrow> set (all s) = {k. contents s k \<noteq> None} \<and> sorted (all s) \<and> distinct (all s)"
begin

lemma put_then_get:
  assumes "inv s" and "proved v" and "put v s = (Ok b, s')"
  shows "get s' (vc_kappa v) = Ok (case contents s (vc_kappa v) of None \<Rightarrow> vc_content v | Some c \<Rightarrow> c)"
proof -
  from put_law [OF assms(1,2)] assms(3) have "inv s'" "contents s' = absorb (vc_kappa v) (vc_content v) (contents s)"
    by auto
  with get_law [OF _ label_proved [OF assms(2)], of s'] show ?thesis
    by (simp add: absorb_apply split: option.splits)
qed

lemma del_then_get:
  assumes "inv s" and "label k" and "del k s = (Ok (), s')"
  shows "get s' k = Err (NotFound k)"
proof -
  from del_law [OF assms(1,2)] assms(3) have "inv s'" "contents s' = (contents s)(k := None)" by auto
  with get_law [of s' k] assms(2) show ?thesis by simp
qed

lemma all_label: "inv s \<Longrightarrow> k \<in> set (all s) \<Longrightarrow> label k"
  using all_law label_contents by auto

end

end
