(* ===== verification/Memory_Store.thy ===== *)
theory Memory_Store
  imports Identity File_System Blob_Store
begin

text \<open>
  The in-memory store (\<open>kappa-core/src/store/memory/mod.rs\<close>), first part: its state, blobs on the file
  system, the ingest operations it inherits from the trait (\<open>store/mod.rs\<close>), metadata, tags and
  sequences. Blobs are shown to implement a partial map from labels to contents in which every label
  addresses content that hashes to it.

  Each operation takes the state and returns its result beside the new state. What an operation reads
  from outside is an argument: the clock (\<open>now_ms\<close>), \<open>Instant::now\<close> in nanoseconds, fresh identifiers.
  Operations run one at a time, as under the locks the source takes.
\<close>

section \<open>State\<close>

record NamespaceRecord =
  nr_uuid_hex :: string
  nr_owner :: string
  nr_created_at_ms :: u64
  nr_protocol :: "string option"
  nr_aliases :: "string list"
  nr_tombstoned :: bool

record IngestResult =
  ir_kappa :: string
  ir_newly_stored :: bool
  ir_additional_kappas :: "string list"
  ir_etag :: "string option"

definition ingest_new :: "string \<Rightarrow> bool \<Rightarrow> IngestResult" where
  "ingest_new kappa newly_stored =
     \<lparr>ir_kappa = kappa, ir_newly_stored = newly_stored, ir_additional_kappas = [], ir_etag = None\<rparr>"

definition with_additional :: "string list \<Rightarrow> IngestResult \<Rightarrow> IngestResult" where
  "with_additional ks r = r\<lparr>ir_additional_kappas := ks\<rparr>"

definition with_etag :: "string \<Rightarrow> IngestResult \<Rightarrow> IngestResult" where
  "with_etag e r = r\<lparr>ir_etag := Some e\<rparr>"

record UploadSession =
  us_namespace :: string
  us_data :: bytes
  us_max_size :: u64
  us_created_at :: nat
  us_part_digests :: "(u32 \<times> bytes \<times> u64) list"

type_synonym EdgeIndex = "(uuid \<times> u64, string list) hmap"

record InMemoryStore =
  ms_blob_root :: path
  ms_upload_timeout_secs :: "u64 option"
  ms_disk :: fs
  ms_tags :: "(uuid \<times> u64, TagEntry) hmap"
  ms_meta :: "(u64 \<times> u64, bytes) hmap"
  ms_ns_meta :: "(uuid \<times> u64 \<times> u64, string list) hmap"
  ms_edges :: "(uuid \<times> u64, Edge) hmap"
  ms_fwd_index :: EdgeIndex
  ms_rev_index :: EdgeIndex
  ms_rel_index :: EdgeIndex
  ms_asr_index :: EdgeIndex
  ms_sequences :: "(uuid \<times> u64, u64) hmap"
  ms_epoch_roots :: "(string, EpochRoot) hmap"
  ms_current_epochs :: "(uuid, string) hmap"
  ms_uploads :: "(string, UploadSession) hmap"
  ms_compression_records :: "(string, string \<times> string \<times> bytes \<times> u64) hmap"
  ms_identity_bindings :: "(string, IdentityBinding list) hmap"
  ms_identity_successions :: "(string, string) hmap"
  ms_assertion_inbound :: "(string, string list) hmap"
  ms_ns_aliases :: "(string, uuid) hmap"
  ms_ns_records :: "(uuid, NamespaceRecord) hmap"

type_synonym 'a store_op = "('a, StoreError, InMemoryStore) stateful"

text \<open>The files that are already below the blob root are kept; everything else starts empty.\<close>

definition mem_new :: "path \<Rightarrow> u64 option \<Rightarrow> fs \<Rightarrow> InMemoryStore" where
  "mem_new root timeout d =
     \<lparr>ms_blob_root = root, ms_upload_timeout_secs = timeout, ms_disk = d, ms_tags = [], ms_meta = [],
      ms_ns_meta = [], ms_edges = [], ms_fwd_index = [], ms_rev_index = [], ms_rel_index = [],
      ms_asr_index = [], ms_sequences = [], ms_epoch_roots = [], ms_current_epochs = [], ms_uploads = [],
      ms_compression_records = [], ms_identity_bindings = [], ms_identity_successions = [],
      ms_assertion_inbound = [], ms_ns_aliases = [], ms_ns_records = []\<rparr>"

definition ensure_namespace :: "('x) hashes_scheme \<Rightarrow> NamespaceRef \<Rightarrow> InMemoryStore \<Rightarrow> InMemoryStore" where
  "ensure_namespace H ns s =
     (let u = ns_uuid ns in
      if hget (ms_ns_records s) u \<noteq> None then s
      else
        let name = ns_as_str ns;
            s = s\<lparr>ms_ns_records := hput u
                   \<lparr>nr_uuid_hex = ns_uuid_hex H ns, nr_owner = [], nr_created_at_ms = 0, nr_protocol = None,
                    nr_aliases = (if name = [] then [] else [name]), nr_tombstoned = False\<rparr>
                   (ms_ns_records s)\<rparr>
        in if name = [] then s else s\<lparr>ms_ns_aliases := hput name u (ms_ns_aliases s)\<rparr>)"

definition collect_sorted_tags :: "NamespaceRef \<Rightarrow> InMemoryStore \<Rightarrow> TagEntry list" where
  "collect_sorted_tags ns s =
     sort_key te_name (map snd (filter (\<lambda>((u, _), _). u = ns_uuid ns) (ms_tags s)))"

section \<open>Blobs\<close>

definition mem_blob_path :: "InMemoryStore \<Rightarrow> string \<Rightarrow> (path, StoreError) result" where
  "mem_blob_path s kappa = blob_path_for (ms_blob_root s) kappa"

text \<open>The write of \<open>blob_put_verified\<close> and \<open>ingest_compressed\<close>, to a path that does not exist.\<close>

definition write_blob :: "path \<Rightarrow> bytes \<Rightarrow> InMemoryStore \<Rightarrow> unit store_op" where
  "write_blob p content s =
     (case write_then_rename p content (ms_disk s) of
        Ok d \<Rightarrow> (Ok (), s\<lparr>ms_disk := d\<rparr>)
      | Err e \<Rightarrow> (Err (Io e), s)
      | Panic \<Rightarrow> (Panic, s))"

definition blob_put_verified :: "VerifiedContent \<Rightarrow> InMemoryStore \<Rightarrow> bool store_op" where
  "blob_put_verified verified s =
     sbind (mem_blob_path s (vc_kappa verified), s) (\<lambda>p s.
     if fs_exists (ms_disk s) p then (Ok False, s)
     else sbind (write_blob p (vc_content verified) s) (\<lambda>_ s. (Ok True, s)))"

definition blob_get :: "InMemoryStore \<Rightarrow> string \<Rightarrow> (bytes, StoreError) result" where
  "blob_get s kappa =
     rbind (mem_blob_path s kappa) (\<lambda>p. ok_or (NotFound kappa) (fs_read (ms_disk s) p))"

definition blob_exists :: "InMemoryStore \<Rightarrow> string \<Rightarrow> (bool, StoreError) result" where
  "blob_exists s kappa = rbind (mem_blob_path s kappa) (\<lambda>p. Ok (fs_exists (ms_disk s) p))"

definition blob_delete :: "string \<Rightarrow> InMemoryStore \<Rightarrow> unit store_op" where
  "blob_delete kappa s =
     sbind (mem_blob_path s kappa, s) (\<lambda>p s. (Ok (), s\<lparr>ms_disk := fs_remove p (ms_disk s)\<rparr>))"

definition blob_size :: "InMemoryStore \<Rightarrow> string \<Rightarrow> (u64, StoreError) result" where
  "blob_size s kappa =
     rbind (mem_blob_path s kappa) (\<lambda>p.
     rbind (ok_or (NotFound kappa) (fs_read (ms_disk s) p)) (\<lambda>c. Ok (word_of_nat (length c))))"

text \<open>
  Seeking past the largest file offset fails, and the buffer is allocated before anything is read: a
  capacity above \<open>isize::MAX\<close> bytes panics.
\<close>

definition blob_get_range :: "InMemoryStore \<Rightarrow> string \<Rightarrow> u64 \<Rightarrow> u64 \<Rightarrow> (bytes, StoreError) result" where
  "blob_get_range s kappa offset len =
     rbind (mem_blob_path s kappa) (\<lambda>p.
     rbind (ok_or (NotFound kappa) (fs_read (ms_disk s) p)) (\<lambda>c.
     if 2 ^ 63 \<le> unat offset then Err (Io ''Invalid argument (os error 22)'')
     else if 2 ^ 63 \<le> unat len then Panic
     else Ok (take (unat len) (drop (unat offset) c))))"

text \<open>
  The directory walk visits the files four levels below the root; the names of the first and the last
  level make the label.
\<close>

definition blob_name :: "path \<Rightarrow> path \<Rightarrow> string option" where
  "blob_name root p =
     (if take (length root) p = root
      then (case drop (length root) p of
              [algo, shard1, shard2, name] \<Rightarrow> if ends_with name ''.tmp'' then None else Some (algo @ '':'' @ name)
            | _ \<Rightarrow> None)
      else None)"

definition blob_list :: "InMemoryStore \<Rightarrow> string list" where
  "blob_list s = sort (List.map_filter (\<lambda>(p, _). blob_name (fs_key (ms_blob_root s)) p) (ms_disk s))"

definition blob_get_verified :: "('x) hashes_scheme \<Rightarrow> InMemoryStore \<Rightarrow> string \<Rightarrow> (bytes, StoreError) result" where
  "blob_get_verified H s kappa =
     rbind (blob_get s kappa) (\<lambda>content.
     case verify_kappa H kappa content of
       Ok True \<Rightarrow> Ok content
     | Ok False \<Rightarrow> Err (Rejected (''integrity failure: content at '' @ kappa @ '' does not match its address''))
     | Err e \<Rightarrow> Err (Rejected (''integrity check failed for '' @ kappa @ '': '' @ label_error_msg e))
     | Panic \<Rightarrow> Panic)"

section \<open>Ingest\<close>

definition mandatory_axes :: "Axis list" where
  "mandatory_axes = [Sha256]"

text \<open>The loop over the mandatory axes that differ from the client's.\<close>

fun store_axes :: "('x) hashes_scheme \<Rightarrow> Axis \<Rightarrow> bytes \<Rightarrow> Axis list \<Rightarrow> InMemoryStore \<Rightarrow> string list store_op" where
  "store_axes H client content [] s = (Ok [], s)"
| "store_axes H client content (axis # axes) s =
     (if axis = client then store_axes H client content axes s
      else
        sbind (map_err (\<lambda>e. Rejected (label_error_msg e)) (vc_compute H axis content), s) (\<lambda>v s.
        sbind (blob_put_verified v s) (\<lambda>_ s.
        sbind (store_axes H client content axes s) (\<lambda>rest s.
        (Ok (vc_kappa v # rest), s)))))"

definition ingest_verified ::
  "('x) hashes_scheme \<Rightarrow> string \<Rightarrow> bytes \<Rightarrow> InMemoryStore \<Rightarrow> IngestResult store_op" where
  "ingest_verified H claimed content s =
     sbind (map_err (\<lambda>e. Rejected (label_error_msg e)) (vc_verify H claimed content), s) (\<lambda>v s.
     sbind (map_err (\<lambda>e. Rejected (label_error_msg e)) (vc_axis v), s) (\<lambda>client_axis s.
     sbind (blob_put_verified v s) (\<lambda>newly_stored s.
     sbind (store_axes H client_axis content mandatory_axes s) (\<lambda>more s.
     (Ok (with_additional more (ingest_new (vc_kappa v) newly_stored)), s)))))"

definition ingest_compute ::
  "('x) hashes_scheme \<Rightarrow> Axis \<Rightarrow> bytes \<Rightarrow> InMemoryStore \<Rightarrow> IngestResult store_op" where
  "ingest_compute H axis content s =
     sbind (map_err (\<lambda>e. Rejected (label_error_msg e)) (vc_compute H axis content), s) (\<lambda>v s.
     sbind (blob_put_verified v s) (\<lambda>newly_stored s.
     sbind (store_axes H axis content mandatory_axes s) (\<lambda>more s.
     (Ok (with_additional more (ingest_new (vc_kappa v) newly_stored)), s))))"

definition blob_put_computed :: "('x) hashes_scheme \<Rightarrow> bytes \<Rightarrow> InMemoryStore \<Rightarrow> string store_op" where
  "blob_put_computed H content s = sbind (ingest_compute H Sha256 content s) (\<lambda>r s. (Ok (ir_kappa r), s))"

section \<open>Metadata\<close>

definition blob_put_meta :: "('x) hashes_scheme \<Rightarrow> string \<Rightarrow> string \<Rightarrow> bytes \<Rightarrow> InMemoryStore \<Rightarrow> unit store_op" where
  "blob_put_meta H kappa key val s =
     (Ok (), s\<lparr>ms_meta := hput (item_hash H kappa, item_hash H key) val (ms_meta s)\<rparr>)"

definition blob_get_meta :: "('x) hashes_scheme \<Rightarrow> InMemoryStore \<Rightarrow> string \<Rightarrow> string \<Rightarrow> (bytes, StoreError) result" where
  "blob_get_meta H s kappa key =
     ok_or (NotFound (''meta '' @ kappa @ '':'' @ key)) (hget (ms_meta s) (item_hash H kappa, item_hash H key))"

definition blob_delete_meta :: "('x) hashes_scheme \<Rightarrow> string \<Rightarrow> string \<Rightarrow> InMemoryStore \<Rightarrow> unit store_op" where
  "blob_delete_meta H kappa key s =
     (Ok (), s\<lparr>ms_meta := hdel (item_hash H kappa, item_hash H key) (ms_meta s)\<rparr>)"

definition meta_set ::
  "('x) hashes_scheme \<Rightarrow> NamespaceRef \<Rightarrow> string \<Rightarrow> string \<Rightarrow> string \<Rightarrow> InMemoryStore \<Rightarrow> unit store_op" where
  "meta_set H ns kappa key val s =
     (let s = ensure_namespace H ns s in
      (Ok (), s\<lparr>ms_ns_meta := hentry (ns_uuid ns, item_hash H key, item_hash H val) [] (\<lambda>ks. ks @ [kappa]) (ms_ns_meta s)\<rparr>))"

definition meta_query ::
  "('x) hashes_scheme \<Rightarrow> InMemoryStore \<Rightarrow> NamespaceRef \<Rightarrow> string \<Rightarrow> string \<Rightarrow> string list" where
  "meta_query H s ns key val =
     (if val = [] then
        remdups_adj (sort (concat (map snd (filter (\<lambda>((u, kh, _), _). u = ns_uuid ns \<and> kh = item_hash H key) (ms_ns_meta s)))))
      else
        (case hget (ms_ns_meta s) (ns_uuid ns, item_hash H key, item_hash H val) of
           Some kappas \<Rightarrow> remdups_adj (sort kappas)
         | None \<Rightarrow> []))"

section \<open>Tags\<close>

definition tag_key :: "('x) hashes_scheme \<Rightarrow> NamespaceRef \<Rightarrow> string \<Rightarrow> uuid \<times> u64" where
  "tag_key H ns name = (ns_uuid ns, item_hash H name)"

text \<open>The insertion that \<open>tag_set\<close> and each item of a batch perform.\<close>

definition bump_tag :: "uuid \<times> u64 \<Rightarrow> string \<Rightarrow> string \<Rightarrow> (uuid \<times> u64, TagEntry) hmap \<Rightarrow>
    u64 \<times> (uuid \<times> u64, TagEntry) hmap" where
  "bump_tag key name kappa tags =
     (let version = (case hget tags key of Some e \<Rightarrow> te_version e + 1 | None \<Rightarrow> 1)
      in (version, hput key \<lparr>te_name = name, te_kappa = kappa, te_version = version\<rparr> tags))"

definition tag_set ::
  "('x) hashes_scheme \<Rightarrow> NamespaceRef \<Rightarrow> string \<Rightarrow> string \<Rightarrow> InMemoryStore \<Rightarrow> u64 store_op" where
  "tag_set H ns name kappa s =
     (let s = ensure_namespace H ns s;
          (version, tags) = bump_tag (tag_key H ns name) name kappa (ms_tags s)
      in (Ok version, s\<lparr>ms_tags := tags\<rparr>))"

definition tag_get :: "('x) hashes_scheme \<Rightarrow> InMemoryStore \<Rightarrow> NamespaceRef \<Rightarrow> string \<Rightarrow> (TagEntry, StoreError) result" where
  "tag_get H s ns name =
     ok_or (NotFound (ns_display H ns @ ''/'' @ name)) (hget (ms_tags s) (tag_key H ns name))"

definition tag_delete :: "('x) hashes_scheme \<Rightarrow> NamespaceRef \<Rightarrow> string \<Rightarrow> InMemoryStore \<Rightarrow> unit store_op" where
  "tag_delete H ns name s = (Ok (), s\<lparr>ms_tags := hdel (tag_key H ns name) (ms_tags s)\<rparr>)"

definition tag_list :: "InMemoryStore \<Rightarrow> NamespaceRef \<Rightarrow> TagEntry list" where
  "tag_list s ns = collect_sorted_tags ns s"

definition tag_prefix :: "InMemoryStore \<Rightarrow> NamespaceRef \<Rightarrow> string \<Rightarrow> TagEntry list" where
  "tag_prefix s ns prefix =
     sort_key te_name (map snd (filter (\<lambda>((u, _), e). u = ns_uuid ns \<and> starts_with (te_name e) prefix) (ms_tags s)))"

text \<open>The first loop of a batch compares every expected version before the second loop writes.\<close>

fun batch_check ::
  "('x) hashes_scheme \<Rightarrow> NamespaceRef \<Rightarrow> (uuid \<times> u64, TagEntry) hmap \<Rightarrow> TagUpdate list \<Rightarrow> (unit, StoreError) result" where
  "batch_check H ns tags [] = Ok ()"
| "batch_check H ns tags (u # us) =
     (case tu_expected_version u of
        None \<Rightarrow> batch_check H ns tags us
      | Some expected \<Rightarrow>
          let current = (case hget tags (tag_key H ns (tu_name u)) of Some e \<Rightarrow> te_version e | None \<Rightarrow> 0)
          in if expected \<noteq> current
             then Err (Conflict (''tag '' @ tu_name u @ '': expected version '' @ show_nat (unat expected) @
                                 '' but current is '' @ show_nat (unat current)))
             else batch_check H ns tags us)"

definition batch_apply ::
  "('x) hashes_scheme \<Rightarrow> NamespaceRef \<Rightarrow> TagUpdate list \<Rightarrow> (uuid \<times> u64, TagEntry) hmap \<Rightarrow> (uuid \<times> u64, TagEntry) hmap" where
  "batch_apply H ns us tags =
     foldl (\<lambda>tags u. snd (bump_tag (tag_key H ns (tu_name u)) (tu_name u) (tu_kappa u) tags)) tags us"

definition tag_set_batch ::
  "('x) hashes_scheme \<Rightarrow> NamespaceRef \<Rightarrow> TagUpdate list \<Rightarrow> InMemoryStore \<Rightarrow> unit store_op" where
  "tag_set_batch H ns us s =
     (let s = ensure_namespace H ns s in
      sbind (batch_check H ns (ms_tags s) us, s) (\<lambda>_ s.
      (Ok (), s\<lparr>ms_tags := batch_apply H ns us (ms_tags s)\<rparr>)))"

section \<open>Sequences\<close>

definition sequence_next :: "('x) hashes_scheme \<Rightarrow> NamespaceRef \<Rightarrow> string \<Rightarrow> InMemoryStore \<Rightarrow> u64 store_op" where
  "sequence_next H ns name s =
     (let s = ensure_namespace H ns s;
          seqs = hentry (tag_key H ns name) 0 (\<lambda>c. c + 1) (ms_sequences s)
      in (Ok (the (hget seqs (tag_key H ns name))), s\<lparr>ms_sequences := seqs\<rparr>))"

definition sequence_current :: "('x) hashes_scheme \<Rightarrow> InMemoryStore \<Rightarrow> NamespaceRef \<Rightarrow> string \<Rightarrow> u64" where
  "sequence_current H s ns name =
     (case hget (ms_sequences s) (tag_key H ns name) of Some c \<Rightarrow> c | None \<Rightarrow> 0)"

section \<open>The path of a label\<close>

definition valid_label :: "string \<Rightarrow> bool" where
  "valid_label k \<longleftrightarrow> (\<exists>l. label_parse k = Ok l)"

definition label_path :: "string \<Rightarrow> path" where
  "label_path k =
     (case split_kappa k of
        Some (algo, h) \<Rightarrow> [algo, take 2 h, take 2 (drop 2 h), h]
      | None \<Rightarrow> [])"

lemma valid_labelE:
  assumes "valid_label k"
  obtains a ds where "length ds = digest_bytes a" and "k = label_text a ds"
  using assms label_parse_OkD unfolding valid_label_def by blast

lemma valid_label_text [simp]: "length ds = digest_bytes a \<Longrightarrow> valid_label (label_text a ds)"
  using label_parse_text unfolding valid_label_def by blast

lemma valid_label_kappa_text [simp]: "hashes_ok H \<Longrightarrow> valid_label (kappa_text H a c)"
  by (simp add: kappa_text_def)

lemma label_path_text:
  "length ds = digest_bytes a \<Longrightarrow>
     label_path (label_text a ds) =
       [axis_as_str a, take 2 (hex_text ds), take 2 (drop 2 (hex_text ds)), hex_text ds]"
  by (simp add: label_path_def split_kappa_text)

lemma label_path_valid:
  assumes "valid_label k"
  shows "blob_path_for root k = Ok (root @ label_path k)"
    and "''..'' \<notin> set (label_path k)"
    and "length (label_path k) = 4"
    and "CHR ''.'' \<notin> set (last (label_path k))"
proof -
  from assms obtain a ds where k: "length ds = digest_bytes a" "k = label_text a ds"
    by (rule valid_labelE)
  show "blob_path_for root k = Ok (root @ label_path k)"
    unfolding k(2) by (simp add: blob_path_for_text label_path_text k(1))
  show "''..'' \<notin> set (label_path k)"
    unfolding k(2) label_path_text [OF k(1)]
    using axis_no_dots [of a] hex_text_no_dots [of _ 2 0 ds] hex_text_no_dots [of _ 2 2 ds]
      hex_text_no_dots [of _ "length (hex_text ds)" 0 ds] by fastforce
  show "length (label_path k) = 4"
    unfolding k(2) label_path_text [OF k(1)] by simp
  have "c \<noteq> CHR ''.''" if "c \<in> set (hex_text ds)" for c
    using hex_text_hex [of ds] that hex_char_plain by (auto simp: list_all_iff str_bytes_def)
  then show "CHR ''.'' \<notin> set (last (label_path k))"
    unfolding k(2) label_path_text [OF k(1)] by auto
qed

lemma label_path_name:
  assumes "valid_label k"
  shows "blob_name root (root @ label_path k) = Some k"
proof -
  from assms obtain a ds where k: "length ds = digest_bytes a" "k = label_text a ds"
    by (rule valid_labelE)
  have "\<not> ends_with (hex_text ds) ''.tmp''"
  proof
    assume "ends_with (hex_text ds) ''.tmp''"
    then have "CHR ''.'' \<in> set (hex_text ds)"
      by (rule subsetD [OF ends_with_set]) simp
    then show False
      using label_path_valid(4) [OF assms] unfolding k(2) label_path_text [OF k(1)] by simp
  qed
  then show ?thesis
    unfolding k(2) label_path_text [OF k(1)] by (simp add: blob_name_def label_text_hex)
qed

lemma label_path_inject:
  assumes "valid_label k" and "valid_label k'"
  shows "label_path k = label_path k' \<longleftrightarrow> k = k'"
  using label_path_name [OF assms(1), of "[]"] label_path_name [OF assms(2), of "[]"]
  by (metis option.inject)

section \<open>Blobs as a map from labels to contents\<close>

definition blob_key :: "InMemoryStore \<Rightarrow> string \<Rightarrow> path" where
  "blob_key s k = fs_key (ms_blob_root s) @ label_path k"

definition blobs :: "InMemoryStore \<Rightarrow> string \<Rightarrow> bytes option" where
  "blobs s k = (if valid_label k then hget (ms_disk s) (blob_key s k) else None)"

definition addresses :: "('x) hashes_scheme \<Rightarrow> string \<Rightarrow> bytes \<Rightarrow> bool" where
  "addresses H k c \<longleftrightarrow> (\<exists>a. hashable H a c \<and> k = kappa_text H a c)"

text \<open>Every file of the store lies at the path of a label that its content hashes to.\<close>

definition disk_ok :: "('x) hashes_scheme \<Rightarrow> InMemoryStore \<Rightarrow> bool" where
  "disk_ok H s \<longleftrightarrow> hm_ok (ms_disk s) \<and>
     (\<forall>p c. hget (ms_disk s) p = Some c \<longrightarrow> (\<exists>k. addresses H k c \<and> p = blob_key s k))"

lemma addresses_valid: "hashes_ok H \<Longrightarrow> addresses H k c \<Longrightarrow> valid_label k"
  by (auto simp: addresses_def)

lemma addresses_verify: "hashes_ok H \<Longrightarrow> addresses H k c \<longleftrightarrow> verify_kappa H k c = Ok True"
  by (auto simp: addresses_def verify_kappa_Ok_True)

lemma mem_blob_path_valid:
  assumes "valid_label k"
  shows "\<exists>p. mem_blob_path s k = Ok p \<and> fs_key p = blob_key s k \<and>
     (\<forall>k'. valid_label k' \<longrightarrow> fs_key (with_extension p ''tmp'') \<noteq> blob_key s k')"
proof (intro exI conjI allI impI)
  let ?p = "ms_blob_root s @ label_path k"
  note lp = label_path_valid [OF assms]
  have ne: "label_path k \<noteq> []" using lp(3) by auto
  show "mem_blob_path s k = Ok ?p"
    by (simp add: mem_blob_path_def lp(1))
  show "fs_key ?p = blob_key s k"
    by (simp add: blob_key_def fs_key_append lp(2))
  fix k'
  assume k': "valid_label k'"
  let ?n = "last (label_path k) @ ''.tmp''"
  have stem: "file_stem (last (label_path k)) = last (label_path k)"
    by (rule file_stem_plain [OF lp(4)])
  have tmp: "with_extension ?p ''tmp'' = ms_blob_root s @ butlast (label_path k) @ [?n]"
    using ne by (simp add: with_extension_def butlast_append stem)
  have "''..'' \<notin> set (butlast (label_path k) @ [?n])"
    using lp(2) in_set_butlastD by fastforce
  then have "fs_key (with_extension ?p ''tmp'') = fs_key (ms_blob_root s) @ butlast (label_path k) @ [?n]"
    unfolding tmp by (rule fs_key_append)
  moreover have "last (label_path k') \<noteq> ?n"
    using label_path_valid(4) [OF k'] by (metis in_set_conv_decomp append_Cons)
  then have "label_path k' \<noteq> butlast (label_path k) @ [?n]" by auto
  ultimately show "fs_key (with_extension ?p ''tmp'') \<noteq> blob_key s k'"
    by (auto simp: blob_key_def)
qed

lemma blob_get_eq: "valid_label k \<Longrightarrow> blob_get s k = ok_or (NotFound k) (blobs s k)"
  using mem_blob_path_valid [of k s] by (auto simp: blob_get_def blobs_def fs_read_def)

lemma blob_exists_eq: "valid_label k \<Longrightarrow> blob_exists s k = Ok (blobs s k \<noteq> None)"
  using mem_blob_path_valid [of k s] by (auto simp: blob_exists_def fs_exists_def blobs_def fs_read_def)

lemma blob_size_eq:
  "valid_label k \<Longrightarrow> blob_size s k = rbind (ok_or (NotFound k) (blobs s k)) (\<lambda>c. Ok (word_of_nat (length c)))"
  using mem_blob_path_valid [of k s] by (auto simp: blob_size_def blobs_def fs_read_def)

lemma blob_key_disk [simp]: "blob_key (s\<lparr>ms_disk := d\<rparr>) k = blob_key s k"
  by (simp add: blob_key_def)

lemma blob_key_inject: "valid_label k \<Longrightarrow> valid_label k' \<Longrightarrow> blob_key s k = blob_key s k' \<longleftrightarrow> k = k'"
  by (simp add: blob_key_def label_path_inject)

lemma blobs_addressed:
  assumes "hashes_ok H" and "disk_ok H s" and "blobs s k = Some c"
  shows "addresses H k c"
proof -
  from assms(3) have k: "valid_label k" and "hget (ms_disk s) (blob_key s k) = Some c"
    by (auto simp: blobs_def split: if_splits)
  with assms(2) obtain k' where "addresses H k' c" "blob_key s k = blob_key s k'"
    unfolding disk_ok_def by blast
  with k assms(1) show ?thesis
    using addresses_valid blob_key_inject by blast
qed

lemma write_blob_eq:
  assumes H: "hashes_ok H" and ok: "disk_ok H s" and k: "addresses H k c" and p: "mem_blob_path s k = Ok p"
  shows "\<exists>d. write_blob p c s = (Ok (), s\<lparr>ms_disk := d\<rparr>) \<and> disk_ok H (s\<lparr>ms_disk := d\<rparr>) \<and>
     blobs (s\<lparr>ms_disk := d\<rparr>) = (blobs s)(k \<mapsto> c)"
proof -
  have valid: "valid_label k" using H k by (rule addresses_valid)
  from mem_blob_path_valid [OF valid, of s] p
  have key: "fs_key p = blob_key s k"
    and tmp: "\<And>k'. valid_label k' \<Longrightarrow> fs_key (with_extension p ''tmp'') \<noteq> blob_key s k'"
    by auto
  from write_then_rename_ok [of p c "ms_disk s"] obtain d where d: "write_then_rename p c (ms_disk s) = Ok d"
      "hm_ok (ms_disk s) \<Longrightarrow> hm_ok d"
      "\<And>q. hget d q = (if q = blob_key s k then Some c
             else if q = fs_key (with_extension p ''tmp'') then None else hget (ms_disk s) q)"
    unfolding key by blast
  have "disk_ok H (s\<lparr>ms_disk := d\<rparr>)"
    using ok d(2) k by (auto simp: disk_ok_def d(3) split: if_splits)
  moreover have "blobs (s\<lparr>ms_disk := d\<rparr>) k' = ((blobs s)(k \<mapsto> c)) k'" for k'
    using valid tmp [of k'] blob_key_inject [of k' k s] by (auto simp: blobs_def d(3))
  ultimately show ?thesis
    by (auto simp: write_blob_def d(1) fun_eq_iff)
qed


definition vc_ok :: "('x) hashes_scheme \<Rightarrow> VerifiedContent \<Rightarrow> bool" where
  "vc_ok H v \<longleftrightarrow> addresses H (vc_kappa v) (vc_content v)"

lemma disk_ok_same: "ms_disk s' = ms_disk s \<Longrightarrow> ms_blob_root s' = ms_blob_root s \<Longrightarrow> disk_ok H s' = disk_ok H s"
  by (simp add: disk_ok_def blob_key_def)

lemma blobs_same: "ms_disk s' = ms_disk s \<Longrightarrow> ms_blob_root s' = ms_blob_root s \<Longrightarrow> blobs s' = blobs s"
  by (simp add: blobs_def blob_key_def fun_eq_iff)

definition disk_only :: "InMemoryStore \<Rightarrow> InMemoryStore \<Rightarrow> bool" where
  "disk_only s s' \<longleftrightarrow> s' = s\<lparr>ms_disk := ms_disk s'\<rparr>"

lemma disk_only_refl [simp]: "disk_only s s"
  by (simp add: disk_only_def)

lemma disk_only_upd [simp]: "disk_only s (s\<lparr>ms_disk := d\<rparr>)"
  by (simp add: disk_only_def)

lemma disk_only_trans: "disk_only s t \<Longrightarrow> disk_only t u \<Longrightarrow> disk_only s u"
  unfolding disk_only_def by (metis (no_types) InMemoryStore.update_convs(3) InMemoryStore.surjective)

lemma disk_onlyE:
  assumes "disk_only s s'"
  obtains d where "s' = s\<lparr>ms_disk := d\<rparr>"
  using assms unfolding disk_only_def by blast

lemma disk_only_fields:
  assumes "disk_only s s'"
  shows "ms_uploads s' = ms_uploads s" "ms_tags s' = ms_tags s" "ms_ns_records s' = ms_ns_records s"
    "ms_ns_aliases s' = ms_ns_aliases s" "ms_blob_root s' = ms_blob_root s"
    "ms_upload_timeout_secs s' = ms_upload_timeout_secs s" "ms_edges s' = ms_edges s"
    "ms_current_epochs s' = ms_current_epochs s" "ms_epoch_roots s' = ms_epoch_roots s"
    "ms_sequences s' = ms_sequences s" "ms_fwd_index s' = ms_fwd_index s" "ms_rev_index s' = ms_rev_index s"
    "ms_rel_index s' = ms_rel_index s" "ms_asr_index s' = ms_asr_index s"
    "ms_assertion_inbound s' = ms_assertion_inbound s"
  using assms by (auto elim!: disk_onlyE)

lemma blob_put_verified_eq:
  assumes H: "hashes_ok H" and ok: "disk_ok H s" and v: "vc_ok H v"
  shows "\<exists>s'. blob_put_verified v s = (Ok (blobs s (vc_kappa v) = None), s') \<and> disk_ok H s' \<and>
     disk_only s s' \<and> blobs s' = absorb (vc_kappa v) (vc_content v) (blobs s)"
proof -
  have addr: "addresses H (vc_kappa v) (vc_content v)" using v by (simp add: vc_ok_def)
  have valid: "valid_label (vc_kappa v)" using H addr by (rule addresses_valid)
  from mem_blob_path_valid [OF valid, of s] obtain p
    where p: "mem_blob_path s (vc_kappa v) = Ok p" "fs_key p = blob_key s (vc_kappa v)" by blast
  have ex: "fs_exists (ms_disk s) p \<longleftrightarrow> blobs s (vc_kappa v) \<noteq> None"
    using valid by (simp add: fs_exists_def fs_read_def p(2) blobs_def)
  show ?thesis
  proof (cases "blobs s (vc_kappa v)")
    case None
    from write_blob_eq [OF H ok addr p(1)] obtain d
      where "write_blob p (vc_content v) s = (Ok (), s\<lparr>ms_disk := d\<rparr>)" "disk_ok H (s\<lparr>ms_disk := d\<rparr>)"
        "blobs (s\<lparr>ms_disk := d\<rparr>) = (blobs s)(vc_kappa v \<mapsto> vc_content v)" by blast
    with None ex show ?thesis
      by (intro exI [of _ "s\<lparr>ms_disk := d\<rparr>"]) (simp add: blob_put_verified_def p(1) absorb_def)
  next
    case (Some c)
    then show ?thesis
      using ok ex by (simp add: blob_put_verified_def p(1) absorb_def)
  qed
qed

lemma blob_delete_eq:
  assumes "hashes_ok H" and "disk_ok H s" and k: "valid_label k"
  shows "\<exists>s'. blob_delete k s = (Ok (), s') \<and> disk_ok H s' \<and> disk_only s s' \<and> blobs s' = (blobs s)(k := None)"
proof -
  from mem_blob_path_valid [OF k, of s] obtain p
    where p: "mem_blob_path s k = Ok p" "fs_key p = blob_key s k" by blast
  let ?s = "s\<lparr>ms_disk := fs_remove p (ms_disk s)\<rparr>"
  have "disk_ok H ?s"
    using assms(2) by (auto simp: disk_ok_def fs_remove_def p(2) split: if_splits)
  moreover have "blobs ?s k' = ((blobs s)(k := None)) k'" for k'
    using blob_key_inject [OF k, of k' s] k by (auto simp: blobs_def fs_remove_def p(2))
  ultimately show ?thesis
    by (auto simp: blob_delete_def p(1) fun_eq_iff)
qed

lemma vc_ok_compute: "hashes_ok H \<Longrightarrow> vc_compute H a c = Ok v \<Longrightarrow> vc_ok H v \<and> vc_kappa v = kappa_text H a c \<and> vc_content v = c"
  by (auto simp: vc_compute_eq vc_ok_def addresses_def vc_accessors split: if_splits)

lemma vc_ok_verify:
  assumes "hashes_ok H" and "vc_verify H k c = Ok v"
  shows "vc_ok H v \<and> vc_kappa v = k \<and> vc_content v = c \<and> (\<exists>a. k = kappa_text H a c \<and> hashable H a c \<and> vc_axis v = Ok a)"
proof -
  from assms obtain a where a: "k = kappa_text H a c" "hashable H a c"
      "v = \<lparr>vc_label = mk_label (str_bytes (kappa_text H a c)), vc_content = c\<rparr>"
    by (auto simp: vc_verify_Ok)
  with vc_accessors [OF assms(1) a(3)] show ?thesis
    by (auto simp: vc_ok_def addresses_def)
qed

lemma store_axes_eq:
  assumes H: "hashes_ok H" and ok: "disk_ok H s"
  shows "\<exists>s'. store_axes H client c mandatory_axes s =
       (Ok (if client = Sha256 then [] else [kappa_text H Sha256 c]), s') \<and> disk_ok H s' \<and> disk_only s s' \<and>
     blobs s' = (if client = Sha256 then blobs s else absorb (kappa_text H Sha256 c) c (blobs s))"
proof (cases "client = Sha256")
  case True
  then show ?thesis using ok by (simp add: mandatory_axes_def)
next
  case False
  obtain v where v: "vc_compute H Sha256 c = Ok v" using H by (simp add: vc_compute_eq)
  from vc_ok_compute [OF H v] have vok: "vc_ok H v" "vc_kappa v = kappa_text H Sha256 c" "vc_content v = c"
    by auto
  from blob_put_verified_eq [OF H ok vok(1)] False show ?thesis
    by (auto simp: mandatory_axes_def v vok)
qed

text \<open>What an ingest does to the blobs: the content appears under its label and its SHA-256 label.\<close>

lemma ingest_verified_eq:
  assumes H: "hashes_ok H" and ok: "disk_ok H s"
  shows "if addresses H k c
    then \<exists>s'. ingest_verified H k c s =
        (Ok \<lparr>ir_kappa = k, ir_newly_stored = (blobs s k = None),
            ir_additional_kappas = (if k = kappa_text H Sha256 c then [] else [kappa_text H Sha256 c]),
            ir_etag = None\<rparr>, s') \<and>
      disk_ok H s' \<and> disk_only s s' \<and> blobs s' = absorb (kappa_text H Sha256 c) c (absorb k c (blobs s))
    else \<exists>e. ingest_verified H k c s = (Err (Rejected e), s)"
proof (cases "vc_verify H k c")
  case (Ok v)
  from vc_ok_verify [OF H Ok] obtain a where v: "vc_ok H v" "vc_kappa v = k" "vc_content v = c" "vc_axis v = Ok a"
      "k = kappa_text H a c" "hashable H a c" by blast
  have addr: "addresses H k c" using v by (simp add: vc_ok_def)
  have sha: "a = Sha256 \<longleftrightarrow> k = kappa_text H Sha256 c"
    using v(5) kappa_text_axis_inject by blast
  from blob_put_verified_eq [OF H ok v(1)] obtain s1
    where s1: "blob_put_verified v s = (Ok (blobs s k = None), s1)" "disk_ok H s1" "disk_only s s1"
      "blobs s1 = absorb k c (blobs s)"
    unfolding v(2,3) by blast
  from store_axes_eq [OF H s1(2), of a c] obtain s2
    where s2: "store_axes H a c mandatory_axes s1 = (Ok (if a = Sha256 then [] else [kappa_text H Sha256 c]), s2)"
      "disk_ok H s2" "disk_only s1 s2"
      "blobs s2 = (if a = Sha256 then blobs s1 else absorb (kappa_text H Sha256 c) c (blobs s1))"
    by blast
  have "ingest_verified H k c s =
      (Ok \<lparr>ir_kappa = k, ir_newly_stored = (blobs s k = None),
          ir_additional_kappas = (if a = Sha256 then [] else [kappa_text H Sha256 c]), ir_etag = None\<rparr>, s2)"
    by (simp add: ingest_verified_def Ok v(2-4) s1(1) s2(1) with_additional_def ingest_new_def)
  moreover have "blobs s2 = absorb (kappa_text H Sha256 c) c (absorb k c (blobs s))"
    using s1(4) s2(4) sha by (cases "a = Sha256") auto
  moreover have "disk_only s s2"
    using s1(3) s2(3) by (rule disk_only_trans)
  ultimately show ?thesis
    using addr s2(2) unfolding sha by auto
next
  case (Err e)
  have "\<not> addresses H k c"
    using Err vc_verify_Ok [OF H, of k c] by (auto simp: addresses_def)
  then show ?thesis by (simp add: ingest_verified_def Err)
next
  case Panic
  then show ?thesis using vc_verify_not_Panic [OF H] by blast
qed

lemma ingest_compute_eq:
  assumes H: "hashes_ok H" and ok: "disk_ok H s"
  shows "if hashable H a c
    then \<exists>s'. ingest_compute H a c s =
        (Ok \<lparr>ir_kappa = kappa_text H a c, ir_newly_stored = (blobs s (kappa_text H a c) = None),
            ir_additional_kappas = (if a = Sha256 then [] else [kappa_text H Sha256 c]),
            ir_etag = None\<rparr>, s') \<and>
      disk_ok H s' \<and> disk_only s s' \<and>
      blobs s' = absorb (kappa_text H Sha256 c) c (absorb (kappa_text H a c) c (blobs s))
    else \<exists>e. ingest_compute H a c s = (Err (Rejected e), s)"
proof (cases "hashable H a c")
  case True
  then obtain v where v: "vc_compute H a c = Ok v" using H by (simp add: vc_compute_eq)
  from vc_ok_compute [OF H v] have vok: "vc_ok H v" "vc_kappa v = kappa_text H a c" "vc_content v = c"
    by auto
  let ?k = "kappa_text H a c"
  from blob_put_verified_eq [OF H ok vok(1)] obtain s1
    where s1: "blob_put_verified v s = (Ok (blobs s ?k = None), s1)" "disk_ok H s1" "disk_only s s1"
      "blobs s1 = absorb ?k c (blobs s)"
    unfolding vok(2,3) by blast
  from store_axes_eq [OF H s1(2), of a c] obtain s2
    where s2: "store_axes H a c mandatory_axes s1 = (Ok (if a = Sha256 then [] else [kappa_text H Sha256 c]), s2)"
      "disk_ok H s2" "disk_only s1 s2"
      "blobs s2 = (if a = Sha256 then blobs s1 else absorb (kappa_text H Sha256 c) c (blobs s1))"
    by blast
  have "ingest_compute H a c s =
      (Ok \<lparr>ir_kappa = ?k, ir_newly_stored = (blobs s ?k = None),
          ir_additional_kappas = (if a = Sha256 then [] else [kappa_text H Sha256 c]), ir_etag = None\<rparr>, s2)"
    by (simp add: ingest_compute_def v vok s1(1) s2(1) with_additional_def ingest_new_def)
  moreover have "blobs s2 = absorb (kappa_text H Sha256 c) c (absorb ?k c (blobs s))"
    using s1(4) s2(4) by (cases "a = Sha256") auto
  moreover have "disk_only s s2"
    using s1(3) s2(3) by (rule disk_only_trans)
  ultimately show ?thesis
    using True s2(2) by simp
next
  case False
  then show ?thesis using H by (simp add: ingest_compute_def vc_compute_eq)
qed

text \<open>The listing is the domain of the map, in order and without repetition.\<close>

lemma disk_entry:
  assumes "hashes_ok H" and "disk_ok H s"
  shows "(p, c) \<in> set (ms_disk s) \<longleftrightarrow> (\<exists>k. blobs s k = Some c \<and> p = blob_key s k)"
proof -
  have "(p, c) \<in> set (ms_disk s) \<longleftrightarrow> hget (ms_disk s) p = Some c"
    using assms(2) by (simp add: hget_eq_Some disk_ok_def)
  also have "\<dots> \<longleftrightarrow> (\<exists>k. blobs s k = Some c \<and> p = blob_key s k)"
    using assms addresses_valid unfolding disk_ok_def blobs_def by (metis option.distinct(1))
  finally show ?thesis .
qed

lemma blob_list_eq:
  assumes "hashes_ok H" and "disk_ok H s"
  shows "set (blob_list s) = {k. blobs s k \<noteq> None} \<and> sorted (blob_list s) \<and> distinct (blob_list s)"
proof -
  let ?f = "\<lambda>(p, _ :: bytes). blob_name (fs_key (ms_blob_root s)) p"
  have name: "?f (blob_key s k, c) = Some k" if "blobs s k \<noteq> None" for k c
    using that label_path_name by (auto simp: blob_key_def blobs_def split: if_splits)
  have "k \<in> set (List.map_filter ?f (ms_disk s)) \<longleftrightarrow> blobs s k \<noteq> None" for k
  proof
    assume "k \<in> set (List.map_filter ?f (ms_disk s))"
    then obtain p c where pc: "(p, c) \<in> set (ms_disk s)" "?f (p, c) = Some k"
      by (auto simp: map_filter_mem)
    then obtain k' where k': "blobs s k' = Some c" "p = blob_key s k'"
      using disk_entry [OF assms] by blast
    with name [of k' c] pc(2) have "k = k'" by simp
    with k'(1) show "blobs s k \<noteq> None" by simp
  next
    assume "blobs s k \<noteq> None"
    then obtain c where "blobs s k = Some c" by blast
    with name [of k c] disk_entry [OF assms, of "blob_key s k" c]
    show "k \<in> set (List.map_filter ?f (ms_disk s))"
      by (auto simp: map_filter_mem intro!: bexI [of _ "(blob_key s k, c)"])
  qed
  moreover have "distinct (List.map_filter ?f (ms_disk s))"
  proof (rule distinct_map_filter)
    show "distinct (ms_disk s)"
      using assms(2) by (simp add: disk_ok_def hm_ok_def distinct_map)
    fix x y k
    assume xy: "x \<in> set (ms_disk s)" "y \<in> set (ms_disk s)" "?f x = Some k" "?f y = Some k"
    obtain p c q d where eq: "x = (p, c)" "y = (q, d)" by fastforce
    from xy(1,2) obtain k1 k2 where "blobs s k1 = Some c" "p = blob_key s k1" "blobs s k2 = Some d" "q = blob_key s k2"
      unfolding eq disk_entry [OF assms] by blast
    with name [of k1 c] name [of k2 d] xy(3,4) show "x = y" unfolding eq by simp
  qed
  ultimately show ?thesis by (auto simp: blob_list_def)
qed

definition blob_inv :: "('x) hashes_scheme \<Rightarrow> InMemoryStore \<Rightarrow> bool" where
  "blob_inv H s \<longleftrightarrow> hashes_ok H \<and> disk_ok H s"

definition proved :: "('x) hashes_scheme \<Rightarrow> VerifiedContent \<Rightarrow> bool" where
  "proved H v \<longleftrightarrow> hashes_ok H \<and> vc_ok H v"

interpretation mem: blob_store "blob_inv H" valid_label "proved H" blobs blob_put_verified blob_get blob_delete
  blob_size blob_list
  for H :: "('x) hashes_scheme"
proof unfold_locales
  fix s v k c
  show "proved H v \<Longrightarrow> valid_label (vc_kappa v)"
    using addresses_valid by (auto simp: proved_def vc_ok_def)
  show "blobs s k = Some c \<Longrightarrow> valid_label k"
    by (simp add: blobs_def split: if_splits)
  show "blob_inv H s \<Longrightarrow> valid_label k \<Longrightarrow> blob_get s k = ok_or (NotFound k) (blobs s k)"
    by (rule blob_get_eq)
  show "blob_inv H s \<Longrightarrow> valid_label k \<Longrightarrow>
      blob_size s k = rbind (ok_or (NotFound k) (blobs s k)) (\<lambda>c. Ok (word_of_nat (length c)))"
    by (rule blob_size_eq)
  show "blob_inv H s \<Longrightarrow> set (blob_list s) = {k. blobs s k \<noteq> None} \<and> sorted (blob_list s) \<and> distinct (blob_list s)"
    unfolding blob_inv_def by (elim conjE) (rule blob_list_eq)
  show "\<exists>s'. blob_put_verified v s = (Ok (blobs s (vc_kappa v) = None), s') \<and> blob_inv H s' \<and>
      blobs s' = absorb (vc_kappa v) (vc_content v) (blobs s)"
    if "blob_inv H s" "proved H v"
    using that blob_put_verified_eq [of H s v] by (auto simp: blob_inv_def proved_def)
  show "\<exists>s'. blob_delete k s = (Ok (), s') \<and> blob_inv H s' \<and> blobs s' = (blobs s)(k := None)"
    if "blob_inv H s" "valid_label k"
    using that blob_delete_eq [of H s k] by (auto simp: blob_inv_def)
qed

section \<open>Tags\<close>

lemma ensure_namespace_keeps [simp]:
  "ms_disk (ensure_namespace H ns s) = ms_disk s"
  "ms_blob_root (ensure_namespace H ns s) = ms_blob_root s"
  "ms_tags (ensure_namespace H ns s) = ms_tags s"
  "ms_sequences (ensure_namespace H ns s) = ms_sequences s"
  "ms_edges (ensure_namespace H ns s) = ms_edges s"
  "ms_fwd_index (ensure_namespace H ns s) = ms_fwd_index s"
  "ms_rev_index (ensure_namespace H ns s) = ms_rev_index s"
  "ms_rel_index (ensure_namespace H ns s) = ms_rel_index s"
  "ms_asr_index (ensure_namespace H ns s) = ms_asr_index s"
  "ms_assertion_inbound (ensure_namespace H ns s) = ms_assertion_inbound s"
  by (simp_all add: ensure_namespace_def Let_def)

lemma bump_tag_get:
  "hget (snd (bump_tag key name kappa tags)) key' =
     (if key' = key then Some \<lparr>te_name = name, te_kappa = kappa, te_version = fst (bump_tag key name kappa tags)\<rparr>
      else hget tags key')"
  by (simp add: bump_tag_def Let_def)

lemma bump_tag_ok: "hm_ok tags \<Longrightarrow> hm_ok (snd (bump_tag key name kappa tags))"
  by (simp add: bump_tag_def Let_def)

lemma tag_set_eq:
  "tag_set H ns name kappa s =
     (let b = bump_tag (tag_key H ns name) name kappa (ms_tags s)
      in (Ok (fst b), (ensure_namespace H ns s)\<lparr>ms_tags := snd b\<rparr>))"
  by (simp add: tag_set_def Let_def case_prod_beta)

text \<open>
  C20. Setting a tag returns its new version, one more than the version it had (wrapping at 64 bits) or
  one for a new tag, and the tag then resolves to the kappa with that version. Every other tag resolves as before.
  Tags are found by the 64-bit hash of their name: a name with the same hash in the same namespace
  reads the tag just set, under the other name.
\<close>

theorem tag_set_then_get:
  "\<exists>v s'. tag_set H ns name kappa s = (Ok v, s') \<and>
     v = (case tag_get H s ns name of Ok e \<Rightarrow> te_version e + 1 | _ \<Rightarrow> 1) \<and>
     (\<forall>ns' name'. tag_get H s' ns' name' =
        (if ns_uuid ns' = ns_uuid ns \<and> item_hash H name' = item_hash H name
         then Ok \<lparr>te_name = name, te_kappa = kappa, te_version = v\<rparr> else tag_get H s ns' name'))"
  by (auto simp: tag_set_eq Let_def tag_get_def bump_tag_get tag_key_def)
    (simp add: bump_tag_def Let_def split: option.splits)

lemma batch_check_cases:
  "batch_check H ns tags us = Ok () \<and>
     (\<forall>u \<in> set us. \<forall>v. tu_expected_version u = Some v \<longrightarrow>
        v = (case hget tags (tag_key H ns (tu_name u)) of Some e \<Rightarrow> te_version e | None \<Rightarrow> 0)) \<or>
   (\<exists>m. batch_check H ns tags us = Err (Conflict m)) \<and>
     (\<exists>u \<in> set us. \<exists>v. tu_expected_version u = Some v \<and>
        v \<noteq> (case hget tags (tag_key H ns (tu_name u)) of Some e \<Rightarrow> te_version e | None \<Rightarrow> 0))"
  by (induction us) (auto simp: Let_def split: option.splits)

definition tag_version :: "('x) hashes_scheme \<Rightarrow> InMemoryStore \<Rightarrow> NamespaceRef \<Rightarrow> string \<Rightarrow> u64" where
  "tag_version H s ns name = (case tag_get H s ns name of Ok e \<Rightarrow> te_version e | _ \<Rightarrow> 0)"

definition expectation_met :: "('x) hashes_scheme \<Rightarrow> InMemoryStore \<Rightarrow> NamespaceRef \<Rightarrow> TagUpdate \<Rightarrow> bool" where
  "expectation_met H s ns u \<longleftrightarrow>
     (case tu_expected_version u of None \<Rightarrow> True | Some v \<Rightarrow> v = tag_version H s ns (tu_name u))"

lemma tag_version_hget:
  "tag_version H s ns name = (case hget (ms_tags s) (tag_key H ns name) of Some e \<Rightarrow> te_version e | None \<Rightarrow> 0)"
  by (simp add: tag_version_def tag_get_def split: option.splits)

lemma batch_apply_tag:
  "hget (batch_apply H ns us tags) key =
     (case filter (\<lambda>u. tag_key H ns (tu_name u) = key) us of
        [] \<Rightarrow> hget tags key
      | us' \<Rightarrow> Some \<lparr>te_name = tu_name (last us'), te_kappa = tu_kappa (last us'),
                    te_version = (case hget tags key of Some e \<Rightarrow> te_version e | None \<Rightarrow> 0) + word_of_nat (length us')\<rparr>)"
proof (induction us arbitrary: tags)
  case Nil
  show ?case by (simp add: batch_apply_def)
next
  case (Cons u us)
  have step: "batch_apply H ns (u # us) tags =
      batch_apply H ns us (snd (bump_tag (tag_key H ns (tu_name u)) (tu_name u) (tu_kappa u) tags))"
    by (simp add: batch_apply_def)
  show ?case
    unfolding step Cons.IH
    by (auto simp: bump_tag_get) (auto simp: bump_tag_def Let_def split: list.splits option.splits)
qed

text \<open>
  C21. A batch is all or nothing. If every expected version matches the version before the batch, each
  tag ends with the kappa of its last update and a version advanced by the number of its updates;
  otherwise the call returns a conflict and no tag changes.
\<close>

theorem tag_batch_atomic:
  "(if list_all (expectation_met H s ns) us
    then \<exists>s'. tag_set_batch H ns us s = (Ok (), s') \<and>
      (\<forall>name. tag_get H s' ns name =
        (case filter (\<lambda>u. item_hash H (tu_name u) = item_hash H name) us of
           [] \<Rightarrow> tag_get H s ns name
         | us' \<Rightarrow> Ok \<lparr>te_name = tu_name (last us'), te_kappa = tu_kappa (last us'),
                     te_version = tag_version H s ns name + word_of_nat (length us')\<rparr>))
    else \<exists>m s'. tag_set_batch H ns us s = (Err (Conflict m), s') \<and> ms_tags s' = ms_tags s)"
proof -
  have met: "expectation_met H s ns u \<longleftrightarrow>
      (\<forall>v. tu_expected_version u = Some v \<longrightarrow>
         v = (case hget (ms_tags s) (tag_key H ns (tu_name u)) of Some e \<Rightarrow> te_version e | None \<Rightarrow> 0))" for u
    by (simp add: expectation_met_def tag_version_hget split: option.splits)
  show ?thesis
  proof (cases "list_all (expectation_met H s ns) us")
    case True
    then have "batch_check H ns (ms_tags s) us = Ok ()"
      using batch_check_cases [of H ns "ms_tags s" us] unfolding list_all_iff met by blast
    then have run: "tag_set_batch H ns us s = (Ok (), (ensure_namespace H ns s)\<lparr>ms_tags := batch_apply H ns us (ms_tags s)\<rparr>)"
      by (simp add: tag_set_batch_def Let_def)
    show ?thesis
      unfolding run using True
      by (simp add: tag_get_def batch_apply_tag tag_version_hget tag_key_def split: list.splits)
  next
    case False
    then obtain m where "batch_check H ns (ms_tags s) us = Err (Conflict m)"
      using batch_check_cases [of H ns "ms_tags s" us] unfolding list_all_iff met by blast
    then show ?thesis
      using False by (simp add: tag_set_batch_def Let_def)
  qed
qed

text \<open>
  C1. The blobs of the store implement a map from labels to contents. On a store whose files all lie at
  the path of a label of their content, a claimed digest is accepted exactly when it is a label of
  the content; the content then appears under that label and under its SHA-256 label, unless something is
  there already, and nothing else changes. A wrong claim is rejected and changes nothing. Stored labels
  read back as content that hashes to them.
\<close>

theorem ingest_refines_map:
  assumes "hashes_ok H" and "disk_ok H s"
  shows "(if verify_kappa H k c = Ok True
     then \<exists>s'. ingest_verified H k c s =
        (Ok \<lparr>ir_kappa = k, ir_newly_stored = (blobs s k = None),
            ir_additional_kappas = (if k = kappa_text H Sha256 c then [] else [kappa_text H Sha256 c]),
            ir_etag = None\<rparr>, s') \<and>
        disk_ok H s' \<and> disk_only s s' \<and> blobs s' = absorb (kappa_text H Sha256 c) c (absorb k c (blobs s))
     else \<exists>e. ingest_verified H k c s = (Err (Rejected e), s)) \<and>
    (\<forall>k' c'. blob_get_verified H s k' = Ok c' \<longleftrightarrow> blobs s k' = Some c')"
proof -
  have get: "blob_get_verified H s k' = Ok c' \<longleftrightarrow> blobs s k' = Some c'" for k' c'
  proof
    assume v: "blob_get_verified H s k' = Ok c'"
    then obtain c0 where c0: "blob_get s k' = Ok c0"
      unfolding blob_get_verified_def rbind_eq_Ok by blast
    have "blob_get s k' = Ok c'" and "verify_kappa H k' c' = Ok True"
      using v by (simp_all add: blob_get_verified_def c0 split: result.splits bool.splits)
    moreover from this(2) have "valid_label k'"
      using assms(1) addresses_valid addresses_verify by blast
    ultimately show "blobs s k' = Some c'" by (simp add: blob_get_eq)
  next
    assume b: "blobs s k' = Some c'"
    then have "addresses H k' c'" using assms by (intro blobs_addressed)
    with assms(1) have "verify_kappa H k' c' = Ok True" "valid_label k'"
      by (simp_all add: addresses_verify [symmetric] addresses_valid)
    with b show "blob_get_verified H s k' = Ok c'"
      by (simp add: blob_get_verified_def blob_get_eq)
  qed
  show ?thesis
    using ingest_verified_eq [OF assms, of k c] get unfolding addresses_verify [OF assms(1)] by blast
qed

lemma disk_ok_empty [simp]: "ms_disk s = [] \<Longrightarrow> disk_ok H s"
  by (simp add: disk_ok_def)

theorem ingest_refines_map_witness:
  "\<exists>s. fst (ingest_verified sample_crypto (kappa_text sample_crypto Blake3 [1, 2]) [1, 2] (mem_new [''blobs''] None [])) \<noteq> Panic \<and>
     s = snd (ingest_verified sample_crypto (kappa_text sample_crypto Blake3 [1, 2]) [1, 2] (mem_new [''blobs''] None [])) \<and>
     blobs s (kappa_text sample_crypto Blake3 [1, 2]) = Some [1, 2] \<and>
     blobs s (kappa_text sample_crypto Sha256 [1, 2]) = Some [1, 2]"
proof -
  let ?s = "mem_new [''blobs''] None []" and ?k = "kappa_text sample_crypto Blake3 [1, 2]"
  have H: "hashes_ok sample_crypto" using sample_crypto_ok by simp
  have d: "disk_ok sample_crypto ?s" by (simp add: mem_new_def)
  have v: "verify_kappa sample_crypto ?k [1, 2] = Ok True"
    using H by (auto simp: verify_kappa_Ok_True intro!: exI [of _ Blake3])
  have none: "blobs ?s k = None" for k by (simp add: mem_new_def blobs_def)
  from ingest_refines_map [OF H d, of ?k "[1, 2]"] v obtain s' where
    "ingest_verified sample_crypto ?k [1, 2] ?s =
        (Ok \<lparr>ir_kappa = ?k, ir_newly_stored = (blobs ?s ?k = None),
            ir_additional_kappas = (if ?k = kappa_text sample_crypto Sha256 [1, 2] then []
              else [kappa_text sample_crypto Sha256 [1, 2]]),
            ir_etag = None\<rparr>, s')"
    "blobs s' = absorb (kappa_text sample_crypto Sha256 [1, 2]) [1, 2] (absorb ?k [1, 2] (blobs ?s))"
    by auto
  then show ?thesis using none by (intro exI [of _ s']) (simp add: absorb_apply)
qed

end
