(* ===== verification/Memory_Upload.thy ===== *)
theory Memory_Upload
  imports Memory_Store
begin

text \<open>
  Uploads and compressed blobs of the in-memory store (\<open>store/memory/mod.rs\<close>). A session grows by
  parts at consecutive offsets, expires, and is consumed by completion. The lemmas follow a session from
  its parts to the stored blob, and show when an upload is refused.

  \<open>now\<close> is \<open>Instant::now()\<close> in nanoseconds and \<open>elapsed\<close> saturates at zero. The decompressors are
  third-party code: \<open>decoders\<close> maps an algorithm and its input to the output or an error.
\<close>

section \<open>Definitions\<close>

definition expired :: "nat \<Rightarrow> u64 \<Rightarrow> UploadSession \<Rightarrow> bool" where
  "expired now timeout u \<longleftrightarrow> now - us_created_at u > unat timeout * 10 ^ 9"

definition upload_begin ::
  "('x) hashes_scheme \<Rightarrow> string \<Rightarrow> nat \<Rightarrow> NamespaceRef \<Rightarrow> u64 \<Rightarrow> InMemoryStore \<Rightarrow> string store_op" where
  "upload_begin H upload_id now namespace max_size s =
     (Ok upload_id, s\<lparr>ms_uploads := hput upload_id
        \<lparr>us_namespace = ns_display H namespace, us_data = [], us_max_size = max_size, us_created_at = now,
         us_part_digests = []\<rparr> (ms_uploads s)\<rparr>)"

text \<open>The expiration test at the head of an operation: an expired session is removed.\<close>

definition drop_expired :: "nat \<Rightarrow> string \<Rightarrow> InMemoryStore \<Rightarrow> bool \<times> InMemoryStore" where
  "drop_expired now upload_id s =
     (case ms_upload_timeout_secs s of
        None \<Rightarrow> (False, s)
      | Some timeout \<Rightarrow>
          (case hget (ms_uploads s) upload_id of
             None \<Rightarrow> (False, s)
           | Some u \<Rightarrow> if expired now timeout u then (True, s\<lparr>ms_uploads := hdel upload_id (ms_uploads s)\<rparr>) else (False, s)))"

definition upload_put_part ::
  "('x) hashes_scheme \<Rightarrow> nat \<Rightarrow> string \<Rightarrow> u64 \<Rightarrow> bytes \<Rightarrow> InMemoryStore \<Rightarrow> u64 store_op" where
  "upload_put_part H now upload_id offset part s =
     (case drop_expired now upload_id s of
        (True, s) \<Rightarrow> (Err (NotFound (''upload '' @ upload_id @ '' expired'')), s)
      | (False, s) \<Rightarrow>
          sbind (ok_or (NotFound (''upload '' @ upload_id)) (hget (ms_uploads s) upload_id), s) (\<lambda>u s.
          if offset \<noteq> word_of_nat (length (us_data u)) then
            (Err (Conflict (''out-of-order: expected offset '' @ show_nat (length (us_data u)) @
               '', got '' @ show_nat (unat offset))), s)
          else if us_max_size u > 0 \<and> word_of_nat (length (us_data u) + length part) > us_max_size u then
            (Err (Rejected (''upload exceeds max size '' @ show_nat (unat (us_max_size u)))), s)
          else
            let part_number = word_of_nat (length (us_part_digests u)) + 1;
                u' = u\<lparr>us_part_digests := us_part_digests u @
                         [(part_number, md5_digest H part, word_of_nat (length part))],
                       us_data := us_data u @ part\<rparr>
            in (Ok (word_of_nat (length (us_data u'))), s\<lparr>ms_uploads := hput upload_id u' (ms_uploads s)\<rparr>)))"

text \<open>
  The reader over the staged content is a cursor: it returns the content in chunks of the 16 KiB
  buffer.
\<close>

function chunks :: "nat \<Rightarrow> bytes \<Rightarrow> bytes list" where
  "chunks n c = (if c = [] then [] else take (Suc n) c # chunks n (drop (Suc n) c))"
  by pat_completeness auto
termination
  by (relation "measure (\<lambda>(n, c). length c)") auto

declare chunks.simps [simp del]

definition cursor :: "bytes \<Rightarrow> reader" where
  "cursor content = map Chunk (chunks 16383 content)"

definition claimed_axis :: "string option \<Rightarrow> string" where
  "claimed_axis claimed =
     (case claimed of
        Some d \<Rightarrow> (case split_once CHR '':'' d of Some (a, _) \<Rightarrow> a | None \<Rightarrow> ''sha256'')
      | None \<Rightarrow> ''sha256'')"

definition upload_complete ::
  "('x) hashes_scheme \<Rightarrow> ('h) hasher \<Rightarrow> nat \<Rightarrow> string \<Rightarrow> string option \<Rightarrow> InMemoryStore \<Rightarrow> IngestResult store_op" where
  "upload_complete H S now upload_id claimed s =
     sbind (ok_or (NotFound (''upload '' @ upload_id)) (hget (ms_uploads s) upload_id), s) (\<lambda>u s.
     let s = s\<lparr>ms_uploads := hdel upload_id (ms_uploads s)\<rparr> in
     if (case ms_upload_timeout_secs s of Some timeout \<Rightarrow> expired now timeout u | None \<Rightarrow> False)
     then (Err (NotFound (''upload '' @ upload_id @ '' expired'')), s)
     else
       sbind (map_err (\<lambda>e. Rejected (label_error_msg e))
                (streaming_compute_kappa H S (claimed_axis claimed) (cursor (us_data u))), s) (\<lambda>prf s.
       if (case claimed of Some d \<Rightarrow> primary prf \<noteq> d | None \<Rightarrow> False)
       then (Err (Rejected (''digest mismatch: expected '' @ the claimed @ '', computed '' @ primary prf)), s)
       else ingest_verified H (primary prf) (us_data u) s))"

definition upload_abort :: "string \<Rightarrow> InMemoryStore \<Rightarrow> unit store_op" where
  "upload_abort upload_id s = (Ok (), s\<lparr>ms_uploads := hdel upload_id (ms_uploads s)\<rparr>)"

definition upload_bytes_received :: "nat \<Rightarrow> string \<Rightarrow> InMemoryStore \<Rightarrow> u64 option \<times> InMemoryStore" where
  "upload_bytes_received now upload_id s =
     (case drop_expired now upload_id s of
        (True, s) \<Rightarrow> (None, s)
      | (False, s) \<Rightarrow> (map_option (\<lambda>u. word_of_nat (length (us_data u))) (hget (ms_uploads s) upload_id), s))"

definition upload_namespace :: "nat \<Rightarrow> string \<Rightarrow> InMemoryStore \<Rightarrow> string option \<times> InMemoryStore" where
  "upload_namespace now upload_id s =
     (case drop_expired now upload_id s of
        (True, s) \<Rightarrow> (None, s)
      | (False, s) \<Rightarrow> (map_option us_namespace (hget (ms_uploads s) upload_id), s))"

definition upload_part_info :: "('x) hashes_scheme \<Rightarrow> InMemoryStore \<Rightarrow> string \<Rightarrow> (u32 \<times> string \<times> u64) list" where
  "upload_part_info H s upload_id =
     (case hget (ms_uploads s) upload_id of
        Some u \<Rightarrow> map (\<lambda>(pn, md5, n). (pn, [CHR 0x22] @ hex_encode H md5 @ [CHR 0x22], n)) (us_part_digests u)
      | None \<Rightarrow> [])"

definition upload_evict_expired :: "nat \<Rightarrow> u64 \<Rightarrow> InMemoryStore \<Rightarrow> nat \<times> InMemoryStore" where
  "upload_evict_expired now timeout s =
     (let kept = hretain (\<lambda>_ u. \<not> expired now timeout u) (ms_uploads s)
      in (length (ms_uploads s) - length kept, s\<lparr>ms_uploads := kept\<rparr>))"

section \<open>Compressed blobs\<close>

definition ingest_compressed ::
  "('x) hashes_scheme \<Rightarrow> string \<Rightarrow> bytes \<Rightarrow> string \<Rightarrow> u64 \<Rightarrow> InMemoryStore \<Rightarrow> IngestResult store_op" where
  "ingest_compressed H uncompressed_hash content compression uncompressed_size s =
     (let kappa = kappa_from_bytes H content in
      sbind (mem_blob_path s kappa, s) (\<lambda>p s.
      sbind (if fs_exists (ms_disk s) p then (Ok (), s) else write_blob p content s) (\<lambda>_ s.
      (Ok (ingest_new kappa True),
       s\<lparr>ms_compression_records :=
           hput uncompressed_hash (kappa, compression, content, uncompressed_size) (ms_compression_records s)\<rparr>))))"

definition blob_open_compressed :: "InMemoryStore \<Rightarrow> string \<Rightarrow> (bytes, StoreError) result" where
  "blob_open_compressed s uncompressed_hash =
     rbind (ok_or (NotFound uncompressed_hash) (hget (ms_compression_records s) uncompressed_hash))
       (\<lambda>(_, _, compressed, _). Ok compressed)"

type_synonym decoders = "string \<Rightarrow> bytes \<Rightarrow> (bytes, string) result"

definition decompress_bytes :: "decoders \<Rightarrow> bytes \<Rightarrow> string \<Rightarrow> (bytes, StoreError) result" where
  "decompress_bytes D content algorithm =
     (if algorithm = ''none'' then Ok content
      else if algorithm = ''zstd'' then map_err (\<lambda>e. Io (''zstd: '' @ e)) (D ''zstd'' content)
      else if algorithm = ''xz'' \<or> algorithm = ''lzma'' then map_err (\<lambda>e. Io (''xz: '' @ e)) (D ''xz'' content)
      else if algorithm = ''bzip2'' then map_err (\<lambda>e. Io (''bzip2: '' @ e)) (D ''bzip2'' content)
      else Err (Rejected (''unsupported compression: '' @ algorithm)))"

definition blob_open_decompressed :: "decoders \<Rightarrow> InMemoryStore \<Rightarrow> string \<Rightarrow> (bytes, StoreError) result" where
  "blob_open_decompressed D s uncompressed_hash =
     rbind (ok_or (NotFound uncompressed_hash) (hget (ms_compression_records s) uncompressed_hash))
       (\<lambda>(_, algo, compressed, _). decompress_bytes D compressed algo)"

section \<open>From parts to a blob\<close>

lemma chunks_concat: "concat (chunks n c) = c" and chunks_nonempty: "\<forall>x \<in> set (chunks n c). x \<noteq> []"
proof (induction n c rule: chunks.induct)
  case (1 n c)
  { case 1 show ?case using "1.IH"(1) by (simp add: chunks.simps [of n c]) }
  { case 2 show ?case using "1.IH"(2) by (simp add: chunks.simps [of n c]) }
qed

lemma streaming_cursor:
  assumes "hashes_ok H" and "hasher_ok H S"
  shows "streaming_compute_kappa H S (axis_as_str a) (cursor c) =
     (if hashable H a c then Ok (proof_single (kappa_text H a c)) else Err CollisionDetected)"
  using streaming_axis [OF assms, of "chunks 16383 c" a] chunks_nonempty by (simp add: cursor_def chunks_concat)

lemma claimed_axis_label [simp]: "claimed_axis (Some (kappa_text H a c)) = axis_as_str a"
proof -
  have "CHR '':'' \<notin> set (axis_as_str a)" by (cases a) simp_all
  then have "split_once CHR '':'' (kappa_text H a c) = Some (axis_as_str a, hex_text (digest_of H a c))"
    by (simp add: kappa_text_def label_text_hex)
  then show ?thesis by (simp add: claimed_axis_def)
qed

text \<open>A client that sends the parts of its content in order.\<close>

fun send_parts :: "('x) hashes_scheme \<Rightarrow> nat \<Rightarrow> string \<Rightarrow> nat \<Rightarrow> bytes list \<Rightarrow> InMemoryStore \<Rightarrow> u64 store_op" where
  "send_parts H now upload_id n [] s = (Ok (word_of_nat n), s)"
| "send_parts H now upload_id n (part # parts) s =
     sbind (upload_put_part H now upload_id (word_of_nat n) part s) (\<lambda>_ s.
     send_parts H now upload_id (n + length part) parts s)"

definition session_live :: "InMemoryStore \<Rightarrow> nat \<Rightarrow> string \<Rightarrow> UploadSession \<Rightarrow> bool" where
  "session_live s now upload_id u \<longleftrightarrow>
     hget (ms_uploads s) upload_id = Some u \<and>
     (case ms_upload_timeout_secs s of None \<Rightarrow> True | Some timeout \<Rightarrow> \<not> expired now timeout u)"

lemma drop_expired_live: "session_live s now upload_id u \<Longrightarrow> drop_expired now upload_id s = (False, s)"
  by (auto simp: session_live_def drop_expired_def split: option.splits)

definition uploads_only :: "InMemoryStore \<Rightarrow> InMemoryStore \<Rightarrow> bool" where
  "uploads_only s s' \<longleftrightarrow> s' = s\<lparr>ms_uploads := ms_uploads s'\<rparr>"

lemma uploads_only_blobs:
  assumes "uploads_only s s'"
  shows "blobs s' = blobs s" and "disk_ok H s' = disk_ok H s"
proof -
  obtain w where s': "s' = s\<lparr>ms_uploads := w\<rparr>" using assms unfolding uploads_only_def by blast
  show "blobs s' = blobs s" "disk_ok H s' = disk_ok H s"
    unfolding s' by (simp_all add: fun_eq_iff blobs_def blob_key_def disk_ok_def)
qed

lemma put_part_live:
  assumes live: "session_live s now upload_id u" and n: "n = length (us_data u)"
    and small: "n + length part < 2 ^ 64"
    and fits: "us_max_size u = 0 \<or> n + length part \<le> unat (us_max_size u)"
  shows "\<exists>u'. upload_put_part H now upload_id (word_of_nat n) part s =
       (Ok (word_of_nat (n + length part)), s\<lparr>ms_uploads := hput upload_id u' (ms_uploads s)\<rparr>) \<and>
     us_data u' = us_data u @ part \<and> us_max_size u' = us_max_size u \<and> us_created_at u' = us_created_at u"
proof -
  have get: "hget (ms_uploads s) upload_id = Some u"
    using live by (simp add: session_live_def)
  have "unat (word_of_nat (length (us_data u) + length part) :: u64) = length (us_data u) + length part"
    using small unfolding n by (rule unat_len)
  then have big: "(us_max_size u > 0 \<and> word_of_nat (length (us_data u) + length part) > us_max_size u) = False"
    using fits unfolding n by (auto simp: word_less_nat_alt)
  let ?u' = "u\<lparr>us_part_digests := us_part_digests u @
      [(word_of_nat (length (us_part_digests u)) + 1, md5_digest H part, word_of_nat (length part))],
      us_data := us_data u @ part\<rparr>"
  have "upload_put_part H now upload_id (word_of_nat n) part s =
       (Ok (word_of_nat (n + length part)), s\<lparr>ms_uploads := hput upload_id ?u' (ms_uploads s)\<rparr>)"
    unfolding n upload_put_part_def drop_expired_live [OF live] prod.case bool.case get ok_or.simps sbind.simps
      big Let_def by simp
  then show ?thesis
    by (intro exI [of _ ?u']) simp
qed

lemma send_parts_live:
  assumes "session_live s now upload_id u" and "n = length (us_data u)"
    and "n + length (concat parts) < 2 ^ 64"
    and "us_max_size u = 0 \<or> n + length (concat parts) \<le> unat (us_max_size u)"
  shows "\<exists>s' u'. send_parts H now upload_id n parts s = (Ok (word_of_nat (n + length (concat parts))), s') \<and>
     uploads_only s s' \<and> session_live s' now upload_id u' \<and> us_data u' = us_data u @ concat parts \<and>
     us_created_at u' = us_created_at u"
  using assms
proof (induction parts arbitrary: s u n)
  case Nil
  then show ?case by (intro exI [of _ s] exI [of _ u]) (simp add: uploads_only_def)
next
  case (Cons part parts)
  from put_part_live [OF Cons.prems(1,2), of part H] Cons.prems(3,4) obtain u1 where
    u1: "upload_put_part H now upload_id (word_of_nat n) part s =
       (Ok (word_of_nat (n + length part)), s\<lparr>ms_uploads := hput upload_id u1 (ms_uploads s)\<rparr>)"
      "us_data u1 = us_data u @ part" "us_max_size u1 = us_max_size u" "us_created_at u1 = us_created_at u"
    by auto
  let ?s1 = "s\<lparr>ms_uploads := hput upload_id u1 (ms_uploads s)\<rparr>"
  have live: "session_live ?s1 now upload_id u1"
    using Cons.prems(1) u1(4) by (simp add: session_live_def expired_def split: option.splits)
  have "\<exists>s' u'. send_parts H now upload_id (n + length part) parts ?s1 =
       (Ok (word_of_nat (n + length part + length (concat parts))), s') \<and>
     uploads_only ?s1 s' \<and> session_live s' now upload_id u' \<and> us_data u' = us_data u1 @ concat parts \<and>
     us_created_at u' = us_created_at u1"
    by (rule Cons.IH [OF live]) (use Cons.prems u1 in auto)
  then obtain s' u' where
    "send_parts H now upload_id (n + length part) parts ?s1 =
       (Ok (word_of_nat (n + length part + length (concat parts))), s')"
    "uploads_only ?s1 s'" "session_live s' now upload_id u'" "us_data u' = us_data u1 @ concat parts"
    "us_created_at u' = us_created_at u1" by blast
  then show ?case
    by (intro exI [of _ s'] exI [of _ u']) (simp add: u1 uploads_only_def add.assoc)
qed

lemma upload_complete_live:
  assumes H: "hashes_ok H" and S: "hasher_ok H S" and ok: "disk_ok H s"
    and live: "session_live s now upload_id u" and hash: "hashable H a (us_data u)"
  shows "upload_complete H S now upload_id (Some (kappa_text H a (us_data u))) s =
     ingest_verified H (kappa_text H a (us_data u)) (us_data u) (s\<lparr>ms_uploads := hdel upload_id (ms_uploads s)\<rparr>)"
  using live hash
  by (simp add: upload_complete_def session_live_def streaming_cursor [OF H S] proof_single_def Let_def
      split: option.splits)

text \<open>
  C23. An upload that follows the protocol completes. A client opens a session, sends the parts of its
  content in order before the session expires and within the size limit, and completes it with a label of the
  content: every call succeeds, the content is stored under the label, and the session is gone.
\<close>

theorem upload_completes:
  assumes "hashes_ok H" and "hasher_ok H S" and "disk_ok H s"
    and "hashable H a (concat parts)" and "length (concat parts) < 2 ^ 64"
    and "max_size = 0 \<or> length (concat parts) \<le> unat max_size"
    and "\<forall>timeout. ms_upload_timeout_secs s = Some timeout \<longrightarrow> now' - now \<le> unat timeout * 10 ^ 9"
    and "now \<le> now'"
  shows "\<exists>s1 s2 r s3. upload_begin H upload_id now ns max_size s = (Ok upload_id, s1) \<and>
     send_parts H now' upload_id 0 parts s1 = (Ok (word_of_nat (length (concat parts))), s2) \<and>
     upload_complete H S now' upload_id (Some (kappa_text H a (concat parts))) s2 = (Ok r, s3) \<and>
     ir_kappa r = kappa_text H a (concat parts) \<and>
     blobs s3 = absorb (kappa_text H Sha256 (concat parts)) (concat parts)
       (absorb (kappa_text H a (concat parts)) (concat parts) (blobs s)) \<and>
     hget (ms_uploads s3) upload_id = None"
proof -
  let ?c = "concat parts" and ?k = "kappa_text H a (concat parts)"
  let ?u = "\<lparr>us_namespace = ns_display H ns, us_data = [], us_max_size = max_size, us_created_at = now,
      us_part_digests = []\<rparr>"
  let ?s1 = "s\<lparr>ms_uploads := hput upload_id ?u (ms_uploads s)\<rparr>"
  have begin_eq: "upload_begin H upload_id now ns max_size s = (Ok upload_id, ?s1)"
    by (simp add: upload_begin_def)
  have live1: "session_live ?s1 now' upload_id ?u"
    using assms(7) by (simp add: session_live_def expired_def not_less split: option.splits)
  from send_parts_live [OF live1, of 0 parts H] assms(5,6) obtain s2 u2 where
    s2: "send_parts H now' upload_id 0 parts ?s1 = (Ok (word_of_nat (length ?c)), s2)"
      "uploads_only ?s1 s2" "session_live s2 now' upload_id u2" "us_data u2 = ?c"
    by auto
  have "uploads_only s ?s1" by (simp add: uploads_only_def)
  from uploads_only_blobs(1) [OF this] uploads_only_blobs(1) [OF s2(2)] assms(3)
    uploads_only_blobs(2) [OF this, of H] uploads_only_blobs(2) [OF s2(2), of H]
  have b2: "blobs s2 = blobs s" "disk_ok H s2" by simp_all
  let ?t = "s2\<lparr>ms_uploads := hdel upload_id (ms_uploads s2)\<rparr>"
  have "uploads_only s2 ?t" by (simp add: uploads_only_def)
  from uploads_only_blobs(1) [OF this] uploads_only_blobs(2) [OF this, of H] b2 have bt: "blobs ?t = blobs s" "disk_ok H ?t" by simp_all
  have addr: "addresses H ?k ?c" using assms(4) by (auto simp: addresses_def)
  from ingest_verified_eq [OF assms(1) bt(2), of ?k ?c] addr obtain r s3 where
    s3: "ingest_verified H ?k ?c ?t = (Ok r, s3)" "ir_kappa r = ?k" "disk_only ?t s3"
      "blobs s3 = absorb (kappa_text H Sha256 ?c) ?c (absorb ?k ?c (blobs s))"
    unfolding bt(1) by auto
  have "hget (ms_uploads s3) upload_id = None"
    using disk_only_fields [OF s3(3)] by simp
  moreover have "upload_complete H S now' upload_id (Some ?k) s2 = (Ok r, s3)"
    using upload_complete_live [OF assms(1,2) b2(2) s2(3), of a] assms(4) s3(1) by (simp add: s2(4))
  ultimately show ?thesis
    using begin_eq s2(1) s3(2,4) by blast
qed

theorem upload_completes_witness:
  "\<exists>s1 s2 r s3. upload_begin sample_crypto ''u1'' 5 aliases_ns 10 (mem_new [''blobs''] (Some 60) []) = (Ok ''u1'', s1) \<and>
     send_parts sample_crypto 7 ''u1'' 0 [[1, 2], [3]] s1 = (Ok 3, s2) \<and>
     upload_complete sample_crypto sample_hasher 7 ''u1'' (Some (kappa_text sample_crypto Sha512 [1, 2, 3])) s2 = (Ok r, s3) \<and>
     blobs s3 (kappa_text sample_crypto Sha512 [1, 2, 3]) = Some [1, 2, 3]"
proof -
  let ?s = "mem_new [''blobs''] (Some 60) []"
  have H: "hashes_ok sample_crypto" using sample_crypto_ok by simp
  have S: "hasher_ok sample_crypto sample_hasher" by (rule sample_crypto_hasher_ok)
  have d: "disk_ok sample_crypto ?s" by (simp add: mem_new_def)
  have t: "\<forall>timeout. ms_upload_timeout_secs ?s = Some timeout \<longrightarrow> 7 - 5 \<le> unat timeout * 10 ^ 9"
    by (simp add: mem_new_def)
  have none: "blobs ?s k = None" for k by (simp add: mem_new_def blobs_def)
  have "hashable sample_crypto Sha512 (concat [[1, 2], [3]])" "length (concat [[1 :: byte, 2], [3]]) < 2 ^ 64"
      "(10 :: u64) = 0 \<or> length (concat [[1 :: byte, 2], [3]]) \<le> unat (10 :: u64)" "(5 :: nat) \<le> 7"
    by simp_all
  from upload_completes [OF H S d this(1-3) t this(4), of "''u1''" aliases_ns] show ?thesis
    by (auto simp: absorb_apply none)
qed

section \<open>Sessions\<close>

definition session_ok :: "UploadSession \<Rightarrow> bool" where
  "session_ok u \<longleftrightarrow>
     (us_max_size u = 0 \<or> length (us_data u) \<le> unat (us_max_size u)) \<and>
     map fst (us_part_digests u) = map (\<lambda>i. word_of_nat i + 1) [0..<length (us_part_digests u)] \<and>
     sum_list (map (\<lambda>(_, _, n). unat n) (us_part_digests u)) = length (us_data u)"

definition uploads_ok :: "InMemoryStore \<Rightarrow> bool" where
  "uploads_ok s \<longleftrightarrow> (\<forall>upload_id u. hget (ms_uploads s) upload_id = Some u \<longrightarrow> session_ok u)"

lemma uploads_ok_same: "ms_uploads s' = ms_uploads s \<Longrightarrow> uploads_ok s' \<longleftrightarrow> uploads_ok s"
  by (simp add: uploads_ok_def)

lemma uploads_ok_hdel: "uploads_ok s \<Longrightarrow> uploads_ok (s\<lparr>ms_uploads := hdel upload_id (ms_uploads s)\<rparr>)"
  by (simp add: uploads_ok_def)

lemma uploads_ok_begin: "uploads_ok s \<Longrightarrow> uploads_ok (snd (upload_begin H upload_id now ns max_size s))"
  by (simp add: uploads_ok_def upload_begin_def session_ok_def)

lemma uploads_ok_drop_expired: "uploads_ok s \<Longrightarrow> uploads_ok (snd (drop_expired now upload_id s))"
  by (simp add: drop_expired_def uploads_ok_hdel split: option.splits)

lemma session_ok_extend:
  assumes ok: "session_ok u" and small: "length (us_data u) + length part < 2 ^ 64"
    and fits: "\<not> (us_max_size u > 0 \<and> word_of_nat (length (us_data u) + length part) > us_max_size u)"
  shows "session_ok (u\<lparr>us_part_digests := us_part_digests u @
      [(word_of_nat (length (us_part_digests u)) + 1, md5_digest H part, word_of_nat (length part))],
      us_data := us_data u @ part\<rparr>)"
proof -
  have "unat (word_of_nat (length part) :: u64) = length part"
    using small by (intro unat_len) simp
  moreover have "us_max_size u = 0 \<or> length (us_data u) + length part \<le> unat (us_max_size u)"
    using fits unat_len [OF small] unfolding word_less_nat_alt by (metis not_less word_gt_0 word_less_nat_alt)
  ultimately show ?thesis
    using ok by (simp add: session_ok_def)
qed

lemma uploads_ok_put_part:
  assumes ok: "uploads_ok s"
    and small: "\<And>u. hget (ms_uploads s) upload_id = Some u \<Longrightarrow> length (us_data u) + length part < 2 ^ 64"
  shows "uploads_ok (snd (upload_put_part H now upload_id offset part s))"
proof (cases "drop_expired now upload_id s")
  case (Pair b s1)
  have ok1: "uploads_ok s1" using uploads_ok_drop_expired [OF ok, of now upload_id] Pair by simp
  show ?thesis
  proof (cases b)
    case True
    then show ?thesis using ok1 by (simp add: upload_put_part_def Pair)
  next
    case False
    then have s1: "s1 = s" using Pair by (auto simp: drop_expired_def split: option.splits if_splits)
    show ?thesis
    proof (cases "hget (ms_uploads s) upload_id")
      case None
      then show ?thesis using ok by (simp add: upload_put_part_def Pair False s1)
    next
      case (Some u)
      have "session_ok u" using ok Some by (simp add: uploads_ok_def)
      note ext = session_ok_extend [OF this small [OF Some], of H]
      show ?thesis
        using ok ext by (auto simp: upload_put_part_def Pair False s1 Some Let_def uploads_ok_def)
    qed
  qed
qed

lemma uploads_ok_evict:
  assumes "hm_ok (ms_uploads s)" and "uploads_ok s"
  shows "uploads_ok (snd (upload_evict_expired now timeout s))"
  using assms by (auto simp: upload_evict_expired_def uploads_ok_def Let_def split: option.splits if_splits)

section \<open>Compressed blobs\<close>

lemma ingest_compressed_eq:
  assumes H: "hashes_ok H" and ok: "disk_ok H s"
  shows "\<exists>s'. ingest_compressed H h c algo n s =
       (Ok (ingest_new (kappa_text H Sha256 c) True),
        s'\<lparr>ms_compression_records := hput h (kappa_text H Sha256 c, algo, c, n) (ms_compression_records s)\<rparr>) \<and>
     disk_ok H s' \<and> disk_only s s' \<and> blobs s' = absorb (kappa_text H Sha256 c) c (blobs s)"
proof -
  let ?k = "kappa_text H Sha256 c"
  have addr: "addresses H ?k c" by (auto simp: addresses_def intro!: exI [of _ Sha256])
  have valid: "valid_label ?k" using H by simp
  from mem_blob_path_valid [OF valid, of s] obtain p
    where p: "mem_blob_path s ?k = Ok p" "fs_key p = blob_key s ?k" by blast
  have ex: "fs_exists (ms_disk s) p \<longleftrightarrow> blobs s ?k \<noteq> None"
    using valid by (simp add: fs_exists_def fs_read_def p(2) blobs_def)
  show ?thesis
  proof (cases "blobs s ?k")
    case None
    from write_blob_eq [OF H ok addr p(1)] obtain d
      where "write_blob p c s = (Ok (), s\<lparr>ms_disk := d\<rparr>)" "disk_ok H (s\<lparr>ms_disk := d\<rparr>)"
        "blobs (s\<lparr>ms_disk := d\<rparr>) = (blobs s)(?k \<mapsto> c)" by blast
    with None ex H show ?thesis
      by (intro exI [of _ "s\<lparr>ms_disk := d\<rparr>"])
        (simp add: ingest_compressed_def kappa_from_bytes_text p(1) absorb_def Let_def)
  next
    case (Some c')
    then show ?thesis
      using ok ex H by (intro exI [of _ s])
        (simp add: ingest_compressed_def kappa_from_bytes_text p(1) absorb_def Let_def)
  qed
qed

text \<open>
  Compressed content is stored and can be read back through the hash of its uncompressed form. The
  interface also promises that the store then reports that hash as existing, with the uncompressed size.
  The in-memory store does not look at its compression records there: unless a blob happens to have that
  label, it answers that the hash does not exist and has no size.
\<close>

lemma compressed_hash_not_found:
  assumes "hashes_ok H" and "disk_ok H s" and "valid_label h" and "blobs s h = None" and "h \<noteq> kappa_text H Sha256 c"
  shows "\<exists>r s'. ingest_compressed H h c ''none'' n s = (Ok r, s') \<and>
     blob_open_compressed s' h = Ok c \<and> blob_open_decompressed D s' h = Ok c \<and>
     blob_exists s' h = Ok False \<and> blob_size s' h = Err (NotFound h)"
proof -
  from ingest_compressed_eq [OF assms(1,2), of h c "''none''" n] obtain s' where
    run: "ingest_compressed H h c ''none'' n s =
       (Ok (ingest_new (kappa_text H Sha256 c) True),
        s'\<lparr>ms_compression_records := hput h (kappa_text H Sha256 c, ''none'', c, n) (ms_compression_records s)\<rparr>)"
    and b: "blobs s' = absorb (kappa_text H Sha256 c) c (blobs s)" by blast
  let ?s = "s'\<lparr>ms_compression_records := hput h (kappa_text H Sha256 c, ''none'', c, n) (ms_compression_records s)\<rparr>"
  have "blobs ?s h = blobs s' h" by (simp add: blobs_def blob_key_def)
  then have "blobs ?s h = None" using assms(4,5) by (simp add: b absorb_apply)
  then show ?thesis
    unfolding run using assms(3)
    by (simp add: blob_exists_eq blob_size_eq blob_open_compressed_def blob_open_decompressed_def decompress_bytes_def)
qed

lemma compressed_hash_not_found_witness:
  "\<exists>r s'. ingest_compressed sample_crypto (kappa_text sample_crypto Sha256 [9]) [1, 2] ''none'' 1 (mem_new [] None []) = (Ok r, s') \<and>
     blob_open_compressed s' (kappa_text sample_crypto Sha256 [9]) = Ok [1, 2] \<and>
     blob_exists s' (kappa_text sample_crypto Sha256 [9]) = Ok False"
proof -
  let ?s = "mem_new [] None []" and ?h = "kappa_text sample_crypto Sha256 [9]"
  have H: "hashes_ok sample_crypto" using sample_crypto_ok by simp
  have d: "disk_ok sample_crypto ?s" and none: "blobs ?s ?h = None" by (simp_all add: mem_new_def blobs_def)
  have "digest_of sample_crypto Sha256 [9] \<noteq> digest_of sample_crypto Sha256 [1, 2]"
    by (simp add: sample_crypto_def externals.defs sample_externals_def pad_digest_def)
  then have ne: "?h \<noteq> kappa_text sample_crypto Sha256 [1, 2]"
    unfolding kappa_text_def using label_text_digest_inject by blast
  have v: "valid_label ?h" using H by simp
  from compressed_hash_not_found [OF H d v none ne, of 1 "\<lambda>_ _. Err []"] show ?thesis by blast
qed

end
