(* ===== verification/Memory_Namespace.thy ===== *)
theory Memory_Namespace
  imports Memory_Store
begin

text \<open>
  Namespaces, identity bindings, successions and the inbound assertion index of the in-memory store
  (\<open>store/memory/mod.rs\<close>). The system time in milliseconds and the random bytes of a fresh namespace are
  arguments.
\<close>

section \<open>Namespaces\<close>

definition alias_key :: "string \<Rightarrow> string option \<Rightarrow> string" where
  "alias_key name protocol = (case protocol of Some p \<Rightarrow> p @ '':'' @ name | None \<Rightarrow> name)"

definition namespace_create ::
  "('x) hashes_scheme \<Rightarrow> u64 \<Rightarrow> bytes \<Rightarrow> string \<Rightarrow> string \<Rightarrow> string option \<Rightarrow> InMemoryStore \<Rightarrow> NamespaceRef store_op" where
  "namespace_create H now_ms rnd name owner protocol s =
     (let key = alias_key name protocol in
      if hget (ms_ns_aliases s) key \<noteq> None
      then (Err (Conflict (''namespace alias already exists: '' @ key)), s)
      else
        let ns = ns_generate now_ms rnd name
        in (Ok ns, s\<lparr>ms_ns_aliases := hput key (ns_uuid ns) (ms_ns_aliases s),
              ms_ns_records := hput (ns_uuid ns)
                \<lparr>nr_uuid_hex = ns_uuid_hex H ns, nr_owner = owner, nr_created_at_ms = now_ms, nr_protocol = protocol,
                 nr_aliases = [name], nr_tombstoned = False\<rparr> (ms_ns_records s)\<rparr>))"

definition namespace_resolve :: "InMemoryStore \<Rightarrow> string \<Rightarrow> string option \<Rightarrow> (NamespaceRef, StoreError) result" where
  "namespace_resolve s name protocol =
     (let key = alias_key name protocol in
      rbind (ok_or (NotFound (''namespace alias: '' @ key)) (hget (ms_ns_aliases s) key)) (\<lambda>u.
      Ok (ns_with_name u name)))"

definition namespace_resolve_or_create ::
  "('x) hashes_scheme \<Rightarrow> u64 \<Rightarrow> bytes \<Rightarrow> string \<Rightarrow> string \<Rightarrow> string option \<Rightarrow> InMemoryStore \<Rightarrow> NamespaceRef store_op" where
  "namespace_resolve_or_create H now_ms rnd name owner protocol s =
     (case namespace_resolve s name protocol of
        Ok ns \<Rightarrow> (Ok ns, s)
      | Err (NotFound _) \<Rightarrow>
          (case namespace_create H now_ms rnd name owner protocol s of
             (Ok ns, s) \<Rightarrow> (Ok ns, s)
           | (Err (Conflict _), s) \<Rightarrow> (namespace_resolve s name protocol, s)
           | (Err e, s) \<Rightarrow> (Err e, s)
           | (Panic, s) \<Rightarrow> (Panic, s))
      | Err e \<Rightarrow> (Err e, s)
      | Panic \<Rightarrow> (Panic, s))"

text \<open>The records are sorted by their first alias; a record without one comes first.\<close>

definition first_alias :: "NamespaceRecord \<Rightarrow> string list" where
  "first_alias r = take 1 (nr_aliases r)"

definition namespace_list :: "InMemoryStore \<Rightarrow> string option \<Rightarrow> NamespaceRecord list" where
  "namespace_list s protocol =
     sort_key first_alias
       (filter (\<lambda>r. case protocol of Some p \<Rightarrow> nr_protocol r = Some p | None \<Rightarrow> True) (hvals (ms_ns_records s)))"

definition namespace_exists :: "InMemoryStore \<Rightarrow> string \<Rightarrow> string option \<Rightarrow> bool" where
  "namespace_exists s name protocol \<longleftrightarrow> hget (ms_ns_aliases s) (alias_key name protocol) \<noteq> None"

definition namespace_rename ::
  "string \<Rightarrow> string \<Rightarrow> string \<Rightarrow> string option \<Rightarrow> InMemoryStore \<Rightarrow> unit store_op" where
  "namespace_rename old_name new_name actor protocol s =
     (let old_key = alias_key old_name protocol; new_key = alias_key new_name protocol in
      sbind (ok_or (NotFound (''namespace alias: '' @ old_key)) (hget (ms_ns_aliases s) old_key), s) (\<lambda>u s.
      if hget (ms_ns_aliases s) new_key \<noteq> None
      then (Err (Conflict (''target alias already exists: '' @ new_key)), s)
      else
        sbind (case hget (ms_ns_records s) u of
                 None \<Rightarrow> (Ok (), s)
               | Some r \<Rightarrow>
                   if nr_owner r \<noteq> actor
                   then (Err (Rejected (''only owner '' @ nr_owner r @ '' can rename, actor is '' @ actor)), s)
                   else (Ok (), s\<lparr>ms_ns_records := hput u
                          (r\<lparr>nr_aliases := filter (\<lambda>a. a \<noteq> old_name) (nr_aliases r) @ [new_name]\<rparr>) (ms_ns_records s)\<rparr>))
          (\<lambda>_ s. (Ok (), s\<lparr>ms_ns_aliases := hput new_key u (hdel old_key (ms_ns_aliases s))\<rparr>))))"

definition namespace_add_alias ::
  "('x) hashes_scheme \<Rightarrow> uuid \<Rightarrow> string \<Rightarrow> string \<Rightarrow> string option \<Rightarrow> InMemoryStore \<Rightarrow> unit store_op" where
  "namespace_add_alias H u alias actor protocol s =
     (let key = alias_key alias protocol in
      if hget (ms_ns_aliases s) key \<noteq> None then (Err (Conflict (''alias already exists: '' @ key)), s)
      else
        sbind (ok_or (NotFound (''namespace record: '' @ hex_encode H u)) (hget (ms_ns_records s) u), s) (\<lambda>r s.
        if nr_owner r \<noteq> actor
        then (Err (Rejected (''only owner '' @ nr_owner r @ '' can add alias, actor is '' @ actor)), s)
        else
          let r' = (if alias \<in> set (nr_aliases r) then r else r\<lparr>nr_aliases := nr_aliases r @ [alias]\<rparr>)
          in (Ok (), s\<lparr>ms_ns_records := hput u r' (ms_ns_records s),
                       ms_ns_aliases := hput key u (ms_ns_aliases s)\<rparr>)))"

definition namespace_info ::
  "('x) hashes_scheme \<Rightarrow> InMemoryStore \<Rightarrow> string \<Rightarrow> string option \<Rightarrow> (NamespaceRecord, StoreError) result" where
  "namespace_info H s name protocol =
     (let key = alias_key name protocol in
      rbind (ok_or (NotFound (''namespace alias: '' @ key)) (hget (ms_ns_aliases s) key)) (\<lambda>u.
      ok_or (NotFound (''namespace record: '' @ hex_encode H u)) (hget (ms_ns_records s) u)))"

definition remove_aliases :: "string option \<Rightarrow> string list \<Rightarrow> (string, uuid) hmap \<Rightarrow> (string, uuid) hmap" where
  "remove_aliases protocol names aliases =
     foldl (\<lambda>m a. let m = hdel a m in case protocol of Some p \<Rightarrow> hdel (p @ '':'' @ a) m | None \<Rightarrow> m) aliases names"

definition namespace_delete ::
  "('x) hashes_scheme \<Rightarrow> string \<Rightarrow> string \<Rightarrow> string option \<Rightarrow> InMemoryStore \<Rightarrow> unit store_op" where
  "namespace_delete H name actor protocol s =
     (let key = alias_key name protocol in
      sbind (ok_or (NotFound (''namespace alias: '' @ key)) (hget (ms_ns_aliases s) key), s) (\<lambda>u s.
      sbind (ok_or (NotFound (''namespace record: '' @ hex_encode H u)) (hget (ms_ns_records s) u), s) (\<lambda>r s.
      if nr_owner r \<noteq> actor
      then (Err (Rejected (''only owner '' @ nr_owner r @ '' can delete, actor is '' @ actor)), s)
      else (Ok (), s\<lparr>ms_ns_aliases := remove_aliases (nr_protocol r) (nr_aliases r) (ms_ns_aliases s),
                     ms_ns_records := hput u (r\<lparr>nr_tombstoned := True\<rparr>) (ms_ns_records s)\<rparr>))))"

section \<open>The inbound assertion index\<close>

definition inbound_key :: "string \<Rightarrow> string \<Rightarrow> string" where
  "inbound_key subject facet = subject @ [CHR 0x00] @ facet"

definition assertion_index_put :: "string \<Rightarrow> string \<Rightarrow> string \<Rightarrow> InMemoryStore \<Rightarrow> unit store_op" where
  "assertion_index_put subject facet kappa s =
     (Ok (), s\<lparr>ms_assertion_inbound :=
        hentry (inbound_key subject facet) [] (\<lambda>ks. ks @ [kappa]) (ms_assertion_inbound s)\<rparr>)"

definition assertion_index_query_subject :: "InMemoryStore \<Rightarrow> string \<Rightarrow> string list" where
  "assertion_index_query_subject s subject =
     remdups_adj (sort (concat (map snd
       (filter (\<lambda>(k, _). starts_with k (subject @ [CHR 0x00])) (ms_assertion_inbound s)))))"

section \<open>Identity bindings\<close>

definition put_binding :: "IdentityBinding \<Rightarrow> IdentityBinding list \<Rightarrow> IdentityBinding list" where
  "put_binding b bs =
     (case position (\<lambda>e. ib_target e = ib_target b) bs of
        Some i \<Rightarrow>
          if ib_method (bs ! i) \<noteq> ib_method b \<or> ib_trust_level (bs ! i) \<noteq> ib_trust_level b \<or>
             ib_verified_at_ms (bs ! i) \<noteq> ib_verified_at_ms b
          then bs[i := b] else bs
      | None \<Rightarrow> bs @ [b])"

text \<open>The bindings of a source are kept with the latest verification first; the sort is stable.\<close>

definition identity_binding_put :: "('x) crypto_scheme \<Rightarrow> IdentityBinding \<Rightarrow> InMemoryStore \<Rightarrow> string store_op" where
  "identity_binding_put H b s =
     (Ok (kappa_from_bytes H (enc_IdentityBinding H b)),
      s\<lparr>ms_identity_bindings :=
          hentry (ib_source b) [] (\<lambda>bs. sort_key (\<lambda>x. - int (unat (ib_verified_at_ms x))) (put_binding b bs))
            (ms_identity_bindings s)\<rparr>)"

definition identity_binding_get :: "InMemoryStore \<Rightarrow> string \<Rightarrow> IdentityBinding list" where
  "identity_binding_get s subject = (case hget (ms_identity_bindings s) subject of Some bs \<Rightarrow> bs | None \<Rightarrow> [])"

definition identity_binding_delete :: "string \<Rightarrow> string \<Rightarrow> InMemoryStore \<Rightarrow> unit store_op" where
  "identity_binding_delete subject target s =
     (case hget (ms_identity_bindings s) subject of
        None \<Rightarrow> (Ok (), s)
      | Some bs \<Rightarrow>
          let bs' = filter (\<lambda>b. ib_target b \<noteq> target) bs
          in (Ok (), s\<lparr>ms_identity_bindings :=
                (if bs' = [] then hdel subject (ms_identity_bindings s)
                 else hput subject bs' (ms_identity_bindings s))\<rparr>))"

definition identity_binding_list_by_asserter :: "InMemoryStore \<Rightarrow> string \<Rightarrow> IdentityBinding list" where
  "identity_binding_list_by_asserter s asserter =
     concat (map (\<lambda>(_, bs). filter (\<lambda>b. ib_target b = asserter) bs) (ms_identity_bindings s))"

section \<open>Successions\<close>

text \<open>The watermark that a succession leaves for the old anchor.\<close>

definition succession_watermark :: "u64 \<Rightarrow> IdentitySuccession \<Rightarrow> Watermark" where
  "succession_watermark now_ms i =
     \<lparr>wm_asserter = is_old_anchor i,
      wm_invalidate_before_ms = (if is_reason i = ''key-compromise'' then 0 else is_effective_at_ms i),
      wm_reason = is_reason i @ '' succession'', wm_set_at_ms = now_ms\<rparr>"

definition identity_succession_put ::
  "('x) crypto_scheme \<Rightarrow> u64 \<Rightarrow> IdentitySuccession \<Rightarrow> InMemoryStore \<Rightarrow> string store_op" where
  "identity_succession_put H now_ms i s =
     (if is_old_anchor i = is_new_anchor i then (Err (Rejected ''cannot succeed to self''), s)
      else
        let kappa = kappa_from_bytes H (enc_IdentitySuccession H i);
            s = s\<lparr>ms_identity_successions := hput (is_old_anchor i) (is_new_anchor i) (ms_identity_successions s)\<rparr>;
            wm_bytes = enc_Watermark H (succession_watermark now_ms i);
            wm_kappa = kappa_from_bytes H wm_bytes;
            s = snd (ingest_verified H wm_kappa wm_bytes s);
            anchor_ns = ns_deterministic H (is_old_anchor i);
            s = ensure_namespace H anchor_ns s;
            s = snd (tag_set H anchor_ns (''watermark/'' @ wm_kappa) wm_kappa s)
        in (Ok kappa, s))"

text \<open>
  Following successions: the loop ends at an anchor without a successor, at one already visited, or when ten
  anchors have been visited. \<open>chain\<close> is the anchors so far, the current one last.
\<close>

function follow :: "(string, string) hmap \<Rightarrow> string list \<Rightarrow> string \<Rightarrow> (string list, StoreError) result" where
  "follow succ chain current =
     (case hget succ current of
        None \<Rightarrow> Ok chain
      | Some next \<Rightarrow>
          if next \<in> set chain then Err (Rejected (''succession cycle detected at '' @ next))
          else if 10 \<le> length chain then Err (Rejected ''succession chain exceeds 10 hops'')
          else follow succ (chain @ [next]) next)"
  by pat_completeness auto
termination
  by (relation "measure (\<lambda>(succ, chain, current). 10 - length chain)") auto

declare follow.simps [simp del]

definition identity_succession_chain :: "InMemoryStore \<Rightarrow> string \<Rightarrow> (string list, StoreError) result" where
  "identity_succession_chain s anchor = follow (ms_identity_successions s) [anchor] anchor"

definition identity_succession_resolve :: "InMemoryStore \<Rightarrow> string \<Rightarrow> (string, StoreError) result" where
  "identity_succession_resolve s anchor =
     rbind (follow (ms_identity_successions s) [anchor] anchor) (\<lambda>chain. Ok (last chain))"

definition namespace_transfer ::
  "('x) hashes_scheme \<Rightarrow> uuid \<Rightarrow> string \<Rightarrow> string \<Rightarrow> InMemoryStore \<Rightarrow> unit store_op" where
  "namespace_transfer H u new_owner actor s =
     sbind (ok_or (NotFound (''namespace record: '' @ hex_encode H u)) (hget (ms_ns_records s) u), s) (\<lambda>r s.
     sbind (if nr_owner r = actor then (Ok (), s)
            else sbind (identity_succession_resolve s (nr_owner r), s) (\<lambda>resolved s.
                 if resolved \<noteq> actor
                 then (Err (Rejected (''only owner '' @ nr_owner r @ '' (or successor) can transfer, actor is '' @ actor)), s)
                 else (Ok (), s))) (\<lambda>_ s.
     (Ok (), s\<lparr>ms_ns_records := hput u (r\<lparr>nr_owner := new_owner\<rparr>) (ms_ns_records s)\<rparr>)))"

section \<open>Succession chains\<close>

text \<open>A complete chain: each anchor is succeeded by the next and the last has no successor.\<close>

fun succession_chain :: "(string, string) hmap \<Rightarrow> string list \<Rightarrow> bool" where
  "succession_chain succ [] \<longleftrightarrow> False"
| "succession_chain succ [a] \<longleftrightarrow> hget succ a = None"
| "succession_chain succ (a # b # c) \<longleftrightarrow> hget succ a = Some b \<and> succession_chain succ (b # c)"

lemma succession_chain_unique:
  "succession_chain succ (a # c) \<Longrightarrow> succession_chain succ (a # d) \<Longrightarrow> c = d"
proof (induction c arbitrary: a d)
  case Nil
  then show ?case by (cases d) simp_all
next
  case (Cons b c)
  then obtain e where "d = b # e" by (cases d) auto
  with Cons show ?case by auto
qed

lemma succession_chain_suffix:
  "succession_chain succ (c @ a # d) \<Longrightarrow> succession_chain succ (a # d)"
proof (induction c)
  case (Cons b c)
  then show ?case by (cases c) auto
qed simp

lemma succession_chain_distinct: "succession_chain succ c \<Longrightarrow> distinct c"
proof (induction c rule: succession_chain.induct)
  case (3 succ a b c)
  then have rest: "distinct (b # c)" by simp
  have "a \<notin> set (b # c)"
  proof
    assume "a \<in> set (b # c)"
    then obtain us vs where split: "b # c = us @ a # vs" by (meson split_list)
    have "succession_chain succ ((a # us) @ a # vs)" using "3.prems" split by simp
    then have "succession_chain succ (a # vs)" by (rule succession_chain_suffix)
    with "3.prems" have "b # c = vs" by (rule succession_chain_unique)
    with split have "length (us @ a # vs) = length vs" by simp
    then show False by simp
  qed
  with rest show ?case by simp
qed simp_all

lemma follow_sound:
  "follow succ chain current = Ok c \<Longrightarrow> length chain \<le> 10 \<Longrightarrow>
     \<exists>rest. c = chain @ rest \<and> succession_chain succ (current # rest) \<and> length c \<le> 10"
proof (induction succ chain current rule: follow.induct)
  case (1 succ chain current)
  show ?case
  proof (cases "hget succ current")
    case None
    then show ?thesis using "1.prems" by (simp add: follow.simps [of succ chain])
  next
    case (Some n)
    with "1.prems" have n: "n \<notin> set chain" "\<not> 10 \<le> length chain"
      and run: "follow succ (chain @ [n]) n = Ok c"
      by (auto simp: follow.simps [of succ chain] split: if_splits)
    from "1.IH" [OF Some n run] n(2) obtain rest where
      "c = (chain @ [n]) @ rest" "succession_chain succ (n # rest)" "length c \<le> 10" by auto
    with Some show ?thesis by (intro exI [of _ "n # rest"]) simp
  qed
qed

lemma follow_complete:
  "succession_chain succ (current # rest) \<Longrightarrow> distinct (chain @ rest) \<Longrightarrow> length (chain @ rest) \<le> 10 \<Longrightarrow>
     follow succ chain current = Ok (chain @ rest)"
proof (induction rest arbitrary: chain current)
  case Nil
  then show ?case by (simp add: follow.simps [of succ chain])
next
  case (Cons n rest)
  then have "follow succ (chain @ [n]) n = Ok ((chain @ [n]) @ rest)"
    by (intro Cons.IH) simp_all
  then show ?case
    using Cons.prems by (simp add: follow.simps [of succ chain])
qed

lemma follow_Err: "(\<exists>c. follow succ chain current = Ok c) \<or> (\<exists>m. follow succ chain current = Err (Rejected m))"
proof (induction succ chain current rule: follow.induct)
  case (1 succ chain current)
  then show ?case by (auto simp: follow.simps [of succ chain] split: option.splits)
qed

lemma chain_eq:
  "identity_succession_chain s a = Ok (a # c) \<longleftrightarrow>
     succession_chain (ms_identity_successions s) (a # c) \<and> length (a # c) \<le> 10"
proof
  assume "identity_succession_chain s a = Ok (a # c)"
  then show "succession_chain (ms_identity_successions s) (a # c) \<and> length (a # c) \<le> 10"
    using follow_sound [of "ms_identity_successions s" "[a]" a "a # c"] by (auto simp: identity_succession_chain_def)
next
  assume chain: "succession_chain (ms_identity_successions s) (a # c) \<and> length (a # c) \<le> 10"
  with succession_chain_distinct [of "ms_identity_successions s" "a # c"] have "distinct ([a] @ c)" by simp
  with chain follow_complete [of "ms_identity_successions s" a c "[a]"]
  show "identity_succession_chain s a = Ok (a # c)" by (simp add: identity_succession_chain_def)
qed

lemma chain_starts: "identity_succession_chain s a = Ok c \<Longrightarrow> \<exists>c'. c = a # c'"
  using follow_sound [of "ms_identity_successions s" "[a]" a c] by (auto simp: identity_succession_chain_def)


text \<open>
  The interface documents that resolution follows up to ten successions. The bound counts the anchors,
  the first one included, so a chain of ten successions is refused.
\<close>

lemma succession_ten_hops_refused:
  assumes "succession_chain (ms_identity_successions s) (a # c)" and "length c = 10"
  shows "\<exists>m. identity_succession_resolve s a = Err (Rejected m)"
proof -
  have "identity_succession_resolve s a \<noteq> Ok b" for b
  proof
    assume "identity_succession_resolve s a = Ok b"
    then obtain d where "identity_succession_chain s a = Ok d"
      by (auto simp: identity_succession_resolve_def identity_succession_chain_def)
    moreover from chain_starts [OF this] obtain d' where "d = a # d'" by blast
    ultimately have d: "succession_chain (ms_identity_successions s) (a # d')" "length (a # d') \<le> 10"
      using chain_eq by auto
    have "d' = c" using d(1) assms(1) by (rule succession_chain_unique)
    with d(2) show False using assms(2) by simp
  qed
  then show ?thesis
    using follow_Err [of "ms_identity_successions s" "[a]" a] by (auto simp: identity_succession_resolve_def)
qed

lemma succession_ten_hops_refused_witness:
  "\<exists>s m. identity_succession_resolve s ''a'' = Err (Rejected m) \<and> identity_succession_resolve s ''b'' = Ok ''k''"
proof -
  let ?m = "map (\<lambda>i. ([char_of (97 + i)], [char_of (98 + i)])) [0..<10 :: nat]"
  define s where "s = (mem_new [] None [])\<lparr>ms_identity_successions := ?m\<rparr>"
  have m: "ms_identity_successions s =
      [(''a'', ''b''), (''b'', ''c''), (''c'', ''d''), (''d'', ''e''), (''e'', ''f''), (''f'', ''g''), (''g'', ''h''),
       (''h'', ''i''), (''i'', ''j''), (''j'', ''k'')]"
    unfolding s_def by (simp, code_simp)
  have chain: "succession_chain (ms_identity_successions s)
      (''a'' # [''b'', ''c'', ''d'', ''e'', ''f'', ''g'', ''h'', ''i'', ''j'', ''k''])"
    unfolding m by (simp add: hget_Cons)
  have "\<exists>m. identity_succession_resolve s ''a'' = Err (Rejected m)"
    by (rule succession_ten_hops_refused [OF chain]) simp
  moreover have "identity_succession_resolve s ''b'' = Ok ''k''"
    unfolding identity_succession_resolve_def m by (simp add: follow.simps hget_Cons)
  ultimately show ?thesis by blast
qed

text \<open>
  A succession for a compromised key is meant to void every assertion of the old anchor. The watermark it
  stores, and tags under the old anchor, has the threshold zero, and a watermark voids what was valid from
  before its threshold: it voids nothing.
\<close>

lemma compromise_watermark_voids_nothing:
  assumes "is_reason i = ''key-compromise''" and "is_old_anchor i \<noteq> is_new_anchor i"
  shows "\<exists>k s' w. identity_succession_put H now_ms i s = (Ok k, s') \<and>
     wm_asserter w = is_old_anchor i \<and>
     map_result te_kappa id (tag_get H s' (ns_deterministic H (is_old_anchor i))
       (''watermark/'' @ kappa_from_bytes H (enc_Watermark H w))) = Ok (kappa_from_bytes H (enc_Watermark H w)) \<and>
     (\<forall>a. \<not> voids w a)"
proof -
  let ?w = "succession_watermark now_ms i"
  have "\<not> voids ?w a" for a
    using assms(1) by (simp add: voids_def succession_watermark_def)
  moreover have "wm_asserter ?w = is_old_anchor i" by (simp add: succession_watermark_def)
  ultimately show ?thesis
    using assms(2)
    by (intro exI [of _ "kappa_from_bytes H (enc_IdentitySuccession H i)"]
        exI [of _ "snd (identity_succession_put H now_ms i s)"] exI [of _ ?w])
      (simp add: identity_succession_put_def Let_def tag_set_eq tag_get_def bump_tag_get)
qed

lemma compromise_watermark_voids_nothing_witness:
  "\<exists>i k s' w. is_reason i = revocation_as_str KeyCompromise \<and>
     identity_succession_put sample_crypto 7 i (mem_new [] None []) = (Ok k, s') \<and>
     wm_asserter w = is_old_anchor i \<and> (\<forall>a. \<not> voids w a)"
proof -
  define i where "i = \<lparr>is_old_anchor = ''old'', is_new_anchor = ''new'', is_reason = ''key-compromise'',
    is_effective_at_ms = 5, is_old_signature = [], is_new_signature = []\<rparr>"
  have "is_reason i = ''key-compromise''" "is_old_anchor i \<noteq> is_new_anchor i" by (simp_all add: i_def)
  from compromise_watermark_voids_nothing [OF this, of sample_crypto 7 "mem_new [] None []"] this(1) show ?thesis
    by auto
qed

section \<open>Aliases\<close>

lemma remove_aliases_get:
  "hget (remove_aliases protocol names aliases) k =
     (if k \<in> set names \<or> (\<exists>p. protocol = Some p \<and> (\<exists>a \<in> set names. k = p @ '':'' @ a)) then None else hget aliases k)"
proof (induction names arbitrary: aliases)
  case (Cons a names)
  then show ?case
    by (simp add: remove_aliases_def Let_def split: option.splits) (auto split: option.splits)
qed (simp add: remove_aliases_def)

text \<open>
  Deleting a namespace removes the aliases of its record under both their scoped and their bare form.
  When another namespace holds the same name without a protocol, deleting the scoped one, as its
  own owner may, makes the other namespace unresolvable, although its record is still there.
\<close>

lemma delete_removes_foreign_alias:
  assumes "namespace_create H t rnd name alice None s = (Ok nsA, s1)"
    and "namespace_create H t' rnd' name mallory (Some p) s1 = (Ok nsB, s2)"
    and "ns_uuid nsA \<noteq> ns_uuid nsB"
  shows "namespace_resolve s2 name None = Ok (ns_with_name (ns_uuid nsA) name) \<and>
    (\<exists>s3. namespace_delete H name mallory (Some p) s2 = (Ok (), s3) \<and>
       namespace_resolve s3 name None = Err (NotFound (''namespace alias: '' @ name)) \<and>
       map_option nr_owner (hget (ms_ns_records s3) (ns_uuid nsA)) = Some alice \<and>
       map_option nr_tombstoned (hget (ms_ns_records s3) (ns_uuid nsA)) = Some False)"
proof -
  have keys: "name \<noteq> p @ '':'' @ name"
    by (metis length_append length_Cons add_eq_self_zero append_is_Nil_conv length_0_conv list.distinct(1)
        append_assoc add.commute)
  from assms(1) have s1: "s1 = s\<lparr>ms_ns_aliases := hput name (ns_uuid nsA) (ms_ns_aliases s),
      ms_ns_records := hput (ns_uuid nsA)
        \<lparr>nr_uuid_hex = ns_uuid_hex H nsA, nr_owner = alice, nr_created_at_ms = t, nr_protocol = None,
         nr_aliases = [name], nr_tombstoned = False\<rparr> (ms_ns_records s)\<rparr>"
    by (auto simp: namespace_create_def alias_key_def Let_def split: if_splits)
  from assms(2) have s2: "s2 = s1\<lparr>ms_ns_aliases := hput (p @ '':'' @ name) (ns_uuid nsB) (ms_ns_aliases s1),
      ms_ns_records := hput (ns_uuid nsB)
        \<lparr>nr_uuid_hex = ns_uuid_hex H nsB, nr_owner = mallory, nr_created_at_ms = t', nr_protocol = Some p,
         nr_aliases = [name], nr_tombstoned = False\<rparr> (ms_ns_records s1)\<rparr>"
    by (auto simp: namespace_create_def alias_key_def Let_def split: if_splits)
  show ?thesis
    using keys assms(3)
    by (simp add: s2 s1 namespace_resolve_def namespace_delete_def alias_key_def remove_aliases_def Let_def)
qed

lemma delete_removes_foreign_alias_witness:
  "\<exists>s2 s3 nsA. namespace_resolve s2 ''x'' None = Ok nsA \<and>
     namespace_delete sample_crypto ''x'' ''mallory'' (Some ''oci'') s2 = (Ok (), s3) \<and>
     namespace_resolve s3 ''x'' None = Err (NotFound ''namespace alias: x'')"
proof -
  let ?s = "mem_new [] None []" and ?A = "ns_generate 1 (replicate 8 1) ''x''" and ?B = "ns_generate 1 (replicate 8 2) ''x''"
  obtain s1 where s1: "namespace_create sample_crypto 1 (replicate 8 1) ''x'' ''alice'' None ?s = (Ok ?A, s1)"
      "ms_ns_aliases s1 = [(''x'', ns_uuid ?A)]"
    by (simp add: namespace_create_def Let_def alias_key_def mem_new_def hput_def)
  obtain s2 where s2: "namespace_create sample_crypto 1 (replicate 8 2) ''x'' ''mallory'' (Some ''oci'') s1 = (Ok ?B, s2)"
    by (simp add: namespace_create_def Let_def alias_key_def s1(2) hget_Cons)
  have ne: "ns_uuid ?A \<noteq> ns_uuid ?B" by code_simp
  from delete_removes_foreign_alias [OF s1(1) s2 ne] show ?thesis by auto
qed

end
