(* ===== verification/Memory_Edge.thy ===== *)
theory Memory_Edge
  imports Memory_Namespace
begin

text \<open>
  Edges of the in-memory store (\<open>store/memory/edge.rs\<close>). An edge is a blob, an entry of the edge table
  under the hash of its kappa, and an entry in four indexes. The lemmas show that every operation keeps the
  table and the indexes consistent, and what a query therefore returns.
\<close>

section \<open>Definitions\<close>

fun relation_index :: "EdgeRelation \<Rightarrow> u64" where
  "relation_index Owns = 0"
| "relation_index ComposedOf = 1"
| "relation_index Assertion = 2"
| "relation_index Revocation = 3"
| "relation_index Capability = 4"
| "relation_index RecoveryShare = 5"
| "relation_index EpochRootRel = 6"
| "relation_index AkdTreeNode = 7"
| "relation_index ChunkManifest = 8"
| "relation_index WitnessReceiptRel = 9"
| "relation_index OffloadReceipt = 10"
| "relation_index DerivedFrom = 11"
| "relation_index CertifiedBy = 12"
| "relation_index EvidenceProvenance = 13"
| "relation_index SectionOf = 14"
| "relation_index RefersTo = 15"
| "relation_index Delegation = 16"

definition bucket :: "EdgeIndex \<Rightarrow> uuid \<times> u64 \<Rightarrow> string list" where
  "bucket idx key = (case hget idx key of Some ks \<Rightarrow> ks | None \<Rightarrow> [])"

definition push_index :: "uuid \<Rightarrow> u64 \<Rightarrow> string \<Rightarrow> EdgeIndex \<Rightarrow> EdgeIndex" where
  "push_index u kh k idx = hentry (u, kh) [] (\<lambda>ks. ks @ [k]) idx"

definition remove_from :: "uuid \<Rightarrow> u64 \<Rightarrow> string \<Rightarrow> EdgeIndex \<Rightarrow> EdgeIndex" where
  "remove_from u kh k idx =
     (case hget idx (u, kh) of
        None \<Rightarrow> idx
      | Some ks \<Rightarrow> hput (u, kh) (filter (\<lambda>x. x \<noteq> k) ks) idx)"

text \<open>Two edges are the same logical edge when everything but value and metadata agrees.\<close>

definition same_edge :: "Edge \<Rightarrow> Edge \<Rightarrow> bool" where
  "same_edge a b \<longleftrightarrow>
     ed_source a = ed_source b \<and> ed_target a = ed_target b \<and> ed_relation a = ed_relation b \<and> ed_asserter a = ed_asserter b"

definition inbound_relations :: "EdgeRelation list" where
  "inbound_relations = [Assertion, Revocation, Capability, Delegation]"

definition edge_kappa :: "('x) externals_scheme \<Rightarrow> Edge \<Rightarrow> string" where
  "edge_kappa H e = kappa_from_bytes H (enc_Edge H e)"

text \<open>The search for an existing entry of the same logical edge.\<close>

definition find_edge :: "('x) hashes_scheme \<Rightarrow> InMemoryStore \<Rightarrow> uuid \<Rightarrow> string \<Rightarrow> (Edge \<Rightarrow> bool) \<Rightarrow> string option" where
  "find_edge H s u src P =
     find (\<lambda>ek. case hget (ms_edges s) (u, item_hash H ek) of Some x \<Rightarrow> P x | None \<Rightarrow> False)
       (bucket (ms_fwd_index s) (u, item_hash H src))"

text \<open>Inserting and indexing a new edge.\<close>

definition index_edge :: "('x) externals_scheme \<Rightarrow> uuid \<Rightarrow> Edge \<Rightarrow> InMemoryStore \<Rightarrow> InMemoryStore" where
  "index_edge H u e s =
     (let k = edge_kappa H e;
          s = s\<lparr>ms_edges := hput (u, item_hash H k) e (ms_edges s),
                ms_fwd_index := push_index u (item_hash H (ed_source e)) k (ms_fwd_index s),
                ms_rev_index := push_index u (item_hash H (ed_target e)) k (ms_rev_index s),
                ms_rel_index := push_index u (relation_index (ed_relation e)) k (ms_rel_index s),
                ms_asr_index := push_index u (item_hash H (ed_asserter e)) k (ms_asr_index s)\<rparr>
      in if ed_relation e \<in> set inbound_relations
         then s\<lparr>ms_assertion_inbound :=
                  hentry (inbound_key (ed_target e) (relation_as_str (ed_relation e))) [] (\<lambda>ks. ks @ [k])
                    (ms_assertion_inbound s)\<rparr>
         else s)"

definition edge_put :: "('x) externals_scheme \<Rightarrow> NamespaceRef \<Rightarrow> Edge \<Rightarrow> InMemoryStore \<Rightarrow> unit store_op" where
  "edge_put H ns e s =
     (let s = ensure_namespace H ns s; u = ns_uuid ns in
      sbind (ingest_compute H Sha256 (enc_Edge H e) s) (\<lambda>_ s.
      case find_edge H s u (ed_source e) (\<lambda>x. same_edge x e) of
        Some ek \<Rightarrow>
          let x = the (hget (ms_edges s) (u, item_hash H ek)) in
          if ed_value_kappa x = ed_value_kappa e \<and> ed_metadata x = ed_metadata e then (Ok (), s)
          else (Ok (), s\<lparr>ms_edges := hput (u, item_hash H ek) e (ms_edges s)\<rparr>)
      | None \<Rightarrow> (Ok (), index_edge H u e s)))"

fun edge_put_batch :: "('x) externals_scheme \<Rightarrow> NamespaceRef \<Rightarrow> Edge list \<Rightarrow> InMemoryStore \<Rightarrow> unit store_op" where
  "edge_put_batch H ns [] s = (Ok (), s)"
| "edge_put_batch H ns (e # es) s = sbind (edge_put H ns e s) (\<lambda>_ s. edge_put_batch H ns es s)"

definition query_matches :: "EdgeQuery \<Rightarrow> Edge \<Rightarrow> bool" where
  "query_matches q e \<longleftrightarrow>
     (case eq_relation q of Some rel \<Rightarrow> ed_relation e = rel | None \<Rightarrow> True) \<and>
     (case eq_asserter q of Some asr \<Rightarrow> ed_asserter e = asr | None \<Rightarrow> True)"

definition edge_query :: "('x) hashes_scheme \<Rightarrow> InMemoryStore \<Rightarrow> NamespaceRef \<Rightarrow> EdgeQuery \<Rightarrow> Edge list" where
  "edge_query H s ns q =
     (let u = ns_uuid ns; anchor_hash = item_hash H (eq_anchor q);
          kappas = (case eq_direction q of
                      Outbound \<Rightarrow> bucket (ms_fwd_index s) (u, anchor_hash)
                    | Inbound \<Rightarrow> bucket (ms_rev_index s) (u, anchor_hash))
      in List.map_filter (\<lambda>ek.
           case hget (ms_edges s) (u, item_hash H ek) of
             Some e \<Rightarrow> if query_matches q e then Some e else None
           | None \<Rightarrow> None) kappas)"

text \<open>Removing an edge from the table and the indexes.\<close>

definition unindex_edge :: "('x) hashes_scheme \<Rightarrow> uuid \<Rightarrow> string \<Rightarrow> InMemoryStore \<Rightarrow> InMemoryStore" where
  "unindex_edge H u k s =
     (case hget (ms_edges s) (u, item_hash H k) of
        None \<Rightarrow> s
      | Some e \<Rightarrow>
          s\<lparr>ms_edges := hdel (u, item_hash H k) (ms_edges s),
            ms_fwd_index := remove_from u (item_hash H (ed_source e)) k (ms_fwd_index s),
            ms_rev_index := remove_from u (item_hash H (ed_target e)) k (ms_rev_index s),
            ms_rel_index := remove_from u (relation_index (ed_relation e)) k (ms_rel_index s),
            ms_asr_index := remove_from u (item_hash H (ed_asserter e)) k (ms_asr_index s)\<rparr>)"

definition edge_delete ::
  "('x) hashes_scheme \<Rightarrow> NamespaceRef \<Rightarrow> string \<Rightarrow> string \<Rightarrow> EdgeRelation \<Rightarrow> InMemoryStore \<Rightarrow> unit store_op" where
  "edge_delete H ns src tgt rel s =
     (let u = ns_uuid ns in
      case find_edge H s u src (\<lambda>x. ed_source x = src \<and> ed_target x = tgt \<and> ed_relation x = rel) of
        None \<Rightarrow> (Ok (), s)
      | Some k \<Rightarrow> blob_delete k (unindex_edge H u k s))"

section \<open>The table and its indexes\<close>

text \<open>
  \<open>K\<close> is the set of live edge kappas, by namespace. The hash identifies them, the table holds an edge for each, and the
  bucket of an index holds the kappas whose edge has that key.
\<close>

definition slot :: "('x) hashes_scheme \<Rightarrow> uuid \<times> string \<Rightarrow> uuid \<times> u64" where
  "slot H uk = (fst uk, item_hash H (snd uk))"

definition index_ok ::
  "('x) hashes_scheme \<Rightarrow> (uuid \<times> u64, Edge) hmap \<Rightarrow> (uuid \<times> string) set \<Rightarrow> (Edge \<Rightarrow> u64) \<Rightarrow> EdgeIndex \<Rightarrow> bool" where
  "index_ok H edges K key idx \<longleftrightarrow>
     (\<forall>u kh. distinct (bucket idx (u, kh)) \<and> set (bucket idx (u, kh)) =
        {k. (u, k) \<in> K \<and> (\<exists>e. hget edges (slot H (u, k)) = Some e \<and> key e = kh)})"

definition table_ok ::
  "('x) hashes_scheme \<Rightarrow> (uuid \<times> u64, Edge) hmap \<Rightarrow> (uuid \<times> string) set \<Rightarrow> bool" where
  "table_ok H edges K \<longleftrightarrow> inj_on (slot H) K \<and> {p. hget edges p \<noteq> None} = slot H ` K"

definition edges_ok :: "('x) hashes_scheme \<Rightarrow> InMemoryStore \<Rightarrow> (uuid \<times> string) set \<Rightarrow> bool" where
  "edges_ok H s K \<longleftrightarrow>
     table_ok H (ms_edges s) K \<and>
     index_ok H (ms_edges s) K (\<lambda>e. item_hash H (ed_source e)) (ms_fwd_index s) \<and>
     index_ok H (ms_edges s) K (\<lambda>e. item_hash H (ed_target e)) (ms_rev_index s) \<and>
     index_ok H (ms_edges s) K (\<lambda>e. relation_index (ed_relation e)) (ms_rel_index s) \<and>
     index_ok H (ms_edges s) K (\<lambda>e. item_hash H (ed_asserter e)) (ms_asr_index s)"

lemma edges_ok_same:
  "ms_edges s' = ms_edges s \<Longrightarrow> ms_fwd_index s' = ms_fwd_index s \<Longrightarrow> ms_rev_index s' = ms_rev_index s \<Longrightarrow>
   ms_rel_index s' = ms_rel_index s \<Longrightarrow> ms_asr_index s' = ms_asr_index s \<Longrightarrow> edges_ok H s' K \<longleftrightarrow> edges_ok H s K"
  by (simp add: edges_ok_def)

lemma bucket_push [simp]:
  "bucket (push_index u kh k idx) key = (if key = (u, kh) then bucket idx key @ [k] else bucket idx key)"
  by (simp add: bucket_def push_index_def split: option.splits)

lemma set_bucket_remove [simp]:
  "set (bucket (remove_from u kh k idx) key) = (if key = (u, kh) then set (bucket idx key) - {k} else set (bucket idx key))"
  by (auto simp: bucket_def remove_from_def split: option.splits)

lemma distinct_bucket_remove [simp]:
  "distinct (bucket idx key) \<Longrightarrow> distinct (bucket (remove_from u kh k idx) key)"
  by (auto simp: bucket_def remove_from_def split: option.splits)

lemma table_ok_slot:
  assumes "table_ok H edges K" and "(u, k) \<in> K"
  shows "\<exists>e. hget edges (slot H (u, k)) = Some e"
  using assms unfolding table_ok_def by blast

lemma index_ok_new:
  assumes table: "table_ok H edges K" and idx: "index_ok H edges K key idx"
    and free: "hget edges (slot H (u, k)) = None"
  shows "index_ok H (hput (slot H (u, k)) e edges) (insert (u, k) K) key (push_index u (key e) k idx)"
proof -
  have other: "slot H (v, l) \<noteq> slot H (u, k)" if "(v, l) \<in> K" for v l
    using table_ok_slot [OF table that] free by auto
  have new: "(u, k) \<notin> K" using other by blast
  show ?thesis
    unfolding index_ok_def
  proof (intro allI)
    fix v kh
    have "{l. (v, l) \<in> insert (u, k) K \<and>
              (\<exists>x. hget (hput (slot H (u, k)) e edges) (slot H (v, l)) = Some x \<and> key x = kh)} =
          {l. (v, l) \<in> K \<and> (\<exists>x. hget edges (slot H (v, l)) = Some x \<and> key x = kh)} \<union>
          (if (v, kh) = (u, key e) then {k} else {})"
      using other new by auto
    then show "distinct (bucket (push_index u (key e) k idx) (v, kh)) \<and> set (bucket (push_index u (key e) k idx) (v, kh)) =
        {l. (v, l) \<in> insert (u, k) K \<and>
            (\<exists>x. hget (hput (slot H (u, k)) e edges) (slot H (v, l)) = Some x \<and> key x = kh)}"
      using idx new unfolding index_ok_def by auto
  qed
qed

lemma table_ok_new:
  assumes table: "table_ok H edges K" and free: "hget edges (slot H (u, k)) = None"
  shows "table_ok H (hput (slot H (u, k)) e edges) (insert (u, k) K)"
proof -
  have other: "slot H p \<noteq> slot H (u, k)" if "p \<in> K" for p
    using table_ok_slot [OF table, of "fst p" "snd p"] that free by auto
  then have "slot H (u, k) \<notin> slot H ` K" by (metis imageE)
  then have "inj_on (slot H) (insert (u, k) K)"
    using table unfolding table_ok_def inj_on_insert by blast
  then show ?thesis
    using table unfolding table_ok_def by auto
qed

lemma table_ok_update:
  "table_ok H edges K \<Longrightarrow> hget edges p \<noteq> None \<Longrightarrow> table_ok H (hput p e edges) K"
  unfolding table_ok_def by auto

lemma index_ok_update:
  assumes "index_ok H edges K key idx" and "hget edges p = Some x" and "key x = key e"
  shows "index_ok H (hput p e edges) K key idx"
  unfolding index_ok_def
proof (intro allI)
  fix u kh
  have "(\<exists>y. hget (hput p e edges) q = Some y \<and> key y = kh) \<longleftrightarrow> (\<exists>y. hget edges q = Some y \<and> key y = kh)" for q
    using assms(2,3) by auto
  then show "distinct (bucket idx (u, kh)) \<and> set (bucket idx (u, kh)) =
      {k. (u, k) \<in> K \<and> (\<exists>y. hget (hput p e edges) (slot H (u, k)) = Some y \<and> key y = kh)}"
    using assms(1) unfolding index_ok_def by simp
qed

lemma table_ok_remove:
  assumes "table_ok H edges K" and "(u, k) \<in> K"
  shows "table_ok H (hdel (slot H (u, k)) edges) (K - {(u, k)})"
proof -
  have inj: "inj_on (slot H) K" and dom: "{p. hget edges p \<noteq> None} = slot H ` K"
    using assms(1) unfolding table_ok_def by auto
  have "slot H ` (K - {(u, k)}) = slot H ` K - {slot H (u, k)}"
    using inj assms(2) by (simp add: inj_on_image_set_diff [OF inj])
  then show ?thesis
    unfolding table_ok_def using inj dom by (auto intro: inj_on_subset)
qed

lemma index_ok_remove:
  assumes table: "table_ok H edges K" and idx: "index_ok H edges K key idx"
    and k: "(u, k) \<in> K" "hget edges (slot H (u, k)) = Some e"
  shows "index_ok H (hdel (slot H (u, k)) edges) (K - {(u, k)}) key (remove_from u (key e) k idx)"
  unfolding index_ok_def
proof (intro allI)
  fix v kh
  have inj: "slot H (v, l) = slot H (u, k) \<longleftrightarrow> (v, l) = (u, k)" if "(v, l) \<in> K" for l
    using inj_on_eq_iff [of "slot H" K "(v, l)" "(u, k)"] table that k(1) by (simp add: table_ok_def)
  have "{l. (v, l) \<in> K - {(u, k)} \<and> (\<exists>x. hget (hdel (slot H (u, k)) edges) (slot H (v, l)) = Some x \<and> key x = kh)} =
        {l. (v, l) \<in> K \<and> (\<exists>x. hget edges (slot H (v, l)) = Some x \<and> key x = kh)} -
        (if (v, kh) = (u, key e) then {k} else {})"
    using inj k by auto
  then show "distinct (bucket (remove_from u (key e) k idx) (v, kh)) \<and> set (bucket (remove_from u (key e) k idx) (v, kh)) =
      {l. (v, l) \<in> K - {(u, k)} \<and> (\<exists>x. hget (hdel (slot H (u, k)) edges) (slot H (v, l)) = Some x \<and> key x = kh)}"
    using idx unfolding index_ok_def by auto
qed

lemma find_edge_Some:
  assumes "edges_ok H s K" and "find_edge H s u src P = Some k"
  shows "(u, k) \<in> K \<and> (\<exists>e. hget (ms_edges s) (slot H (u, k)) = Some e \<and> P e)"
proof -
  from find_SomeD [OF assms(2) [unfolded find_edge_def]]
  have "k \<in> set (bucket (ms_fwd_index s) (u, item_hash H src))"
    and "\<exists>e. hget (ms_edges s) (slot H (u, k)) = Some e \<and> P e"
    by (auto simp: slot_def split: option.splits)
  then show ?thesis
    using assms(1) unfolding edges_ok_def index_ok_def by auto
qed

lemma find_edge_None:
  assumes "edges_ok H s K" and "find_edge H s u src P = None"
    and "hget (ms_edges s) (u, h) = Some e" and "ed_source e = src"
  shows "\<not> P e"
proof -
  from assms(1) have "(u, h) \<in> slot H ` K"
    using assms(3) unfolding edges_ok_def table_ok_def by blast
  then obtain k where k: "(u, k) \<in> K" "slot H (u, k) = (u, h)"
    by (auto simp: slot_def)
  then have "k \<in> set (bucket (ms_fwd_index s) (u, item_hash H src))"
    using assms(1,3,4) unfolding edges_ok_def index_ok_def by auto
  then show ?thesis
    using assms(2,3) k(2) by (auto simp: find_edge_def find_None_iff slot_def)
qed

text \<open>The slot of a new edge is free or holds the same logical edge: no two edges share a hash.\<close>

definition no_collision :: "('x) externals_scheme \<Rightarrow> InMemoryStore \<Rightarrow> NamespaceRef \<Rightarrow> Edge \<Rightarrow> bool" where
  "no_collision H s ns e \<longleftrightarrow>
     (case hget (ms_edges s) (ns_uuid ns, item_hash H (edge_kappa H e)) of
        None \<Rightarrow> True | Some x \<Rightarrow> same_edge x e)"

lemma index_edge_ok:
  assumes ok: "edges_ok H s K" and free: "hget (ms_edges s) (slot H (u, edge_kappa H e)) = None"
  shows "edges_ok H (index_edge H u e s) (insert (u, edge_kappa H e) K)"
proof -
  let ?k = "edge_kappa H e"
  have t: "table_ok H (ms_edges s) K" using ok by (simp add: edges_ok_def)
  note new = index_ok_new [OF t _ free]
  have fields: "ms_edges (index_edge H u e s) = hput (slot H (u, ?k)) e (ms_edges s)"
    "ms_fwd_index (index_edge H u e s) = push_index u (item_hash H (ed_source e)) ?k (ms_fwd_index s)"
    "ms_rev_index (index_edge H u e s) = push_index u (item_hash H (ed_target e)) ?k (ms_rev_index s)"
    "ms_rel_index (index_edge H u e s) = push_index u (relation_index (ed_relation e)) ?k (ms_rel_index s)"
    "ms_asr_index (index_edge H u e s) = push_index u (item_hash H (ed_asserter e)) ?k (ms_asr_index s)"
    by (simp_all add: index_edge_def Let_def slot_def)
  show ?thesis
    unfolding edges_ok_def fields
    using ok table_ok_new [OF t free] new [of "\<lambda>e. item_hash H (ed_source e)"]
      new [of "\<lambda>e. item_hash H (ed_target e)"] new [of "\<lambda>e. relation_index (ed_relation e)"]
      new [of "\<lambda>e. item_hash H (ed_asserter e)"]
    by (simp add: edges_ok_def)
qed

lemma update_edge_ok:
  assumes ok: "edges_ok H s K" and x: "hget (ms_edges s) p = Some x" "same_edge x e"
  shows "edges_ok H (s\<lparr>ms_edges := hput p e (ms_edges s)\<rparr>) K"
proof -
  note upd = index_ok_update [OF _ x(1)]
  have keys: "ed_source x = ed_source e" "ed_target x = ed_target e" "ed_relation x = ed_relation e"
      "ed_asserter x = ed_asserter e"
    using x(2) by (simp_all add: same_edge_def)
  show ?thesis
    using ok x(1) table_ok_update [of H "ms_edges s" K p e] keys
      upd [of H K "\<lambda>e. item_hash H (ed_source e)"] upd [of H K "\<lambda>e. item_hash H (ed_target e)"]
      upd [of H K "\<lambda>e. relation_index (ed_relation e)"] upd [of H K "\<lambda>e. item_hash H (ed_asserter e)"]
    by (simp add: edges_ok_def)
qed

lemma unindex_edge_ok:
  assumes ok: "edges_ok H s K" and k: "(u, k) \<in> K"
  shows "edges_ok H (unindex_edge H u k s) (K - {(u, k)})"
proof -
  have t: "table_ok H (ms_edges s) K" using ok by (simp add: edges_ok_def)
  from table_ok_slot [OF t k] obtain e where e: "hget (ms_edges s) (slot H (u, k)) = Some e" by blast
  note rem = index_ok_remove [OF t _ k e]
  have fields: "ms_edges (unindex_edge H u k s) = hdel (slot H (u, k)) (ms_edges s)"
    "ms_fwd_index (unindex_edge H u k s) = remove_from u (item_hash H (ed_source e)) k (ms_fwd_index s)"
    "ms_rev_index (unindex_edge H u k s) = remove_from u (item_hash H (ed_target e)) k (ms_rev_index s)"
    "ms_rel_index (unindex_edge H u k s) = remove_from u (relation_index (ed_relation e)) k (ms_rel_index s)"
    "ms_asr_index (unindex_edge H u k s) = remove_from u (item_hash H (ed_asserter e)) k (ms_asr_index s)"
    using e by (simp_all add: unindex_edge_def slot_def)
  show ?thesis
    unfolding edges_ok_def fields
    using ok table_ok_remove [OF t k] rem [of "\<lambda>e. item_hash H (ed_source e)"]
      rem [of "\<lambda>e. item_hash H (ed_target e)"] rem [of "\<lambda>e. relation_index (ed_relation e)"]
      rem [of "\<lambda>e. item_hash H (ed_asserter e)"]
    by (simp add: edges_ok_def)
qed

section \<open>Edges as a set\<close>

text \<open>The edges of a namespace, and the invariant of the whole edge store: no two entries are the same logical edge.\<close>

definition live :: "InMemoryStore \<Rightarrow> uuid \<Rightarrow> Edge set" where
  "live s u = {e. \<exists>h. hget (ms_edges s) (u, h) = Some e}"

definition one_each :: "(uuid \<times> u64, Edge) hmap \<Rightarrow> bool" where
  "one_each edges \<longleftrightarrow>
     (\<forall>u h h' x y. hget edges (u, h) = Some x \<longrightarrow> hget edges (u, h') = Some y \<longrightarrow> same_edge x y \<longrightarrow> h = h')"

definition edge_inv :: "('x) hashes_scheme \<Rightarrow> InMemoryStore \<Rightarrow> (uuid \<times> string) set \<Rightarrow> bool" where
  "edge_inv H s K \<longleftrightarrow>
     disk_ok H s \<and> edges_ok H s K \<and> one_each (ms_edges s) \<and> (\<forall>p \<in> K. valid_label (snd p))"

lemma same_edge_refl [simp]: "same_edge e e"
  by (simp add: same_edge_def)

lemma one_each_put:
  assumes "one_each edges" and "\<And>h y. hget edges (u, h) = Some y \<Longrightarrow> h \<noteq> h0 \<Longrightarrow> \<not> same_edge y e"
  shows "one_each (hput (u, h0) e edges)"
  using assms unfolding one_each_def same_edge_def by (auto split: if_splits) metis+

lemma one_each_del: "one_each edges \<Longrightarrow> one_each (hdel p edges)"
  unfolding one_each_def by (auto split: if_splits)

lemma live_put:
  assumes "one_each (ms_edges s)" and "hget (ms_edges s) (u, h0) = Some x" and "same_edge x e"
  shows "live (s\<lparr>ms_edges := hput (u, h0) e (ms_edges s)\<rparr>) = (live s)(u := insert e {y \<in> live s u. \<not> same_edge y e})"
proof (rule ext)
  fix v
  show "live (s\<lparr>ms_edges := hput (u, h0) e (ms_edges s)\<rparr>) v = ((live s)(u := insert e {y \<in> live s u. \<not> same_edge y e})) v"
  proof (cases "v = u")
    case True
    have "\<not> same_edge y e" if "hget (ms_edges s) (u, h) = Some y" "h \<noteq> h0" for h y
      using assms that unfolding one_each_def same_edge_def by metis
    then show ?thesis using True assms(2,3) by (auto simp: live_def split: if_splits) (metis option.inject)
  qed (auto simp: live_def split: if_splits)
qed

lemma live_new:
  assumes "hget (ms_edges s) (u, h) = None" and "\<And>y. y \<in> live s u \<Longrightarrow> \<not> same_edge y e"
    and "ms_edges s' = hput (u, h) e (ms_edges s)"
  shows "live s' = (live s)(u := insert e {y \<in> live s u. \<not> same_edge y e})"
proof (rule ext)
  fix v
  have "insert e {y \<in> live s u. \<not> same_edge y e} = insert e (live s u)" using assms(2) by auto
  then show "live s' v = ((live s)(u := insert e {y \<in> live s u. \<not> same_edge y e})) v"
    using assms(1,3) by (auto simp: live_def split: if_splits) (metis option.distinct(1))
qed

lemma live_del:
  assumes "one_each (ms_edges s)" and "hget (ms_edges s) (u, h) = Some x"
    and "ms_edges s' = hdel (u, h) (ms_edges s)"
  shows "live s' = (live s)(u := live s u - {x})"
proof (rule ext)
  fix v
  have uniq: "h' = h" if "hget (ms_edges s) (u, h') = Some x" for h'
    using assms(1,2) that unfolding one_each_def by (metis same_edge_refl)
  have "(\<exists>h'. (u, h') \<noteq> (u, h) \<and> hget (ms_edges s) (u, h') = Some y) \<longleftrightarrow> y \<in> live s u - {x}" for y
    using assms(2) by (auto simp: live_def dest: uniq) (metis option.inject)
  then show "live s' v = ((live s)(u := live s u - {x})) v"
    using assms(3) by (cases "v = u") (auto simp: live_def split: if_splits)
qed

lemma edge_inv_same:
  assumes "edge_inv H s K" and "disk_ok H s'" and "ms_edges s' = ms_edges s" and "ms_fwd_index s' = ms_fwd_index s"
    and "ms_rev_index s' = ms_rev_index s" and "ms_rel_index s' = ms_rel_index s" and "ms_asr_index s' = ms_asr_index s"
  shows "edge_inv H s' K"
  using assms edges_ok_same [of s' s H K] by (simp add: edge_inv_def)

lemma live_same: "ms_edges s' = ms_edges s \<Longrightarrow> live s' = live s"
  by (simp add: live_def fun_eq_iff)

lemma index_edge_edges [simp]: "ms_edges (index_edge H u e s) = hput (u, item_hash H (edge_kappa H e)) e (ms_edges s)"
  "ms_disk (index_edge H u e s) = ms_disk s" "ms_blob_root (index_edge H u e s) = ms_blob_root s"
  by (simp_all add: index_edge_def Let_def)

lemma edge_put_start:
  assumes "hashes_ok H" and "edge_inv H s K"
  shows "\<exists>r s1. ingest_compute H Sha256 (enc_Edge H e) (ensure_namespace H ns s) = (Ok r, s1) \<and>
    edge_inv H s1 K \<and> ms_edges s1 = ms_edges s"
proof -
  have d: "disk_ok H (ensure_namespace H ns s)"
    using assms(2) by (simp add: edge_inv_def disk_ok_same [of "ensure_namespace H ns s" s])
  from ingest_compute_eq [OF assms(1) d, of Sha256 "enc_Edge H e"] obtain r s1
    where "ingest_compute H Sha256 (enc_Edge H e) (ensure_namespace H ns s) = (Ok r, s1)" "disk_ok H s1"
      and only: "disk_only (ensure_namespace H ns s) s1"
    by auto
  moreover have "edge_inv H s1 K"
    by (rule edge_inv_same [OF assms(2) \<open>disk_ok H s1\<close>]) (simp_all add: disk_only_fields [OF only])
  ultimately show ?thesis using disk_only_fields(7) [OF only] by auto
qed

lemma edge_inv_insert:
  assumes H: "hashes_ok H" and inv: "edge_inv H s K" and free: "hget (ms_edges s) (u, item_hash H (edge_kappa H e)) = None"
    and fresh: "\<And>y. y \<in> live s u \<Longrightarrow> \<not> same_edge y e"
  shows "edge_inv H (index_edge H u e s) (insert (u, edge_kappa H e) K)"
  unfolding edge_inv_def
proof (intro conjI)
  show "disk_ok H (index_edge H u e s)"
    using inv by (simp add: edge_inv_def disk_ok_same [of "index_edge H u e s" s])
  show "edges_ok H (index_edge H u e s) (insert (u, edge_kappa H e) K)"
    using inv free by (intro index_edge_ok) (simp_all add: slot_def edge_inv_def)
  show "one_each (ms_edges (index_edge H u e s))"
    using one_each_put [of "ms_edges s" u] inv fresh by (auto simp: live_def edge_inv_def)
  show "\<forall>p \<in> insert (u, edge_kappa H e) K. valid_label (snd p)"
    using inv H by (simp add: edge_inv_def edge_kappa_def kappa_from_bytes_text)
qed

lemma edge_inv_update:
  assumes inv: "edge_inv H s K" and x: "hget (ms_edges s) (u, h) = Some x" "same_edge x e"
  shows "edge_inv H (s\<lparr>ms_edges := hput (u, h) e (ms_edges s)\<rparr>) K"
proof -
  have one: "one_each (ms_edges s)" using inv by (simp add: edge_inv_def)
  have "\<not> same_edge y e" if "hget (ms_edges s) (u, h') = Some y" "h' \<noteq> h" for h' y
    using one x that unfolding one_each_def same_edge_def by metis
  then have "one_each (hput (u, h) e (ms_edges s))" by (rule one_each_put [OF one])
  then show ?thesis
    using inv update_edge_ok [OF _ x, of H K] disk_ok_same [of "s\<lparr>ms_edges := hput (u, h) e (ms_edges s)\<rparr>" s H]
    by (simp add: edge_inv_def)
qed

lemma edge_put_inv:
  assumes H: "hashes_ok H" and inv: "edge_inv H s K" and nc: "no_collision H s ns e"
  shows "\<exists>s' K'. edge_put H ns e s = (Ok (), s') \<and> edge_inv H s' K' \<and>
    live s' = (live s)(ns_uuid ns := insert e {x \<in> live s (ns_uuid ns). \<not> same_edge x e})"
proof -
  let ?u = "ns_uuid ns"
  from edge_put_start [OF H inv] obtain r s1
    where ic: "ingest_compute H Sha256 (enc_Edge H e) (ensure_namespace H ns s) = (Ok r, s1)"
      and inv1: "edge_inv H s1 K" and same: "ms_edges s1 = ms_edges s" by blast
  have ok: "edges_ok H s1 K" and one: "one_each (ms_edges s1)" using inv1 by (simp_all add: edge_inv_def)
  have live1: "live s1 = live s" using same by (rule live_same)
  show ?thesis
  proof (cases "find_edge H s1 ?u (ed_source e) (\<lambda>x. same_edge x e)")
    case None
    have fresh: "\<not> same_edge y e" if "y \<in> live s1 ?u" for y
      using that find_edge_None [OF ok None, of _ y] by (auto simp: live_def same_edge_def)
    have free: "hget (ms_edges s1) (?u, item_hash H (edge_kappa H e)) = None"
      using nc fresh by (auto simp: no_collision_def same live_def split: option.splits)
    have "edge_put H ns e s = (Ok (), index_edge H ?u e s1)" using None ic by (simp add: edge_put_def Let_def)
    moreover note edge_inv_insert [OF H inv1 free fresh]
    moreover have "live (index_edge H ?u e s1) = (live s)(?u := insert e {x \<in> live s ?u. \<not> same_edge x e})"
      using live_new [OF free fresh, of "index_edge H ?u e s1"] by (simp add: live1)
    ultimately show ?thesis by blast
  next
    case (Some ek)
    from find_edge_Some [OF ok Some] obtain x
      where x: "hget (ms_edges s1) (?u, item_hash H ek) = Some x" "same_edge x e" by (auto simp: slot_def)
    let ?s = "s1\<lparr>ms_edges := hput (?u, item_hash H ek) e (ms_edges s1)\<rparr>"
    let ?dup = "ed_value_kappa x = ed_value_kappa e \<and> ed_metadata x = ed_metadata e"
    have upd: "live ?s = (live s)(?u := insert e {x \<in> live s ?u. \<not> same_edge x e})"
      using live_put [OF one x] by (simp add: live1)
    have dup: "live s1 = live ?s" if ?dup
    proof -
      have "x = e" using x(2) that by (simp add: same_edge_def)
      then show ?thesis using x(1) by (auto simp: live_def fun_eq_iff) (metis option.inject)
    qed
    have put: "edge_put H ns e s = (Ok (), if ?dup then s1 else ?s)"
      using Some ic x(1) by (simp add: edge_put_def Let_def)
    moreover have "edge_inv H (if ?dup then s1 else ?s) K" using inv1 edge_inv_update [OF inv1 x] by simp
    moreover have "live (if ?dup then s1 else ?s) = (live s)(?u := insert e {x \<in> live s ?u. \<not> same_edge x e})"
      using dup upd by (simp only: if_distrib [of live] if_cancel split: if_split) simp
    ultimately show ?thesis by blast
  qed
qed

lemma edge_delete_inv:
  assumes H: "hashes_ok H" and inv: "edge_inv H s K"
    and D: "D = {x \<in> live s (ns_uuid ns). ed_source x = src \<and> ed_target x = tgt \<and> ed_relation x = rel}"
  shows "\<exists>s' K'. edge_delete H ns src tgt rel s = (Ok (), s') \<and> edge_inv H s' K' \<and>
    (if D = {} then s' = s else \<exists>x \<in> D. live s' = (live s)(ns_uuid ns := live s (ns_uuid ns) - {x}))"
proof -
  let ?u = "ns_uuid ns" and ?P = "\<lambda>x. ed_source x = src \<and> ed_target x = tgt \<and> ed_relation x = rel"
  have ok: "edges_ok H s K" and one: "one_each (ms_edges s)" using inv by (simp_all add: edge_inv_def)
  show ?thesis
  proof (cases "find_edge H s ?u src ?P")
    case None
    have "D = {}" using find_edge_None [OF ok None] by (auto simp: D live_def)
    then show ?thesis using None inv by (auto simp: edge_delete_def)
  next
    case (Some k)
    from find_edge_Some [OF ok Some] obtain x
      where k: "(?u, k) \<in> K" and x: "hget (ms_edges s) (?u, item_hash H k) = Some x" "?P x" by (auto simp: slot_def)
    let ?s = "unindex_edge H ?u k s"
    have f: "ms_edges ?s = hdel (?u, item_hash H k) (ms_edges s)" "ms_disk ?s = ms_disk s"
        "ms_blob_root ?s = ms_blob_root s"
      using x(1) by (simp_all add: unindex_edge_def)
    have d: "disk_ok H ?s" using inv f by (simp add: edge_inv_def disk_ok_same [of ?s s])
    have valid: "valid_label k" using inv k by (auto simp: edge_inv_def)
    have inv': "edge_inv H ?s (K - {(?u, k)})"
      using d inv unindex_edge_ok [OF ok k] one_each_del [OF one] f(1) by (simp add: edge_inv_def)
    from blob_delete_eq [OF H d valid] obtain s'
      where bd: "blob_delete k ?s = (Ok (), s')" "disk_ok H s'" "disk_only ?s s'" by blast
    have "edge_inv H s' (K - {(?u, k)})"
      by (rule edge_inv_same [OF inv' bd(2)]) (simp_all add: disk_only_fields [OF bd(3)])
    moreover have "live s' = (live s)(?u := live s ?u - {x})"
      using live_del [OF one x(1)] disk_only_fields(7) [OF bd(3)] f(1) by simp
    moreover have "x \<in> D" using x by (auto simp: D live_def)
    ultimately show ?thesis using Some bd(1) by (auto simp: edge_delete_def)
  qed
qed

lemma edge_query_inv:
  assumes inv: "edge_inv H s K"
  shows "distinct (edge_query H s ns q) \<and> set (edge_query H s ns q) =
    {e \<in> live s (ns_uuid ns). query_matches q e \<and>
       item_hash H (case eq_direction q of Outbound \<Rightarrow> ed_source e | Inbound \<Rightarrow> ed_target e) = item_hash H (eq_anchor q)}"
proof -
  let ?u = "ns_uuid ns" and ?key = "\<lambda>e. item_hash H (case eq_direction q of Outbound \<Rightarrow> ed_source e | Inbound \<Rightarrow> ed_target e)"
  define ks where "ks = (case eq_direction q of
      Outbound \<Rightarrow> bucket (ms_fwd_index s) (?u, item_hash H (eq_anchor q))
    | Inbound \<Rightarrow> bucket (ms_rev_index s) (?u, item_hash H (eq_anchor q)))"
  define f where "f = (\<lambda>k. case hget (ms_edges s) (?u, item_hash H k) of
      Some e \<Rightarrow> if query_matches q e then Some e else None | None \<Rightarrow> None)"
  have query: "edge_query H s ns q = List.map_filter f ks"
    unfolding edge_query_def Let_def ks_def f_def by simp
  have ks: "distinct ks" "set ks = {k. (?u, k) \<in> K \<and>
      (\<exists>e. hget (ms_edges s) (slot H (?u, k)) = Some e \<and> ?key e = item_hash H (eq_anchor q))}"
    using inv by (auto simp: ks_def edge_inv_def edges_ok_def index_ok_def split: Direction.splits)
  have table: "table_ok H (ms_edges s) K" and one: "one_each (ms_edges s)"
    using inv by (simp_all add: edge_inv_def edges_ok_def)
  have "k = l" if "k \<in> set ks" "l \<in> set ks" "f k = Some e" "f l = Some e" for k l e
  proof -
    have "hget (ms_edges s) (?u, item_hash H k) = Some e" "hget (ms_edges s) (?u, item_hash H l) = Some e"
      using that(3,4) by (auto simp: f_def split: option.splits if_splits)
    then have "item_hash H k = item_hash H l" using one same_edge_refl [of e] unfolding one_each_def by blast
    moreover have "(?u, k) \<in> K" "(?u, l) \<in> K" using that(1,2) ks(2) by auto
    ultimately show ?thesis
      using table inj_onD [of "slot H" K "(?u, k)" "(?u, l)"] by (simp add: table_ok_def slot_def)
  qed
  then have "distinct (edge_query H s ns q)" unfolding query by (rule distinct_map_filter [OF ks(1)])
  moreover have "e \<in> set (edge_query H s ns q) \<longleftrightarrow> e \<in> live s ?u \<and> query_matches q e \<and> ?key e = item_hash H (eq_anchor q)" for e
  proof
    assume "e \<in> set (edge_query H s ns q)"
    then show "e \<in> live s ?u \<and> query_matches q e \<and> ?key e = item_hash H (eq_anchor q)"
      unfolding query map_filter_mem by (auto simp: f_def ks(2) live_def slot_def split: option.splits if_splits)
  next
    assume e: "e \<in> live s ?u \<and> query_matches q e \<and> ?key e = item_hash H (eq_anchor q)"
    then obtain h where h: "hget (ms_edges s) (?u, h) = Some e" by (auto simp: live_def)
    then have "(?u, h) \<in> slot H ` K" using table unfolding table_ok_def by blast
    then obtain k where k: "(?u, k) \<in> K" "item_hash H k = h" by (auto simp: slot_def)
    then have "k \<in> set ks" using e h by (simp add: ks(2) slot_def)
    moreover have "f k = Some e" using e h k by (simp add: f_def)
    ultimately show "e \<in> set (edge_query H s ns q)" unfolding query map_filter_mem by blast
  qed
  ultimately show ?thesis by auto
qed

section \<open>Reachable edge stores\<close>

text \<open>
  The stores that edge operations reach from a fresh one. Between them any operation may run that leaves
  the edge table and its indexes alone and keeps the blobs addressed.
\<close>

inductive edge_reachable :: "('x) externals_scheme \<Rightarrow> InMemoryStore \<Rightarrow> bool" for H where
  fresh: "edge_reachable H (mem_new root timeout [])"
| put: "edge_reachable H s \<Longrightarrow> no_collision H s ns e \<Longrightarrow> edge_put H ns e s = (r, s') \<Longrightarrow> edge_reachable H s'"
| delete: "edge_reachable H s \<Longrightarrow> edge_delete H ns src tgt rel s = (r, s') \<Longrightarrow> edge_reachable H s'"
| other: "edge_reachable H s \<Longrightarrow> disk_ok H s' \<Longrightarrow> ms_edges s' = ms_edges s \<Longrightarrow> ms_fwd_index s' = ms_fwd_index s \<Longrightarrow>
    ms_rev_index s' = ms_rev_index s \<Longrightarrow> ms_rel_index s' = ms_rel_index s \<Longrightarrow> ms_asr_index s' = ms_asr_index s \<Longrightarrow>
    edge_reachable H s'"

lemma edge_reachable_inv:
  assumes "hashes_ok H"
  shows "edge_reachable H s \<Longrightarrow> \<exists>K. edge_inv H s K"
proof (induction rule: edge_reachable.induct)
  case (fresh root timeout)
  have "edge_inv H (mem_new root timeout []) {}"
    by (auto simp: edge_inv_def edges_ok_def table_ok_def index_ok_def bucket_def one_each_def mem_new_def)
  then show ?case by blast
next
  case (put s ns e r s')
  then obtain K where K: "edge_inv H s K" by blast
  from edge_put_inv [OF assms K put.hyps(2)] put.hyps(3) show ?case by auto
next
  case (delete s ns src tgt rel r s')
  then obtain K where K: "edge_inv H s K" by blast
  from edge_delete_inv [OF assms K refl, of ns src tgt rel] delete.hyps(2) show ?case by auto
next
  case (other s s')
  then obtain K where K: "edge_inv H s K" by blast
  from edge_inv_same [OF K other.hyps(2-)] show ?case by blast
qed

text \<open>
  C12. On every store that edge operations reach, a query returns each edge of the namespace once that
  has the asked endpoint, relation and asserter, and nothing else: the four indexes never miss an edge,
  keep a deleted one or list one twice. Endpoints are compared by their 64-bit hash only, and no two edges of a namespace
  may share the hash of their kappa.
\<close>

theorem edge_query_exact:
  assumes "hashes_ok H" and "edge_reachable H s"
  shows "distinct (edge_query H s ns q) \<and> set (edge_query H s ns q) =
    {e. (\<exists>h. hget (ms_edges s) (ns_uuid ns, h) = Some e) \<and> query_matches q e \<and>
       item_hash H (case eq_direction q of Outbound \<Rightarrow> ed_source e | Inbound \<Rightarrow> ed_target e) = item_hash H (eq_anchor q)}"
  using edge_reachable_inv [OF assms] edge_query_inv [of H s _ ns q] by (auto simp: live_def)

definition sample_edge :: Edge where
  "sample_edge = \<lparr>ed_source = ''a'', ed_target = ''b'', ed_relation = Assertion, ed_asserter = ''c'',
                  ed_value_kappa = None, ed_metadata = None\<rparr>"

definition sample_ns :: NamespaceRef where
  "sample_ns = ns_with_name (replicate 16 1) ''n''"

lemma sample_edge_store:
  "\<exists>s. edge_put sample_crypto sample_ns sample_edge (mem_new [''blobs''] None []) = (Ok (), s) \<and>
     edge_reachable sample_crypto s \<and> live s (ns_uuid sample_ns) = {sample_edge}"
proof -
  have H: "hashes_ok sample_crypto" using sample_crypto_ok by (simp add: externals_ok_def)
  let ?s0 = "mem_new [''blobs''] None []"
  have r0: "edge_reachable sample_crypto ?s0" by (rule edge_reachable.fresh)
  from edge_reachable_inv [OF H r0] obtain K where inv: "edge_inv sample_crypto ?s0 K" by blast
  have nc: "no_collision sample_crypto ?s0 sample_ns sample_edge" by (simp add: no_collision_def mem_new_def)
  from edge_put_inv [OF H inv nc] obtain s
    where put: "edge_put sample_crypto sample_ns sample_edge ?s0 = (Ok (), s)"
      and l: "live s (ns_uuid sample_ns) = insert sample_edge {x \<in> live ?s0 (ns_uuid sample_ns). \<not> same_edge x sample_edge}"
    by auto
  moreover have "live ?s0 (ns_uuid sample_ns) = {}" by (simp add: live_def mem_new_def)
  ultimately show ?thesis using edge_reachable.put [OF r0 nc put] by simp
qed

theorem edge_query_exact_witness:
  "\<exists>s. edge_reachable sample_crypto s \<and>
     set (edge_query sample_crypto s sample_ns
       \<lparr>eq_anchor = ''b'', eq_direction = Inbound, eq_relation = Some Assertion, eq_asserter = None\<rparr>) = {sample_edge}"
proof -
  have H: "hashes_ok sample_crypto" using sample_crypto_ok by (simp add: externals_ok_def)
  from sample_edge_store obtain s
    where s: "edge_reachable sample_crypto s" "live s (ns_uuid sample_ns) = {sample_edge}" by blast
  have "(\<exists>h. hget (ms_edges s) (ns_uuid sample_ns, h) = Some e) \<longleftrightarrow> e = sample_edge" for e
    using s(2) by (auto simp: live_def set_eq_iff)
  then show ?thesis
    using edge_query_exact [OF H s(1), of sample_ns
        "\<lparr>eq_anchor = ''b'', eq_direction = Inbound, eq_relation = Some Assertion, eq_asserter = None\<rparr>"] s(1)
    by (intro exI [of _ s]) (simp add: query_matches_def sample_edge_def cong: conj_cong)
qed

text \<open>
  C11. The edges of a namespace behave as a set with one edge for each source, target, relation and
  asserter. Putting an edge always succeeds and replaces the edge with the same four; deleting removes
  exactly one edge with the given source, target and relation, whoever asserted it, and does nothing
  if there is none. Other namespaces are not touched.
\<close>

theorem edge_ops_refine_set:
  assumes "hashes_ok H" and "edge_reachable H s"
  shows "(no_collision H s ns e \<longrightarrow> (\<exists>s'. edge_put H ns e s = (Ok (), s') \<and>
       live s' = (live s)(ns_uuid ns := insert e {x \<in> live s (ns_uuid ns). \<not> same_edge x e}))) \<and>
    (let D = {x \<in> live s (ns_uuid ns). ed_source x = src \<and> ed_target x = tgt \<and> ed_relation x = rel} in
     \<exists>s'. edge_delete H ns src tgt rel s = (Ok (), s') \<and>
       (if D = {} then s' = s else \<exists>x \<in> D. live s' = (live s)(ns_uuid ns := live s (ns_uuid ns) - {x})))"
proof -
  from edge_reachable_inv [OF assms] obtain K where inv: "edge_inv H s K" by blast
  show ?thesis
    using edge_put_inv [OF assms(1) inv, of ns e] edge_delete_inv [OF assms(1) inv refl, of ns src tgt rel]
    unfolding Let_def by blast
qed

theorem edge_ops_refine_set_witness:
  "\<exists>s s'. edge_reachable sample_crypto s \<and> live s (ns_uuid sample_ns) = {sample_edge} \<and>
     edge_delete sample_crypto sample_ns ''a'' ''b'' Assertion s = (Ok (), s') \<and> live s' (ns_uuid sample_ns) = {}"
proof -
  have H: "hashes_ok sample_crypto" using sample_crypto_ok by (simp add: externals_ok_def)
  from sample_edge_store obtain s
    where s: "edge_reachable sample_crypto s" "live s (ns_uuid sample_ns) = {sample_edge}" by blast
  have D: "{x \<in> live s (ns_uuid sample_ns). ed_source x = ''a'' \<and> ed_target x = ''b'' \<and> ed_relation x = Assertion} = {sample_edge}"
    unfolding s(2) by (auto simp: sample_edge_def)
  from conjunct2 [OF edge_ops_refine_set [OF H s(1), of sample_ns sample_edge "''a''" "''b''" Assertion]]
  obtain s' where "edge_delete sample_crypto sample_ns ''a'' ''b'' Assertion s = (Ok (), s')"
      "live s' = (live s)(ns_uuid sample_ns := live s (ns_uuid sample_ns) - {sample_edge})"
    unfolding D Let_def by auto
  then show ?thesis using s by (intro exI [of _ s] exI [of _ s']) simp
qed

lemma inbound_pushed:
  assumes "ms_assertion_inbound s = hentry (inbound_key subject rel) [] (\<lambda>ks. ks @ [k]) m"
  shows "k \<in> set (assertion_index_query_subject s subject)"
proof -
  have "hget (ms_assertion_inbound s) (inbound_key subject rel) =
      Some ((case hget m (inbound_key subject rel) of None \<Rightarrow> [] | Some ks \<Rightarrow> ks) @ [k])"
    using assms by simp
  then have "(inbound_key subject rel, (case hget m (inbound_key subject rel) of None \<Rightarrow> [] | Some ks \<Rightarrow> ks) @ [k])
      \<in> set (ms_assertion_inbound s)"
    by (simp only: hget_def map_of_SomeD)
  moreover have "starts_with (inbound_key subject rel) (subject @ [CHR 0x00])"
    by (simp add: starts_with_def inbound_key_def)
  ultimately show ?thesis by (force simp: assertion_index_query_subject_def)
qed

text \<open>
  An edge of an identity relation also enters the inbound index by which the claims about a subject
  are found. Deleting the edge removes its blob and its entries in the table and the four indexes, but not the
  inbound entry: the subject still lists the kappa of the deleted edge, which no longer resolves to content.
\<close>

lemma edge_delete_leaves_inbound:
  assumes "hashes_ok H" and "disk_ok H s" and "ms_edges s = []" and "ms_fwd_index s = []"
    and "ed_relation e \<in> set inbound_relations" and "edge_put H ns e s = (r, s1)"
    and "edge_delete H ns (ed_source e) (ed_target e) (ed_relation e) s1 = (r', s2)"
  shows "hget (ms_edges s2) (ns_uuid ns, item_hash H (edge_kappa H e)) = None \<and>
    blob_get s2 (edge_kappa H e) = Err (NotFound (edge_kappa H e)) \<and>
    edge_kappa H e \<in> set (assertion_index_query_subject s2 (ed_target e))"
proof -
  let ?u = "ns_uuid ns" and ?k = "edge_kappa H e"
  have d0: "disk_ok H (ensure_namespace H ns s)"
    using assms(2) by (simp add: disk_ok_same [of "ensure_namespace H ns s" s])
  from ingest_compute_eq [OF assms(1) d0, of Sha256 "enc_Edge H e"] obtain x s0
    where ic: "ingest_compute H Sha256 (enc_Edge H e) (ensure_namespace H ns s) = (Ok x, s0)" "disk_ok H s0"
      and only: "disk_only (ensure_namespace H ns s) s0" by auto
  have empty: "ms_edges s0 = []" "ms_fwd_index s0 = []"
    using disk_only_fields [OF only] assms(3,4) by auto
  then have "find_edge H s0 ?u (ed_source e) (\<lambda>x. same_edge x e) = None" by (simp add: find_edge_def bucket_def)
  then have s1: "s1 = index_edge H ?u e s0" using assms(6) ic(1) by (simp add: edge_put_def Let_def)
  have idx: "hget (ms_edges s1) (?u, item_hash H ?k) = Some e"
      "bucket (ms_fwd_index s1) (?u, item_hash H (ed_source e)) = [?k]"
    using empty by (simp_all add: s1 index_edge_def Let_def bucket_def push_index_def)
  then have "find_edge H s1 ?u (ed_source e)
      (\<lambda>x. ed_source x = ed_source e \<and> ed_target x = ed_target e \<and> ed_relation x = ed_relation e) = Some ?k"
    by (simp add: find_edge_def)
  then have del: "blob_delete ?k (unindex_edge H ?u ?k s1) = (r', s2)"
    using assms(7) by (simp add: edge_delete_def)
  have f: "ms_edges (unindex_edge H ?u ?k s1) = hdel (?u, item_hash H ?k) (ms_edges s1)"
      "ms_disk (unindex_edge H ?u ?k s1) = ms_disk s0" "ms_blob_root (unindex_edge H ?u ?k s1) = ms_blob_root s0"
      "ms_assertion_inbound (unindex_edge H ?u ?k s1) = ms_assertion_inbound s1"
    using idx(1) by (simp_all add: unindex_edge_def s1)
  have d: "disk_ok H (unindex_edge H ?u ?k s1)"
    using ic(2) f by (simp add: disk_ok_same [of "unindex_edge H ?u ?k s1" s0])
  have valid: "valid_label ?k" using assms(1) by (simp add: edge_kappa_def kappa_from_bytes_text)
  from blob_delete_eq [OF assms(1) d valid] del
  have "blobs s2 ?k = None" and only2: "disk_only (unindex_edge H ?u ?k s1) s2" by auto
  moreover have "?k \<in> set (assertion_index_query_subject s2 (ed_target e))"
  proof -
    have "ms_assertion_inbound s2 = ms_assertion_inbound s1" using disk_only_fields(15) [OF only2] f(4) by simp
    also have "\<dots> = hentry (inbound_key (ed_target e) (relation_as_str (ed_relation e))) [] (\<lambda>ks. ks @ [?k])
        (ms_assertion_inbound s0)"
      using assms(5) by (simp add: s1 index_edge_def Let_def)
    finally show ?thesis by (rule inbound_pushed)
  qed
  ultimately show ?thesis
    using valid disk_only_fields(7) [OF only2] f(1) by (simp add: blob_get_eq)
qed

lemma edge_delete_leaves_inbound_witness:
  "\<exists>s1 s2. edge_put sample_crypto sample_ns sample_edge (mem_new [''blobs''] None []) = (Ok (), s1) \<and>
     edge_delete sample_crypto sample_ns ''a'' ''b'' Assertion s1 = (Ok (), s2) \<and>
     edge_kappa sample_crypto sample_edge \<in> set (assertion_index_query_subject s2 ''b'') \<and>
     blob_get s2 (edge_kappa sample_crypto sample_edge) = Err (NotFound (edge_kappa sample_crypto sample_edge))"
proof -
  have H: "hashes_ok sample_crypto" using sample_crypto_ok by (simp add: externals_ok_def)
  from sample_edge_store obtain s1
    where put: "edge_put sample_crypto sample_ns sample_edge (mem_new [''blobs''] None []) = (Ok (), s1)"
      and reach: "edge_reachable sample_crypto s1" by blast
  from edge_reachable_inv [OF H reach] obtain K where inv: "edge_inv sample_crypto s1 K" by blast
  from edge_delete_inv [OF H inv refl, of sample_ns "''a''" "''b''" Assertion] obtain s2
    where del: "edge_delete sample_crypto sample_ns ''a'' ''b'' Assertion s1 = (Ok (), s2)" by blast
  show ?thesis
    using edge_delete_leaves_inbound [OF H _ _ _ _ put, of "Ok ()" s2] del put
    by (simp add: mem_new_def sample_edge_def inbound_relations_def)
qed

end
