(* ===== verification/Memory_Epoch.thy ===== *)
theory Memory_Epoch
  imports Memory_Store
begin

text \<open>
  Epochs of the in-memory store (\<open>store/memory/mod.rs\<close>): advancing a namespace to its next epoch, the
  pointer to the current epoch and reading an epoch root back. The lemmas show that the epochs of
  each namespace form a chain numbered from one, linked by the kappa of the previous root.
\<close>

section \<open>Definitions\<close>

fun epoch_error_msg :: "EpochError \<Rightarrow> string" where
  "epoch_error_msg (MalformedLeafData m) = ''malformed epoch leaf data: '' @ m"

definition EPOCH_TAG :: string where
  "EPOCH_TAG = ''_epoch/current''"

definition EPOCH_SEQ :: string where
  "EPOCH_SEQ = ''_epoch''"

definition epoch_current ::
  "('x) hashes_scheme \<Rightarrow> NamespaceRef \<Rightarrow> InMemoryStore \<Rightarrow> string option store_op" where
  "epoch_current H ns s =
     (case hget (ms_current_epochs s) (ns_uuid ns) of
        Some k \<Rightarrow> (Ok (Some k), s)
      | None \<Rightarrow>
          (case tag_get H s ns EPOCH_TAG of
             Ok entry \<Rightarrow>
               (Ok (Some (te_kappa entry)),
                s\<lparr>ms_current_epochs := hput (ns_uuid ns) (te_kappa entry) (ms_current_epochs s)\<rparr>)
           | Err (NotFound _) \<Rightarrow> (Ok None, s)
           | Err e \<Rightarrow> (Err e, s)
           | Panic \<Rightarrow> (Panic, s)))"

definition epoch_get :: "('x) externals_scheme \<Rightarrow> string \<Rightarrow> InMemoryStore \<Rightarrow> EpochRoot store_op" where
  "epoch_get H kappa s =
     (case hget (ms_epoch_roots s) kappa of
        Some root \<Rightarrow> (Ok root, s)
      | None \<Rightarrow>
          sbind (blob_get s kappa, s) (\<lambda>blob s.
          sbind (map_err (\<lambda>e. Io (epoch_error_msg e)) (from_leaf_bytes H blob), s) (\<lambda>root s.
          (Ok root, s\<lparr>ms_epoch_roots := hput kappa root (ms_epoch_roots s)\<rparr>))))"

text \<open>Building an epoch root has no error in the code; the panic of the model does not occur either.\<close>

definition epoch_advance ::
  "('x) externals_scheme \<Rightarrow> u64 \<Rightarrow> NamespaceRef \<Rightarrow> EpochMutation list \<Rightarrow> InMemoryStore \<Rightarrow> string store_op" where
  "epoch_advance H now_ms ns mutations s =
     (let s = ensure_namespace H ns s;
          seqs = hentry (tag_key H ns EPOCH_SEQ) 0 (\<lambda>c. c + 1) (ms_sequences s);
          epoch_number = the (hget seqs (tag_key H ns EPOCH_SEQ));
          s = s\<lparr>ms_sequences := seqs\<rparr>
      in
      sbind (epoch_current H ns s) (\<lambda>prev_root_kappa s.
      let sorted_tags = collect_sorted_tags ns s;
          fields = \<lparr>ef_namespace = ns_display H ns, ef_epoch_number = epoch_number,
                    ef_prev_root_kappa = prev_root_kappa, ef_state_root = state_merkle_root H sorted_tags,
                    ef_mutations_root = mutations_merkle_root H mutations, ef_timestamp_ms = now_ms,
                    ef_signer_anchor = []\<rparr>
      in
      sbind (map_err (\<lambda>e. Io (epoch_error_msg e)) (epoch_build H fields), s) (\<lambda>epoch_root s.
      let kappa = epoch_kappa H epoch_root in
      sbind (ingest_compute H Sha256 (to_leaf_bytes epoch_root) s) (\<lambda>_ s.
      let s = s\<lparr>ms_epoch_roots := hput kappa epoch_root (ms_epoch_roots s),
                ms_current_epochs := hput (ns_uuid ns) kappa (ms_current_epochs s)\<rparr>
      in
      sbind (tag_set H ns EPOCH_TAG kappa s) (\<lambda>_ s.
      (Ok kappa, s))))))"

section \<open>The chain of epochs\<close>

text \<open>The number of epochs of a namespace, and the chain that starts at a pointer and has that many epochs.\<close>

definition epoch_count :: "('x) hashes_scheme \<Rightarrow> InMemoryStore \<Rightarrow> NamespaceRef \<Rightarrow> u64" where
  "epoch_count H s ns = sequence_current H s ns EPOCH_SEQ"

fun epoch_chain :: "(string, EpochRoot) hmap \<Rightarrow> string option \<Rightarrow> nat \<Rightarrow> bool" where
  "epoch_chain roots None n \<longleftrightarrow> n = 0"
| "epoch_chain roots (Some k) 0 \<longleftrightarrow> False"
| "epoch_chain roots (Some k) (Suc n) \<longleftrightarrow>
     (case hget roots k of
        None \<Rightarrow> False
      | Some r \<Rightarrow> er_epoch_number r = word_of_nat (Suc n) \<and> epoch_chain roots (er_prev_root_kappa r) n)"

definition epochs_ok :: "('x) hashes_scheme \<Rightarrow> InMemoryStore \<Rightarrow> NamespaceRef \<Rightarrow> bool" where
  "epochs_ok H s ns \<longleftrightarrow>
     epoch_chain (ms_epoch_roots s) (hget (ms_current_epochs s) (ns_uuid ns)) (unat (epoch_count H s ns)) \<and>
     (hget (ms_current_epochs s) (ns_uuid ns) = None \<longrightarrow> hget (ms_tags s) (tag_key H ns EPOCH_TAG) = None)"

lemma epoch_chain_put:
  "epoch_chain roots p n \<Longrightarrow> hget roots k = None \<or> hget roots k = Some r \<Longrightarrow> epoch_chain (hput k r roots) p n"
proof (induction roots p n rule: epoch_chain.induct)
  case (3 roots l n)
  then show ?case by (auto split: option.splits)
qed auto

lemma ensure_namespace_epochs [simp]:
  "ms_epoch_roots (ensure_namespace H ns s) = ms_epoch_roots s"
  "ms_current_epochs (ensure_namespace H ns s) = ms_current_epochs s"
  by (simp_all add: ensure_namespace_def Let_def)

lemma epoch_current_ok:
  assumes "epochs_ok H s ns"
  shows "epoch_current H ns s = (Ok (hget (ms_current_epochs s) (ns_uuid ns)), s)"
  using assms by (auto simp: epoch_current_def epochs_ok_def tag_get_def split: option.splits)

text \<open>The epoch root that advancing builds, and the state after it.\<close>

definition next_fields :: "('x) externals_scheme \<Rightarrow> u64 \<Rightarrow> NamespaceRef \<Rightarrow> EpochMutation list \<Rightarrow> InMemoryStore \<Rightarrow> EpochRootFields" where
  "next_fields H now_ms ns mutations s =
     \<lparr>ef_namespace = ns_display H ns, ef_epoch_number = epoch_count H s ns + 1,
      ef_prev_root_kappa = hget (ms_current_epochs s) (ns_uuid ns),
      ef_state_root = state_merkle_root H (collect_sorted_tags ns s),
      ef_mutations_root = mutations_merkle_root H mutations, ef_timestamp_ms = now_ms, ef_signer_anchor = []\<rparr>"

lemma epoch_advance_eq:
  assumes H: "hashes_ok H" and d: "disk_ok H s" and ok: "epochs_ok H s ns" and r: "epoch_build H (next_fields H now_ms ns mutations s) = Ok r"
  shows "\<exists>s'. epoch_advance H now_ms ns mutations s = (Ok (epoch_kappa H r), s') \<and> disk_ok H s' \<and>
    blobs s' = absorb (epoch_kappa H r) (to_leaf_bytes r) (blobs s) \<and>
    ms_epoch_roots s' = hput (epoch_kappa H r) r (ms_epoch_roots s) \<and>
    ms_current_epochs s' = hput (ns_uuid ns) (epoch_kappa H r) (ms_current_epochs s) \<and>
    ms_sequences s' = hput (tag_key H ns EPOCH_SEQ) (epoch_count H s ns + 1) (ms_sequences s) \<and>
    ms_tags s' = snd (bump_tag (tag_key H ns EPOCH_TAG) EPOCH_TAG (epoch_kappa H r) (ms_tags s))"
proof -
  define s1 where "s1 = (ensure_namespace H ns s)\<lparr>ms_sequences := hput (tag_key H ns EPOCH_SEQ) (epoch_count H s ns + 1) (ms_sequences s)\<rparr>"
  have seqs: "hentry (tag_key H ns EPOCH_SEQ) 0 (\<lambda>c. c + 1) (ms_sequences s) =
      hput (tag_key H ns EPOCH_SEQ) (epoch_count H s ns + 1) (ms_sequences s)"
    by (simp add: hentry_def epoch_count_def sequence_current_def split: option.splits)
  have ok1: "epoch_current H ns s1 = (Ok (hget (ms_current_epochs s) (ns_uuid ns)), s1)"
    using ok by (auto simp: epoch_current_def epochs_ok_def tag_get_def s1_def split: option.splits)
  have d1: "disk_ok H s1" and b1: "blobs s1 = blobs s"
    using d disk_ok_same [of s1 s H] blobs_same [of s1 s] by (simp_all add: s1_def)
  from ingest_compute_eq [OF H d1, of Sha256 "to_leaf_bytes r"] obtain x s2
    where ic: "ingest_compute H Sha256 (to_leaf_bytes r) s1 = (Ok x, s2)" and d2: "disk_ok H s2" "disk_only s1 s2"
      and b2: "blobs s2 = absorb (epoch_kappa H r) (to_leaf_bytes r) (blobs s)"
    using H by (auto simp: b1 epoch_kappa_def kappa_from_bytes_text)
  define s3 where "s3 = s2\<lparr>ms_epoch_roots := hput (epoch_kappa H r) r (ms_epoch_roots s2),
      ms_current_epochs := hput (ns_uuid ns) (epoch_kappa H r) (ms_current_epochs s2)\<rparr>"
  have tags: "collect_sorted_tags ns s1 = collect_sorted_tags ns s" by (simp add: collect_sorted_tags_def s1_def)
  have "epoch_advance H now_ms ns mutations s =
      sbind (tag_set H ns EPOCH_TAG (epoch_kappa H r) s3) (\<lambda>_ s. (Ok (epoch_kappa H r), s))"
    unfolding epoch_advance_def Let_def using ok1 r ic
    by (simp add: seqs s1_def [symmetric] tags next_fields_def s3_def)
  moreover define s4 where "s4 = (ensure_namespace H ns s3)\<lparr>ms_tags :=
      snd (bump_tag (tag_key H ns EPOCH_TAG) EPOCH_TAG (epoch_kappa H r) (ms_tags s3))\<rparr>"
  ultimately have "epoch_advance H now_ms ns mutations s = (Ok (epoch_kappa H r), s4)"
    by (simp add: tag_set_eq Let_def)
  moreover have "disk_ok H s4" "blobs s4 = blobs s2"
    using d2(1) disk_ok_same [of s4 s2 H] blobs_same [of s4 s2] by (simp_all add: s4_def s3_def)
  ultimately show ?thesis
    using b2 disk_only_fields [OF d2(2)] by (simp add: s4_def s3_def s1_def)
qed

definition epoch_fresh :: "('x) externals_scheme \<Rightarrow> u64 \<Rightarrow> NamespaceRef \<Rightarrow> EpochMutation list \<Rightarrow> InMemoryStore \<Rightarrow> bool" where
  "epoch_fresh H now_ms ns mutations s \<longleftrightarrow> epoch_count H s ns \<noteq> - 1 \<and>
     (case epoch_build H (next_fields H now_ms ns mutations s) of
        Ok r \<Rightarrow> (case hget (ms_epoch_roots s) (epoch_kappa H r) of None \<Rightarrow> True | Some r' \<Rightarrow> r' = r)
      | _ \<Rightarrow> False)"

lemma epoch_advance_ok:
  assumes H: "hashes_ok H" and d: "disk_ok H s" and ok: "\<And>ns. epochs_ok H s ns" and f: "epoch_fresh H now_ms ns mutations s"
  shows "\<exists>k s'. epoch_advance H now_ms ns mutations s = (Ok k, s') \<and> disk_ok H s' \<and> epochs_ok H s' ns' \<and>
    hget (ms_current_epochs s') (ns_uuid ns) = Some k \<and> epoch_count H s' ns = epoch_count H s ns + 1 \<and>
    (\<exists>r. hget (ms_epoch_roots s') k = Some r \<and> blobs s' k \<noteq> None \<and> er_prev_root_kappa r = hget (ms_current_epochs s) (ns_uuid ns))"
proof -
  obtain r where r: "epoch_build H (next_fields H now_ms ns mutations s) = Ok r"
    using epoch_build_Ok by blast
  let ?k = "epoch_kappa H r"
  have roots: "hget (ms_epoch_roots s) ?k = None \<or> hget (ms_epoch_roots s) ?k = Some r"
    using f r by (auto simp: epoch_fresh_def split: option.splits)
  have rf: "er_epoch_number r = epoch_count H s ns + 1" "er_prev_root_kappa r = hget (ms_current_epochs s) (ns_uuid ns)"
    using r by (auto simp: epoch_build_def Let_def next_fields_def rbind_eq_Ok)
  from epoch_advance_eq [OF H d ok r] obtain s'
    where adv: "epoch_advance H now_ms ns mutations s = (Ok ?k, s')" "disk_ok H s'"
      and b: "blobs s' = absorb ?k (to_leaf_bytes r) (blobs s)"
      and e: "ms_epoch_roots s' = hput ?k r (ms_epoch_roots s)"
      and c: "ms_current_epochs s' = hput (ns_uuid ns) ?k (ms_current_epochs s)"
      and q: "ms_sequences s' = hput (tag_key H ns EPOCH_SEQ) (epoch_count H s ns + 1) (ms_sequences s)"
      and t: "ms_tags s' = snd (bump_tag (tag_key H ns EPOCH_TAG) EPOCH_TAG ?k (ms_tags s))" by blast
  have count: "epoch_count H s' ns' = (if ns_uuid ns' = ns_uuid ns then epoch_count H s ns + 1 else epoch_count H s ns')" for ns'
    by (simp add: epoch_count_def sequence_current_def q tag_key_def)
  have suc: "unat (epoch_count H s ns + 1) = Suc (unat (epoch_count H s ns))"
    using f unatSuc [of "epoch_count H s ns"] by (simp add: epoch_fresh_def add_eq_0_iff add.commute)
  have "epochs_ok H s' ns'"
  proof (cases "ns_uuid ns' = ns_uuid ns")
    case True
    have "epoch_chain (ms_epoch_roots s') (hget (ms_current_epochs s) (ns_uuid ns)) (unat (epoch_count H s ns))"
      using ok [of ns] roots by (simp add: epochs_ok_def e epoch_chain_put)
    then show ?thesis
      using True rf by (simp add: epochs_ok_def count suc e c)
  next
    case False
    then show ?thesis
      using ok [of ns'] roots by (auto simp: epochs_ok_def count e c t bump_tag_get tag_key_def epoch_chain_put)
  qed
  then show ?thesis
    using adv rf count by (auto simp: e c b absorb_def)
qed

inductive epoch_reachable :: "('x) externals_scheme \<Rightarrow> InMemoryStore \<Rightarrow> bool" for H where
  fresh: "epoch_reachable H (mem_new root timeout [])"
| advance: "epoch_reachable H s \<Longrightarrow> epoch_fresh H now_ms ns mutations s \<Longrightarrow>
    epoch_advance H now_ms ns mutations s = (r, s') \<Longrightarrow> epoch_reachable H s'"
| other: "epoch_reachable H s \<Longrightarrow> disk_ok H s' \<Longrightarrow> ms_epoch_roots s' = ms_epoch_roots s \<Longrightarrow>
    ms_current_epochs s' = ms_current_epochs s \<Longrightarrow> (\<And>ns. epoch_count H s' ns = epoch_count H s ns) \<Longrightarrow>
    (\<And>ns. hget (ms_tags s') (tag_key H ns EPOCH_TAG) = hget (ms_tags s) (tag_key H ns EPOCH_TAG)) \<Longrightarrow>
    epoch_reachable H s'"

lemma epoch_reachable_ok:
  assumes "hashes_ok H"
  shows "epoch_reachable H s \<Longrightarrow> disk_ok H s \<and> (\<forall>ns. epochs_ok H s ns)"
proof (induction rule: epoch_reachable.induct)
  case (fresh root timeout)
  then show ?case
    by (simp add: epochs_ok_def mem_new_def epoch_count_def sequence_current_def)
next
  case (advance s now_ms ns mutations r s')
  then have ok: "disk_ok H s" "\<And>ns. epochs_ok H s ns" by auto
  show ?case
    using epoch_advance_ok [OF assms ok advance.hyps(2)] advance.hyps(3) by auto
next
  case (other s s')
  then show ?case by (auto simp: epochs_ok_def)
qed

lemma epoch_chain_list:
  "epoch_chain roots p n \<Longrightarrow> \<exists>ks. length ks = n \<and> p = (if ks = [] then None else Some (hd ks)) \<and>
     (\<forall>i < n. \<exists>r. hget roots (ks ! i) = Some r \<and> er_epoch_number r = word_of_nat (n - i) \<and>
        er_prev_root_kappa r = (if Suc i < n then Some (ks ! Suc i) else None))"
proof (induction roots p n rule: epoch_chain.induct)
  case (3 roots k n)
  then obtain r where r: "hget roots k = Some r" "er_epoch_number r = word_of_nat (Suc n)"
      "epoch_chain roots (er_prev_root_kappa r) n" by (auto split: option.splits)
  from "3.IH" [OF r(1,3)] obtain ks where ks: "length ks = n" "er_prev_root_kappa r = (if ks = [] then None else Some (hd ks))"
      "\<forall>i < n. \<exists>r. hget roots (ks ! i) = Some r \<and> er_epoch_number r = word_of_nat (n - i) \<and>
        er_prev_root_kappa r = (if Suc i < n then Some (ks ! Suc i) else None)" by blast
  have "\<forall>i < Suc n. \<exists>r. hget roots ((k # ks) ! i) = Some r \<and> er_epoch_number r = word_of_nat (Suc n - i) \<and>
        er_prev_root_kappa r = (if Suc i < Suc n then Some ((k # ks) ! Suc i) else None)"
    using r ks by (auto simp: less_Suc_eq_0_disj hd_conv_nth)
  then show ?case using ks(1) by (intro exI [of _ "k # ks"]) simp
qed auto



end
