(* ===== verification/Gc.thy ===== *)
theory Gc
  imports Memory_Namespace Memory_Edge Memory_Epoch
begin

text \<open>
  Garbage collection: the reachability walk, the root set and the sweep of \<open>kappa-core/src/gc.rs\<close>, and
  the sweep and the cascade that the HTTP interface of a namespace offers
  (\<open>kappa-module-distribution/src/gc.rs\<close>, \<open>cascade.rs\<close>). They take a store through its interface, here
  a record of the operations they call; \<open>mem_store\<close> is the record of the in-memory store.
\<close>

section \<open>The store interface\<close>

record 's KappaStore =
  ks_namespace_list :: "string option \<Rightarrow> 's \<Rightarrow> (NamespaceRecord list, StoreError) result"
  ks_tag_list :: "NamespaceRef \<Rightarrow> 's \<Rightarrow> (TagEntry list, StoreError) result"
  ks_tag_prefix :: "NamespaceRef \<Rightarrow> string \<Rightarrow> 's \<Rightarrow> (TagEntry list, StoreError) result"
  ks_tag_get :: "NamespaceRef \<Rightarrow> string \<Rightarrow> 's \<Rightarrow> (TagEntry, StoreError) result"
  ks_tag_delete :: "NamespaceRef \<Rightarrow> string \<Rightarrow> 's \<Rightarrow> (unit, StoreError, 's) stateful"
  ks_tag_set :: "NamespaceRef \<Rightarrow> string \<Rightarrow> string \<Rightarrow> 's \<Rightarrow> (u64, StoreError, 's) stateful"
  ks_epoch_current :: "NamespaceRef \<Rightarrow> 's \<Rightarrow> (string option, StoreError, 's) stateful"
  ks_epoch_get :: "string \<Rightarrow> 's \<Rightarrow> (EpochRoot, StoreError, 's) stateful"
  ks_edge_query :: "NamespaceRef \<Rightarrow> EdgeQuery \<Rightarrow> 's \<Rightarrow> (Edge list, StoreError) result"
  ks_blob_get :: "string \<Rightarrow> 's \<Rightarrow> (bytes, StoreError) result"
  ks_blob_list :: "'s \<Rightarrow> (string list, StoreError) result"
  ks_blob_size :: "string \<Rightarrow> 's \<Rightarrow> (u64, StoreError) result"
  ks_blob_delete :: "string \<Rightarrow> 's \<Rightarrow> (unit, StoreError, 's) stateful"
  ks_blob_put_meta :: "string \<Rightarrow> string \<Rightarrow> bytes \<Rightarrow> 's \<Rightarrow> (unit, StoreError, 's) stateful"
  ks_meta_set :: "NamespaceRef \<Rightarrow> string \<Rightarrow> string \<Rightarrow> string \<Rightarrow> 's \<Rightarrow> (unit, StoreError, 's) stateful"
  ks_put_computed :: "bytes \<Rightarrow> 's \<Rightarrow> (string, StoreError, 's) stateful"

definition mem_store :: "('x) externals_scheme \<Rightarrow> InMemoryStore KappaStore" where
  "mem_store H =
     \<lparr>ks_namespace_list = (\<lambda>protocol s. Ok (namespace_list s protocol)),
      ks_tag_list = (\<lambda>ns s. Ok (tag_list s ns)),
      ks_tag_prefix = (\<lambda>ns prefix s. Ok (tag_prefix s ns prefix)),
      ks_tag_get = (\<lambda>ns name s. tag_get H s ns name),
      ks_tag_delete = tag_delete H,
      ks_tag_set = tag_set H,
      ks_epoch_current = epoch_current H,
      ks_epoch_get = epoch_get H,
      ks_edge_query = (\<lambda>ns q s. Ok (edge_query H s ns q)),
      ks_blob_get = (\<lambda>k s. blob_get s k),
      ks_blob_list = (\<lambda>s. Ok (blob_list s)),
      ks_blob_size = (\<lambda>k s. blob_size s k),
      ks_blob_delete = blob_delete,
      ks_blob_put_meta = blob_put_meta H,
      ks_meta_set = meta_set H,
      ks_put_computed = blob_put_computed H\<rparr>"

section \<open>Reachability\<close>

text \<open>
  The breadth-first walk: a queue and the set of visited labels, here in the order of their insertion.
  It need not end when the callback names ever new labels.
\<close>

partial_function (option) reach_loop :: "(string \<Rightarrow> string list) \<Rightarrow> string list \<Rightarrow> string list \<Rightarrow> string list option" where
  "reach_loop resolve_edges queue reachable =
     (case queue of
        [] \<Rightarrow> Some reachable
      | kappa # rest \<Rightarrow>
          if kappa \<in> set reachable then reach_loop resolve_edges rest reachable
          else reach_loop resolve_edges
                 (rest @ filter (\<lambda>target. target \<notin> set (reachable @ [kappa])) (resolve_edges kappa))
                 (reachable @ [kappa]))"

definition compute_reachable :: "string list \<Rightarrow> (string \<Rightarrow> string list) \<Rightarrow> string list option" where
  "compute_reachable root_kappas resolve_edges = reach_loop resolve_edges root_kappas []"

section \<open>Root set\<close>

text \<open>The walk along the chain of epochs; an epoch that cannot be read ends it.\<close>

partial_function (option) epoch_walk ::
  "'s KappaStore \<Rightarrow> string option \<Rightarrow> 's \<Rightarrow> (string list, StoreError, 's) stateful option" where
  "epoch_walk store epoch s =
     (case epoch of
        None \<Rightarrow> Some (Ok [], s)
      | Some ek \<Rightarrow>
          (case ks_epoch_get store ek s of
             (Ok root, s) \<Rightarrow>
               Option.bind (epoch_walk store (er_prev_root_kappa root) s) (\<lambda>(r, s).
               Some (rbind r (\<lambda>ks. Ok (ek # ks)), s))
           | (Err _, s) \<Rightarrow> Some (Ok [ek], s)
           | (Panic, s) \<Rightarrow> Some (Panic, s)))"

definition root_ns :: "('x) hashes_scheme \<Rightarrow> NamespaceRecord \<Rightarrow> NamespaceRef option" where
  "root_ns H record =
     (let u = (case hex_decode H (nr_uuid_hex record) of Some bs \<Rightarrow> bs | None \<Rightarrow> [])
      in if length u \<noteq> 16 then None
         else Some (ns_with_name u (case nr_aliases record of [] \<Rightarrow> [] | a # _ \<Rightarrow> a)))"

fun ns_roots ::
  "('x) hashes_scheme \<Rightarrow> 's KappaStore \<Rightarrow> NamespaceRecord list \<Rightarrow> 's \<Rightarrow> (string list, StoreError, 's) stateful option" where
  "ns_roots H store [] s = Some (Ok [], s)"
| "ns_roots H store (record # records) s =
     (case root_ns H record of
        None \<Rightarrow> ns_roots H store records s
      | Some ns_ref \<Rightarrow>
          (case ks_tag_list store ns_ref s of
             Err e \<Rightarrow> Some (Err e, s)
           | Panic \<Rightarrow> Some (Panic, s)
           | Ok tags \<Rightarrow>
               (case ks_epoch_current store ns_ref s of
                  (Err e, s) \<Rightarrow> Some (Err e, s)
                | (Panic, s) \<Rightarrow> Some (Panic, s)
                | (Ok epoch, s) \<Rightarrow>
                    Option.bind (epoch_walk store epoch s) (\<lambda>(r, s).
                    case r of
                      Err e \<Rightarrow> Some (Err e, s)
                    | Panic \<Rightarrow> Some (Panic, s)
                    | Ok chain \<Rightarrow>
                        Option.bind (ns_roots H store records s) (\<lambda>(r, s).
                        Some (rbind r (\<lambda>rest. Ok (map te_kappa tags @ chain @ rest)), s))))))"

definition build_root_set ::
  "('x) hashes_scheme \<Rightarrow> 's KappaStore \<Rightarrow> 's \<Rightarrow> (string list, StoreError, 's) stateful option" where
  "build_root_set H store s =
     (case ks_namespace_list store None s of
        Err e \<Rightarrow> Some (Err e, s)
      | Panic \<Rightarrow> Some (Panic, s)
      | Ok namespaces \<Rightarrow>
          Option.bind (ns_roots H store namespaces s) (\<lambda>(r, s).
          Some (rbind r (\<lambda>roots. Ok (remdups_adj (sort roots))), s)))"

section \<open>Sweep\<close>

record GcResult =
  gc_objects_scanned :: u64
  gc_objects_reachable :: u64
  gc_objects_collected :: u64
  gc_bytes_freed :: u64

fun sweep_loop ::
  "'s KappaStore \<Rightarrow> string list \<Rightarrow> string list \<Rightarrow> u64 \<Rightarrow> u64 \<Rightarrow> 's \<Rightarrow> (u64 \<times> u64, StoreError, 's) stateful" where
  "sweep_loop store reachable [] collected bytes_freed s = (Ok (collected, bytes_freed), s)"
| "sweep_loop store reachable (kappa # kappas) collected bytes_freed s =
     (if kappa \<in> set reachable then sweep_loop store reachable kappas collected bytes_freed s
      else
        (case ks_blob_size store kappa s of
           Panic \<Rightarrow> (Panic, s)
         | r \<Rightarrow>
             sbind (ks_blob_delete store kappa s) (\<lambda>_ s.
             sweep_loop store reachable kappas (collected + 1)
               (case r of Ok n \<Rightarrow> bytes_freed + n | _ \<Rightarrow> bytes_freed) s)))"

definition sweep ::
  "('x) hashes_scheme \<Rightarrow> 's KappaStore \<Rightarrow> (string \<Rightarrow> string list) \<Rightarrow> 's \<Rightarrow> (GcResult, StoreError, 's) stateful option" where
  "sweep H store resolve_edges s =
     Option.bind (build_root_set H store s) (\<lambda>(r, s).
     case r of
       Err e \<Rightarrow> Some (Err e, s)
     | Panic \<Rightarrow> Some (Panic, s)
     | Ok roots \<Rightarrow>
         Option.bind (compute_reachable roots resolve_edges) (\<lambda>reachable.
         Some (sbind (ks_blob_list store s, s) (\<lambda>all_blobs s.
               sbind (sweep_loop store reachable all_blobs 0 0 s) (\<lambda>(collected, bytes_freed) s.
               (Ok \<lparr>gc_objects_scanned = word_of_nat (length all_blobs),
                    gc_objects_reachable = word_of_nat (length reachable),
                    gc_objects_collected = collected, gc_bytes_freed = bytes_freed\<rparr>, s))))))"

section \<open>The walk computes the closure\<close>

text \<open>The labels reachable from the roots along the callback.\<close>

definition closure :: "(string \<Rightarrow> string list) \<Rightarrow> string set \<Rightarrow> string set" where
  "closure f R = {(x, y). y \<in> set (f x)}\<^sup>* `` R"

lemma closure_root: "R \<subseteq> closure f R"
  by (auto simp: closure_def)

lemma closure_step: "x \<in> closure f R \<Longrightarrow> y \<in> set (f x) \<Longrightarrow> y \<in> closure f R"
  by (auto simp: closure_def intro: rtrancl_into_rtrancl)

lemma closure_least:
  assumes "R \<subseteq> C" and "\<And>x y. x \<in> C \<Longrightarrow> y \<in> set (f x) \<Longrightarrow> y \<in> C"
  shows "closure f R \<subseteq> C"
proof
  fix y
  assume "y \<in> closure f R"
  then obtain x where x: "x \<in> R" "(x, y) \<in> {(x, y). y \<in> set (f x)}\<^sup>*" by (auto simp: closure_def)
  from x(2,1) assms show "y \<in> C" by (induction rule: rtrancl_induct) auto
qed

lemma reach_loop_closure:
  assumes "finite C" and "set queue \<union> set seen \<subseteq> C" and "distinct seen"
    and "\<And>x y. x \<in> C \<Longrightarrow> y \<in> set (f x) \<Longrightarrow> y \<in> C"
    and "\<And>x y. x \<in> set seen \<Longrightarrow> y \<in> set (f x) \<Longrightarrow> y \<in> set seen \<union> set queue"
  shows "\<exists>R. reach_loop f queue seen = Some R \<and> distinct R \<and> set seen \<union> set queue \<subseteq> set R \<and> set R \<subseteq> C \<and>
    (\<forall>x \<in> set R. set (f x) \<subseteq> set R)"
  using assms(2,3,5)
proof (induction "(card (C - set seen), length queue)" arbitrary: queue seen
    rule: wf_induct_rule [OF wf_lex_prod [OF wf_less_than wf_less_than]])
  case (1 queue seen)
  show ?case
  proof (cases queue)
    case Nil
    then show ?thesis using 1 by (subst reach_loop.simps) auto
  next
    case (Cons k q)
    show ?thesis
    proof (cases "k \<in> set seen")
      case True
      have "\<exists>R. reach_loop f q seen = Some R \<and> distinct R \<and> set seen \<union> set q \<subseteq> set R \<and> set R \<subseteq> C \<and>
          (\<forall>x \<in> set R. set (f x) \<subseteq> set R)"
      proof (rule 1(1))
        show "((card (C - set seen), length q), (card (C - set seen), length queue)) \<in> less_than <*lex*> less_than"
          using Cons by simp
        show "set q \<union> set seen \<subseteq> C" using 1(2) Cons by auto
        show "distinct seen" by (rule 1(3))
        show "y \<in> set seen \<union> set q" if "x \<in> set seen" "y \<in> set (f x)" for x y
          using 1(4) [OF that] Cons True by auto
      qed
      then show ?thesis using Cons True by (subst reach_loop.simps) auto
    next
      case False
      let ?q = "q @ filter (\<lambda>t. t \<notin> set (seen @ [k])) (f k)" and ?s = "seen @ [k]"
      have "k \<in> C" using 1(2) Cons by simp
      then have less: "card (C - set ?s) < card (C - set seen)"
        using assms(1) False by (intro psubset_card_mono) auto
      have "\<exists>R. reach_loop f ?q ?s = Some R \<and> distinct R \<and> set ?s \<union> set ?q \<subseteq> set R \<and> set R \<subseteq> C \<and>
          (\<forall>x \<in> set R. set (f x) \<subseteq> set R)"
      proof (rule 1(1))
        show "((card (C - set ?s), length ?q), (card (C - set seen), length queue)) \<in> less_than <*lex*> less_than"
          using less by simp
        show "set ?q \<union> set ?s \<subseteq> C" using 1(2) Cons assms(4) \<open>k \<in> C\<close> by auto
        show "distinct ?s" using 1(3) False by simp
        show "\<And>x y. x \<in> set ?s \<Longrightarrow> y \<in> set (f x) \<Longrightarrow> y \<in> set ?s \<union> set ?q" using 1(4) Cons by auto
      qed
      then show ?thesis using Cons False by (subst reach_loop.simps) auto
    qed
  qed
qed

lemma compute_reachable_closure:
  assumes "finite (closure f (set roots))"
  shows "\<exists>R. compute_reachable roots f = Some R \<and> distinct R \<and> set R = closure f (set roots)"
proof -
  from reach_loop_closure [OF assms, of roots "[]" f] closure_root [of "set roots" f] closure_step [of _ f "set roots"]
  obtain R where R: "compute_reachable roots f = Some R" "distinct R" "set roots \<subseteq> set R"
      "set R \<subseteq> closure f (set roots)" "\<forall>x \<in> set R. set (f x) \<subseteq> set R"
    by (auto simp: compute_reachable_def)
  moreover have "closure f (set roots) \<subseteq> set R" using R(3,5) by (intro closure_least) auto
  ultimately show ?thesis by auto
qed

section \<open>Sweeping\<close>

definition blob_bytes :: "(string \<Rightarrow> bytes option) \<Rightarrow> string \<Rightarrow> u64" where
  "blob_bytes m k = (case m k of Some c \<Rightarrow> word_of_nat (length c) | None \<Rightarrow> 0)"

text \<open>What the sweep does to any store that keeps the blob contract.\<close>

context blob_store
begin

lemma sweep_loop_contents:
  assumes ops: "ks_blob_delete store = del" "\<And>k s. ks_blob_size store k s = size_of s k"
    and "inv s" and "\<And>k. k \<in> set ks \<Longrightarrow> label k" and "distinct ks"
  shows "\<exists>s'. sweep_loop store R ks c b s =
      (Ok (c + word_of_nat (length (filter (\<lambda>k. k \<notin> set R) ks)),
           b + sum_list (map (blob_bytes (contents s)) (filter (\<lambda>k. k \<notin> set R) ks))), s') \<and> inv s' \<and>
    contents s' = (\<lambda>k. if k \<in> set ks - set R then None else contents s k)"
  using assms(3-5)
proof (induction ks arbitrary: c b s)
  case (Cons k ks)
  show ?case
  proof (cases "k \<in> set R")
    case True
    then show ?thesis using Cons.IH [OF Cons.prems(1), of c b] Cons.prems by (auto simp: fun_eq_iff)
  next
    case False
    have k: "label k" using Cons.prems(2) by simp
    from del_law [OF Cons.prems(1) k] obtain s1
      where s1: "del k s = (Ok (), s1)" "inv s1" "contents s1 = (contents s)(k := None)" by blast
    have bytes: "map (blob_bytes (contents s1)) (filter (\<lambda>k. k \<notin> set R) ks) =
        map (blob_bytes (contents s)) (filter (\<lambda>k. k \<notin> set R) ks)"
      using Cons.prems(3) by (auto simp: s1(3) blob_bytes_def)
    have "sweep_loop store R (k # ks) c b s = sweep_loop store R ks (c + 1) (b + blob_bytes (contents s) k) s1"
      using False s1(1) size_law [OF Cons.prems(1) k] by (cases "contents s k") (simp_all add: ops blob_bytes_def)
    moreover from Cons.IH [OF s1(2), of "c + 1" "b + blob_bytes (contents s) k"] Cons.prems(2,3) obtain s'
      where "sweep_loop store R ks (c + 1) (b + blob_bytes (contents s) k) s1 =
          (Ok (c + 1 + word_of_nat (length (filter (\<lambda>k. k \<notin> set R) ks)),
            b + blob_bytes (contents s) k + sum_list (map (blob_bytes (contents s1)) (filter (\<lambda>k. k \<notin> set R) ks))), s')"
        "inv s'" "contents s' = (\<lambda>k. if k \<in> set ks - set R then None else contents s1 k)" by auto
    moreover have "contents s1 k' = (if k' = k then None else contents s k')" for k' by (simp add: s1(3))
    ultimately show ?thesis using False unfolding bytes by (auto simp: fun_eq_iff add.assoc)
  qed
qed (auto simp: fun_eq_iff)

end

lemma sweep_loop_disk_only:
  assumes "hashes_ok H"
  shows "disk_ok H s \<Longrightarrow> \<forall>k \<in> set ks. valid_label k \<Longrightarrow> disk_only s (snd (sweep_loop (mem_store X) R ks c b s))"
proof (induction ks arbitrary: c b s)
  case (Cons k ks)
  show ?case
  proof (cases "k \<in> set R")
    case False
    from Cons.prems(2) have k: "valid_label k" by simp
    from blob_delete_eq [OF assms Cons.prems(1) k] obtain s1
      where s1: "blob_delete k s = (Ok (), s1)" "disk_ok H s1" "disk_only s s1" by blast
    have "blob_size s k \<noteq> Panic" using k by (cases "blobs s k") (simp_all add: blob_size_eq)
    then have "\<exists>b'. sweep_loop (mem_store X) R (k # ks) c b s = sweep_loop (mem_store X) R ks (c + 1) b' s1"
      using False s1(1) by (auto simp: mem_store_def split: result.splits)
    then show ?thesis using Cons.IH [OF s1(2)] Cons.prems(2) disk_only_trans [OF s1(3)] by auto
  qed (use Cons in simp)
qed simp

text \<open>The roots of the in-memory store: what is tagged in a registered namespace, and its epochs.\<close>

fun epoch_kappas :: "(string, EpochRoot) hmap \<Rightarrow> string option \<Rightarrow> nat \<Rightarrow> string list" where
  "epoch_kappas roots (Some k) (Suc n) =
     k # (case hget roots k of None \<Rightarrow> [] | Some r \<Rightarrow> epoch_kappas roots (er_prev_root_kappa r) n)"
| "epoch_kappas roots _ _ = []"

definition namespace_roots :: "('x) hashes_scheme \<Rightarrow> InMemoryStore \<Rightarrow> NamespaceRef \<Rightarrow> string list" where
  "namespace_roots H s ns =
     map te_kappa (tag_list s ns) @
     epoch_kappas (ms_epoch_roots s) (hget (ms_current_epochs s) (ns_uuid ns)) (unat (epoch_count H s ns))"

definition gc_roots :: "('x) hashes_scheme \<Rightarrow> InMemoryStore \<Rightarrow> string set" where
  "gc_roots H s =
     (\<Union>r \<in> set (hvals (ms_ns_records s)). set (case root_ns H r of None \<Rightarrow> [] | Some ns \<Rightarrow> namespace_roots H s ns))"

lemma epoch_walk_chain:
  "epoch_chain (ms_epoch_roots s) p n \<Longrightarrow>
   epoch_walk (mem_store H) p s = Some (Ok (epoch_kappas (ms_epoch_roots s) p n), s)"
proof (induction "ms_epoch_roots s" p n rule: epoch_chain.induct)
  case (3 k n)
  then obtain r where r: "hget (ms_epoch_roots s) k = Some r" "epoch_chain (ms_epoch_roots s) (er_prev_root_kappa r) n"
    by (auto split: option.splits)
  with 3(1) have "epoch_walk (mem_store H) (er_prev_root_kappa r) s =
      Some (Ok (epoch_kappas (ms_epoch_roots s) (er_prev_root_kappa r) n), s)" by blast
  then show ?case
    using r by (subst epoch_walk.simps) (simp add: mem_store_def epoch_get_def)
qed (subst epoch_walk.simps, simp)+

lemma ns_roots_mem:
  assumes "\<And>ns. epochs_ok H s ns"
  shows "ns_roots H (mem_store H) rs s = Some (Ok (concat (map (\<lambda>r. case root_ns H r of
      None \<Rightarrow> [] | Some ns \<Rightarrow> namespace_roots H s ns) rs)), s)"
proof (induction rs)
  case (Cons r rs)
  show ?case
  proof (cases "root_ns H r")
    case (Some ns)
    have walk: "epoch_walk (mem_store H) (hget (ms_current_epochs s) (ns_uuid ns)) s =
        Some (Ok (epoch_kappas (ms_epoch_roots s) (hget (ms_current_epochs s) (ns_uuid ns)) (unat (epoch_count H s ns))), s)"
      using assms [of ns] by (intro epoch_walk_chain) (simp add: epochs_ok_def)
    have ops: "ks_tag_list (mem_store H) ns s = Ok (tag_list s ns)"
        "ks_epoch_current (mem_store H) ns s = (Ok (hget (ms_current_epochs s) (ns_uuid ns)), s)"
      using epoch_current_ok [OF assms, of ns] by (simp_all add: mem_store_def)
    then show ?thesis
      using Some Cons walk by (simp add: namespace_roots_def)
  qed (use Cons in simp)
qed simp

lemma build_root_set_mem:
  assumes "\<And>ns. epochs_ok H s ns"
  shows "\<exists>roots. build_root_set H (mem_store H) s = Some (Ok roots, s) \<and> set roots = gc_roots H s"
proof -
  have list: "ks_namespace_list (mem_store H) None s = Ok (namespace_list s None)" by (simp add: mem_store_def)
  have "set (namespace_list s None) = set (hvals (ms_ns_records s))" by (simp add: namespace_list_def)
  then have "set (concat (map (\<lambda>r. case root_ns H r of None \<Rightarrow> [] | Some ns \<Rightarrow> namespace_roots H s ns)
      (namespace_list s None))) = gc_roots H s"
    by (simp add: gc_roots_def)
  then show ?thesis
    by (simp add: build_root_set_def list ns_roots_mem [OF assms])
qed

text \<open>
  The namespaces with tags or epochs are registered: their record carries the hex form of their
  16-byte identifier.
\<close>

definition registered :: "('x) hashes_scheme \<Rightarrow> InMemoryStore \<Rightarrow> bool" where
  "registered H s \<longleftrightarrow>
     (\<forall>u r. hget (ms_ns_records s) u = Some r \<longrightarrow> nr_uuid_hex r = hex_encode H u \<and> length u = 16) \<and>
     (\<forall>u. hget (ms_ns_records s) u = None \<longrightarrow>
        hget (ms_current_epochs s) u = None \<and> (\<forall>h. hget (ms_tags s) (u, h) = None))"

lemma registered_new: "registered H (mem_new root timeout d)"
  by (simp add: registered_def mem_new_def)

lemma ensure_namespace_records:
  "hget (ms_ns_records (ensure_namespace H ns s)) u =
     (case hget (ms_ns_records s) u of
        Some r \<Rightarrow> Some r
      | None \<Rightarrow> if u = ns_uuid ns then Some \<lparr>nr_uuid_hex = ns_uuid_hex H ns, nr_owner = [], nr_created_at_ms = 0,
          nr_protocol = None, nr_aliases = (if ns_as_str ns = [] then [] else [ns_as_str ns]), nr_tombstoned = False\<rparr> else None)"
  by (auto simp: ensure_namespace_def Let_def split: option.splits)

lemma registered_tag_set:
  assumes "registered H s" and "length (ns_uuid ns) = 16"
  shows "registered H (snd (tag_set H ns name kappa s))"
  using assms
  by (auto simp: registered_def tag_set_eq Let_def ensure_namespace_records bump_tag_get tag_key_def ns_uuid_hex_def
      split: option.splits if_splits)

lemma registered_roots:
  assumes "hashes_ok H" and "registered H s" and "\<And>ns. epochs_ok H s ns"
  shows "set (namespace_roots H s ns) \<subseteq> gc_roots H s"
proof (cases "hget (ms_ns_records s) (ns_uuid ns)")
  case None
  then have none: "hget (ms_current_epochs s) (ns_uuid ns) = None" "\<And>h. hget (ms_tags s) (ns_uuid ns, h) = None"
    using assms(2) by (auto simp: registered_def)
  have "tag_list s ns = []"
  proof -
    have "u \<noteq> ns_uuid ns" if "((u, h), e) \<in> set (ms_tags s)" for u h e
      using none(2) [of h] that by (force simp: hget_def map_of_eq_None_iff)
    then have "filter (\<lambda>((u, _), _). u = ns_uuid ns) (ms_tags s) = []" by (auto simp: filter_empty_conv)
    then show ?thesis by (simp add: tag_list_def collect_sorted_tags_def)
  qed
  then show ?thesis using none(1) by (simp add: namespace_roots_def)
next
  case (Some r)
  then have r: "nr_uuid_hex r = hex_encode H (ns_uuid ns)" "length (ns_uuid ns) = 16" using assms(2) by (auto simp: registered_def)
  let ?ns = "ns_with_name (ns_uuid ns) (case nr_aliases r of [] \<Rightarrow> [] | a # _ \<Rightarrow> a)"
  have "root_ns H r = Some ?ns" using r assms(1) by (simp add: root_ns_def)
  moreover have "namespace_roots H s ?ns = namespace_roots H s ns"
    by (simp add: namespace_roots_def tag_list_def collect_sorted_tags_def epoch_count_def sequence_current_def tag_key_def
        ns_with_name_def)
  moreover have "r \<in> set (hvals (ms_ns_records s))"
    using Some by (force simp: hvals_def hget_def dest: map_of_SomeD)
  ultimately show ?thesis unfolding gc_roots_def by (intro SUP_upper2 [of r]) simp_all
qed

text \<open>
  C3. A sweep ends when finitely many labels are reachable. It deletes exactly the blobs that no root
  reaches and changes nothing else; the roots are what any tag of any namespace names and the whole epoch chain
  of every namespace, so what a tag or an epoch names survives. The result counts the deleted blobs.
\<close>

theorem sweep_exact:
  assumes "hashes_ok H" and "epoch_reachable H s" and "finite (closure f (gc_roots H s))"
  shows "\<exists>res s'. sweep H (mem_store H) f s = Some (Ok res, s') \<and> disk_only s s' \<and>
      (\<forall>k. blobs s' k = (if k \<in> closure f (gc_roots H s) then blobs s k else None)) \<and>
      gc_objects_collected res = word_of_nat (card {k. blobs s k \<noteq> None \<and> k \<notin> closure f (gc_roots H s)}) \<and>
      (registered H s \<longrightarrow> (\<forall>ns name e. tag_get H s ns name = Ok e \<longrightarrow> te_kappa e \<in> closure f (gc_roots H s)) \<and>
         (\<forall>ns k. epoch_current H ns s = (Ok (Some k), s) \<longrightarrow> k \<in> closure f (gc_roots H s)))"
proof -
  have d: "disk_ok H s" and ok: "\<And>ns. epochs_ok H s ns" using epoch_reachable_ok [OF assms(1,2)] by auto
  from build_root_set_mem [OF ok] obtain roots
    where roots: "build_root_set H (mem_store H) s = Some (Ok roots, s)" "set roots = gc_roots H s" by blast
  from compute_reachable_closure [of f roots] assms(3) roots(2) obtain R
    where R: "compute_reachable roots f = Some R" "set R = closure f (gc_roots H s)" by auto
  have inv: "blob_inv H s" using assms(1) d by (simp add: blob_inv_def)
  note all = mem.all_law [OF inv] mem.all_label [OF inv]
  from mem.sweep_loop_contents [OF _ _ inv all(2), of "mem_store H" "blob_list s" R 0 0] all(1) obtain c b s'
    where loop: "sweep_loop (mem_store H) R (blob_list s) 0 0 s = (Ok (c, b), s')"
      and c: "c = word_of_nat (length (filter (\<lambda>k. k \<notin> set R) (blob_list s)))"
      and blobs: "blobs s' = (\<lambda>k. if k \<in> set (blob_list s) - set R then None else blobs s k)"
    by (auto simp: mem_store_def)
  have only: "disk_only s s'"
    using sweep_loop_disk_only [OF assms(1) d, of "blob_list s" H R 0 0] all(2) loop by simp
  have "length (filter (\<lambda>k. k \<notin> set R) (blob_list s)) = card {k. blobs s k \<noteq> None \<and> k \<notin> closure f (gc_roots H s)}"
    using all(1) R(2) distinct_card [of "filter (\<lambda>k. k \<notin> set R) (blob_list s)"] by simp
  moreover have "sweep H (mem_store H) f s =
      Some (Ok \<lparr>gc_objects_scanned = word_of_nat (length (blob_list s)), gc_objects_reachable = word_of_nat (length R),
                gc_objects_collected = c, gc_bytes_freed = b\<rparr>, s')"
    using loop by (simp add: sweep_def roots(1) R(1)) (simp add: mem_store_def)
  moreover have "blobs s' k = (if k \<in> closure f (gc_roots H s) then blobs s k else None)" for k
    using all(1) R(2) by (auto simp: blobs)
  moreover have "set (namespace_roots H s ns) \<subseteq> closure f (gc_roots H s)" if "registered H s" for ns
    using registered_roots [OF assms(1) that ok] closure_root [of "gc_roots H s" f] by blast
  moreover have "te_kappa e \<in> set (namespace_roots H s ns)" if "tag_get H s ns name = Ok e" for ns name e
    using that map_of_SomeD [of "ms_tags s" "tag_key H ns name" e]
    by (force simp: tag_get_def namespace_roots_def tag_list_def collect_sorted_tags_def tag_key_def hget_def ok_or_eq_Ok)
  moreover have "k \<in> set (namespace_roots H s ns)" if "epoch_current H ns s = (Ok (Some k), s)" for ns k
  proof -
    have cur: "hget (ms_current_epochs s) (ns_uuid ns) = Some k" using that epoch_current_ok [OF ok, of ns] by simp
    then obtain m where "unat (epoch_count H s ns) = Suc m"
      using ok [of ns] by (cases "unat (epoch_count H s ns)") (auto simp: epochs_ok_def)
    then show ?thesis using cur by (simp add: namespace_roots_def)
  qed
  ultimately show ?thesis using only by (simp add: c) blast
qed

theorem sweep_exact_witness:
  "\<exists>s res s'. blobs s (kappa_text sample_crypto Sha256 [1]) = Some [1] \<and>
     sweep sample_crypto (mem_store sample_crypto) (\<lambda>_. []) s = Some (Ok res, s') \<and>
     gc_objects_collected res = 1 \<and> blobs s' (kappa_text sample_crypto Sha256 [1]) = None"
proof -
  have H: "hashes_ok sample_crypto" using sample_crypto_ok by (simp add: externals_ok_def)
  let ?s = "mem_new [''blobs''] None []" and ?k = "kappa_text sample_crypto Sha256 [1]"
  have d: "disk_ok sample_crypto ?s" by (simp add: mem_new_def)
  from ingest_compute_eq [OF H d, of Sha256 "[1]"] obtain s
    where s: "disk_ok sample_crypto s" "disk_only ?s s" "blobs s = absorb ?k [1] (blobs ?s)" by auto
  have f: "epoch_reachable sample_crypto s"
    by (rule epoch_reachable.other [OF epoch_reachable.fresh [of sample_crypto "[''blobs'']" None] s(1)])
      (simp_all add: disk_only_fields [OF s(2)] epoch_count_def sequence_current_def)
  have b: "blobs s = [?k \<mapsto> [1]]" unfolding s(3) by (simp add: absorb_def blobs_def mem_new_def fun_eq_iff)
  have roots: "gc_roots sample_crypto s = {}"
    by (simp add: gc_roots_def disk_only_fields [OF s(2)]) (simp add: mem_new_def hvals_def)
  have none: "closure (\<lambda>_. []) {} = {}" by (simp add: closure_def)
  have "{k. blobs s k \<noteq> None} = {?k}" by (auto simp: b)
  then show ?thesis
    using sweep_exact [OF H f, of "\<lambda>_. []"] b unfolding roots none by (intro exI [of _ s]) auto
qed

end
