(* ===== verification/Dist_Gc.thy ===== *)
theory Dist_Gc
  imports Gc
begin

text \<open>
  The collection endpoints of a namespace (\<open>kappa-module-distribution/src/gc.rs\<close>, \<open>cascade.rs\<close>): pins with
  finalizers, the sweep of a namespace and the cascading delete. Each handler hands the store work to a
  closure; the closures are modelled over the store interface. The JSON crate is a parameter.
\<close>

section \<open>Definitions\<close>

text \<open>
  The JSON documents: a field of a parsed document that is a string (the outer option is a document that does not
  parse), the document of a pin and the document of a sweep.
\<close>

record jsons =
  json_field :: "string \<Rightarrow> bytes \<Rightarrow> string option option"
  pin_doc :: "string \<Rightarrow> u64 \<Rightarrow> string \<Rightarrow> bytes"
  sweep_doc :: "string \<Rightarrow> nat \<Rightarrow> nat \<Rightarrow> nat \<Rightarrow> bytes option"

definition pin :: "jsons \<Rightarrow> 's KappaStore \<Rightarrow> NamespaceRef \<Rightarrow> string \<Rightarrow> u64 \<Rightarrow> string \<Rightarrow> 's \<Rightarrow> (string, StoreError, 's) stateful" where
  "pin J store ns kappa ttl controller s =
     sbind (ks_put_computed store (pin_doc J kappa ttl controller) s) (\<lambda>pk s.
     sbind (ks_tag_set store ns (''_pin/'' @ kappa) pk s) (\<lambda>_ s.
     sbind (ks_blob_put_meta store pk ''object-type'' (str_bytes ''pin'') s) (\<lambda>_ s.
     sbind (ks_meta_set store ns pk ''object-type'' ''pin'' s) (\<lambda>_ s.
     (Ok pk, s)))))"

text \<open>The controller of a pin: empty when the document cannot be read or names none.\<close>

definition pin_controller :: "jsons \<Rightarrow> 's KappaStore \<Rightarrow> string \<Rightarrow> 's \<Rightarrow> string option" where
  "pin_controller J store pk s =
     (case ks_blob_get store pk s of
        Ok pin_bytes \<Rightarrow>
          (case json_field J ''controller'' pin_bytes of
             Some c \<Rightarrow> Some (case c of Some ctrl \<Rightarrow> ctrl | None \<Rightarrow> [])
           | None \<Rightarrow> None)
      | _ \<Rightarrow> None)"

definition unpin :: "jsons \<Rightarrow> 's KappaStore \<Rightarrow> NamespaceRef \<Rightarrow> string \<Rightarrow> bool \<Rightarrow> 's \<Rightarrow> (unit, StoreError, 's) stateful" where
  "unpin J store ns pk release s =
     (let released_tag = ''_released/'' @ pk;
          was_released = (case ks_tag_get store ns released_tag s of Ok _ \<Rightarrow> True | _ \<Rightarrow> False)
      in
      sbind (ks_tag_prefix store ns ''_pin/'' s, s) (\<lambda>pins s.
      case find (\<lambda>pin_tag. te_kappa pin_tag = pk) pins of
        None \<Rightarrow> (Err (NotFound pk), s)
      | Some pin_tag \<Rightarrow>
          let ctrl = (case pin_controller J store pk s of Some c \<Rightarrow> c | None \<Rightarrow> []) in
          if ctrl \<noteq> [] \<and> \<not> release \<and> \<not> was_released then (Err (Conflict ctrl), s)
          else if ctrl \<noteq> [] \<and> release then
            sbind (ks_put_computed store (str_bytes ''released'') s) (\<lambda>marker s.
            sbind (ks_tag_set store ns released_tag marker s) (\<lambda>_ s.
            (Ok (), s)))
          else
            sbind (ks_tag_delete store ns (te_name pin_tag) s) (\<lambda>_ s.
            case ks_tag_delete store ns released_tag s of
              (Panic, s) \<Rightarrow> (Panic, s)
            | (_, s) \<Rightarrow> (Ok (), s))))"

text \<open>The finalizers that \<open>status\<close> lists: the pinned kappa and the controller of each pin that has one.\<close>

definition pending_finalizers :: "jsons \<Rightarrow> 's KappaStore \<Rightarrow> NamespaceRef \<Rightarrow> 's \<Rightarrow> (string \<times> string) list" where
  "pending_finalizers J store ns s =
     (let pins = (case ks_tag_prefix store ns ''_pin/'' s of Ok ps \<Rightarrow> ps | _ \<Rightarrow> [])
      in List.map_filter (\<lambda>pin_tag.
           case ks_blob_get store (te_kappa pin_tag) s of
             Ok pin_bytes \<Rightarrow>
               (case json_field J ''controller'' pin_bytes of
                  Some (Some ctrl) \<Rightarrow>
                    if ctrl = [] then None
                    else Some (case json_field J ''kappa'' pin_bytes of Some (Some k) \<Rightarrow> k | _ \<Rightarrow> [], ctrl)
                | _ \<Rightarrow> None)
           | _ \<Rightarrow> None) pins)"

record SweepResult =
  sw_objects_scanned :: nat
  sw_objects_reachable :: nat
  sw_objects_evicted :: nat

text \<open>The roots of one namespace: its tags, its pins, what the pins name, and its current epoch.\<close>

definition pin_roots :: "jsons \<Rightarrow> 's KappaStore \<Rightarrow> TagEntry list \<Rightarrow> 's \<Rightarrow> string list" where
  "pin_roots J store pins s =
     concat (map (\<lambda>pin_tag.
       (case ks_blob_get store (te_kappa pin_tag) s of
          Ok pin_bytes \<Rightarrow> (case json_field J ''kappa'' pin_bytes of Some (Some k) \<Rightarrow> [k] | _ \<Rightarrow> [])
        | _ \<Rightarrow> []) @ [te_kappa pin_tag]) pins)"

definition gc_targets :: "'s KappaStore \<Rightarrow> NamespaceRef \<Rightarrow> 's \<Rightarrow> string \<Rightarrow> string list" where
  "gc_targets store ns s kappa =
     (let query = \<lparr>eq_anchor = kappa, eq_direction = Outbound, eq_relation = None, eq_asserter = None\<rparr>
      in map ed_target (filter (\<lambda>e. gc_reachable (ed_relation e))
           (case ks_edge_query store ns query s of Ok es \<Rightarrow> es | _ \<Rightarrow> [])))"

fun evict :: "'s KappaStore \<Rightarrow> string list \<Rightarrow> string list \<Rightarrow> nat \<Rightarrow> 's \<Rightarrow> (nat, StoreError, 's) stateful" where
  "evict store reachable [] evicted s = (Ok evicted, s)"
| "evict store reachable (kappa # kappas) evicted s =
     (if kappa \<in> set reachable then evict store reachable kappas evicted s
      else (case ks_blob_delete store kappa s of
              (Panic, s) \<Rightarrow> (Panic, s)
            | (_, s) \<Rightarrow> evict store reachable kappas (evicted + 1) s))"

text \<open>Recording a sweep; failures are ignored.\<close>

definition persist_sweep :: "jsons \<Rightarrow> 's KappaStore \<Rightarrow> NamespaceRef \<Rightarrow> string \<Rightarrow> SweepResult \<Rightarrow> 's \<Rightarrow> (SweepResult, StoreError, 's) stateful" where
  "persist_sweep J store ns sweep_id result s =
     (case sweep_doc J sweep_id (sw_objects_scanned result) (sw_objects_reachable result) (sw_objects_evicted result) of
        None \<Rightarrow> (Ok result, s)
      | Some status_bytes \<Rightarrow>
          (case ks_put_computed store status_bytes s of
             (Ok status_kappa, s) \<Rightarrow>
               (case ks_tag_set store ns ''_gc/last_sweep'' status_kappa s of
                  (Panic, s) \<Rightarrow> (Panic, s)
                | (_, s) \<Rightarrow> (Ok result, s))
           | (Err _, s) \<Rightarrow> (Ok result, s)
           | (Panic, s) \<Rightarrow> (Panic, s)))"

definition run_sweep ::
  "jsons \<Rightarrow> 's KappaStore \<Rightarrow> NamespaceRef \<Rightarrow> string \<Rightarrow> 's \<Rightarrow> (SweepResult, StoreError, 's) stateful option" where
  "run_sweep J store ns sweep_id s =
     (case ks_tag_list store ns s of
        Err e \<Rightarrow> Some (Err e, s)
      | Panic \<Rightarrow> Some (Panic, s)
      | Ok tags \<Rightarrow>
          (case ks_tag_prefix store ns ''_pin/'' s of
             Err e \<Rightarrow> Some (Err e, s)
           | Panic \<Rightarrow> Some (Panic, s)
           | Ok pins \<Rightarrow>
               (case ks_epoch_current store ns s of
                  (Panic, s) \<Rightarrow> Some (Panic, s)
                | (epoch, s) \<Rightarrow>
                    let roots = map te_kappa tags @ pin_roots J store pins s @
                          (case epoch of Ok (Some current) \<Rightarrow> [current] | _ \<Rightarrow> [])
                    in Option.bind (compute_reachable (remdups roots) (gc_targets store ns s)) (\<lambda>reachable.
                       Some (sbind (ks_blob_list store s, s) (\<lambda>all_blobs s.
                             sbind (evict store reachable all_blobs 0 s) (\<lambda>evicted s.
                             persist_sweep J store ns sweep_id
                               \<lparr>sw_objects_scanned = length all_blobs, sw_objects_reachable = length reachable,
                                sw_objects_evicted = evicted\<rparr> s)))))))"

text \<open>The cascading delete: everything reachable from the given roots goes.\<close>

definition cascade_targets :: "'s KappaStore \<Rightarrow> NamespaceRef \<Rightarrow> 's \<Rightarrow> string \<Rightarrow> string list" where
  "cascade_targets store ns s kappa =
     map ed_target (case ks_edge_query store ns
         \<lparr>eq_anchor = kappa, eq_direction = Outbound, eq_relation = None, eq_asserter = None\<rparr> s of
       Ok es \<Rightarrow> es | _ \<Rightarrow> [])"

datatype HttpError = BadRequest string

fun delete_all :: "'s KappaStore \<Rightarrow> string list \<Rightarrow> nat \<Rightarrow> 's \<Rightarrow> (nat, HttpError, 's) stateful" where
  "delete_all store [] deleted s = (Ok deleted, s)"
| "delete_all store (kappa # kappas) deleted s =
     (case ks_blob_delete store kappa s of
        (Ok _, s) \<Rightarrow> delete_all store kappas (deleted + 1) s
      | (Err _, s) \<Rightarrow> delete_all store kappas deleted s
      | (Panic, s) \<Rightarrow> (Panic, s))"

definition cascade :: "'s KappaStore \<Rightarrow> NamespaceRef \<Rightarrow> string list \<Rightarrow> 's \<Rightarrow> (nat \<times> nat, HttpError, 's) stateful option" where
  "cascade store ns roots s =
     (if roots = [] then Some (Err (BadRequest ''empty roots list''), s)
      else Option.bind (compute_reachable roots (cascade_targets store ns s)) (\<lambda>reachable.
           Some (sbind (delete_all store reachable 0 s) (\<lambda>deleted s.
           (Ok (deleted, length reachable), s)))))"

section \<open>The sweep of a namespace\<close>

context blob_store
begin

lemma evict_contents:
  assumes ops: "ks_blob_delete store = del" and "inv s" and "\<And>k. k \<in> set ks \<Longrightarrow> label k"
  shows "\<exists>s'. evict store R ks n s = (Ok (n + length (filter (\<lambda>k. k \<notin> set R) ks)), s') \<and> inv s' \<and>
    contents s' = (\<lambda>k. if k \<in> set ks - set R then None else contents s k)"
  using assms(2,3)
proof (induction ks arbitrary: n s)
  case (Cons k ks)
  show ?case
  proof (cases "k \<in> set R")
    case True
    then show ?thesis using Cons.IH [OF Cons.prems(1), of n] Cons.prems by (auto simp: fun_eq_iff)
  next
    case False
    from del_law [OF Cons.prems(1), of k] Cons.prems(2) obtain s1
      where s1: "del k s = (Ok (), s1)" "inv s1" "contents s1 = (contents s)(k := None)" by auto
    have "evict store R (k # ks) n s = evict store R ks (n + 1) s1" using False s1(1) by (simp add: ops)
    with Cons.IH [OF s1(2), of "n + 1"] Cons.prems(2) False show ?thesis by (auto simp: fun_eq_iff s1(3))
  qed
qed (auto simp: fun_eq_iff)

end

lemma evict_disk_only:
  assumes "hashes_ok H"
  shows "disk_ok H s \<Longrightarrow> \<forall>k \<in> set ks. valid_label k \<Longrightarrow> disk_only s (snd (evict (mem_store X) R ks n s))"
proof (induction ks arbitrary: n s)
  case (Cons k ks)
  from Cons.prems(2) blob_delete_eq [OF assms Cons.prems(1)] obtain s1
    where s1: "blob_delete k s = (Ok (), s1)" "disk_ok H s1" "disk_only s s1" by auto
  then show ?case
    using Cons.IH [OF Cons.prems(1), of n] Cons.IH [OF s1(2), of "n + 1"] Cons.prems(2) disk_only_trans [OF s1(3)]
    by (auto simp: mem_store_def)
qed simp

text \<open>The roots that the sweep of a namespace starts from, on the in-memory store.\<close>

definition sweep_roots :: "('x) externals_scheme \<Rightarrow> jsons \<Rightarrow> NamespaceRef \<Rightarrow> InMemoryStore \<Rightarrow> string set" where
  "sweep_roots H J ns s =
     te_kappa ` set (tag_list s ns) \<union> set (pin_roots J (mem_store H) (tag_prefix s ns ''_pin/'') s) \<union>
     set_option (hget (ms_current_epochs s) (ns_uuid ns))"

definition status_kappas :: "('x) externals_scheme \<Rightarrow> jsons \<Rightarrow> string set" where
  "status_kappas H J = {kappa_text H Sha256 d |d. \<exists>sid a b c. sweep_doc J sid a b c = Some d}"

lemma persist_sweep_mem:
  assumes H: "hashes_ok H" and d: "disk_ok H s"
  shows "\<exists>s'. persist_sweep J (mem_store H) ns sid r s = (Ok r, s') \<and>
    (\<forall>k. k \<notin> status_kappas H J \<longrightarrow> blobs s' k = blobs s k) \<and>
    (\<forall>ns' name. ns_uuid ns' \<noteq> ns_uuid ns \<longrightarrow> tag_get H s' ns' name = tag_get H s ns' name)"
proof (cases "sweep_doc J sid (sw_objects_scanned r) (sw_objects_reachable r) (sw_objects_evicted r)")
  case None
  then show ?thesis by (simp add: persist_sweep_def)
next
  case (Some doc)
  let ?k = "kappa_text H Sha256 doc"
  from ingest_compute_eq [OF H d, of Sha256 doc] obtain s1 x
    where s1: "ingest_compute H Sha256 doc s = (Ok x, s1)" "ir_kappa x = ?k" "disk_only s s1"
      "blobs s1 = absorb ?k doc (blobs s)" by auto
  obtain v s2 where s2: "tag_set H ns ''_gc/last_sweep'' ?k s1 = (Ok v, s2)"
      "\<And>ns' name'. ns_uuid ns' \<noteq> ns_uuid ns \<Longrightarrow> tag_get H s2 ns' name' = tag_get H s1 ns' name'"
    by (simp add: tag_set_eq Let_def tag_get_def bump_tag_get tag_key_def)
  have "blobs s2 = blobs s1" by (rule blobs_same) (use s2(1) in \<open>auto simp: tag_set_eq Let_def\<close>)
  moreover have "?k \<in> status_kappas H J" using Some unfolding status_kappas_def by blast
  moreover have "tag_get H s1 ns' name = tag_get H s ns' name" for ns' name
    by (simp add: tag_get_def disk_only_fields [OF s1(3)])
  ultimately show ?thesis
    using Some s1 s2 by (auto simp: persist_sweep_def mem_store_def blob_put_computed_def absorb_apply)
qed

text \<open>
  C31. The sweep of a namespace takes its roots from that namespace alone, but it deletes from the whole store. It
  keeps what the tags, the pins and the current epoch of the namespace reach and deletes every other
  blob (the document that records the sweep apart). The tags of other namespaces stay, so a blob that
  only another namespace names is gone while its tag still points to it.
\<close>

theorem run_sweep_deletes_foreign:
  assumes "hashes_ok H" and "epoch_reachable H s"
    and "finite (closure (gc_targets (mem_store H) ns s) (sweep_roots H J ns s))"
  shows "\<exists>r s'. run_sweep J (mem_store H) ns sid s = Some (Ok r, s') \<and>
      (\<forall>k. k \<notin> status_kappas H J \<longrightarrow> blobs s' k =
         (if k \<in> closure (gc_targets (mem_store H) ns s) (sweep_roots H J ns s) then blobs s k else None)) \<and>
      (\<forall>ns' name. ns_uuid ns' \<noteq> ns_uuid ns \<longrightarrow> tag_get H s' ns' name = tag_get H s ns' name)"
proof -
  let ?f = "gc_targets (mem_store H) ns s" and ?cur = "hget (ms_current_epochs s) (ns_uuid ns)"
  have d: "disk_ok H s" and ok: "\<And>ns. epochs_ok H s ns" using epoch_reachable_ok [OF assms(1,2)] by auto
  define roots where "roots = remdups (map te_kappa (tag_list s ns) @
      pin_roots J (mem_store H) (tag_prefix s ns ''_pin/'') s @ (case ?cur of Some k \<Rightarrow> [k] | None \<Rightarrow> []))"
  have set_roots: "set roots = sweep_roots H J ns s"
    by (auto simp: roots_def sweep_roots_def split: option.splits)
  from compute_reachable_closure [of ?f roots] assms(3) set_roots obtain R
    where R: "compute_reachable roots ?f = Some R" "set R = closure ?f (sweep_roots H J ns s)" by auto
  have inv: "blob_inv H s" using assms(1) d by (simp add: blob_inv_def)
  note all = mem.all_law [OF inv] mem.all_label [OF inv]
  from mem.evict_contents [OF _ inv all(2), of "mem_store H" "blob_list s" R 0] obtain m s1
    where ev: "evict (mem_store H) R (blob_list s) 0 s = (Ok m, s1)" "blob_inv H s1"
      and b1: "blobs s1 = (\<lambda>k. if k \<in> set (blob_list s) - set R then None else blobs s k)"
    by (auto simp: mem_store_def)
  have only: "disk_only s s1"
    using evict_disk_only [OF assms(1) d, of "blob_list s" H R 0] all(2) ev(1) by simp
  let ?r = "\<lparr>sw_objects_scanned = length (blob_list s), sw_objects_reachable = length R, sw_objects_evicted = m\<rparr>"
  from ev(2) have "disk_ok H s1" by (simp add: blob_inv_def)
  from persist_sweep_mem [OF assms(1) this, of J ns sid ?r] obtain s2
    where ps: "persist_sweep J (mem_store H) ns sid ?r s1 = (Ok ?r, s2)"
      "\<forall>k. k \<notin> status_kappas H J \<longrightarrow> blobs s2 k = blobs s1 k"
      "\<forall>ns' name. ns_uuid ns' \<noteq> ns_uuid ns \<longrightarrow> tag_get H s2 ns' name = tag_get H s1 ns' name" by blast
  have ops: "ks_tag_list (mem_store H) ns s = Ok (tag_list s ns)"
      "ks_tag_prefix (mem_store H) ns ''_pin/'' s = Ok (tag_prefix s ns ''_pin/'')"
      "ks_epoch_current (mem_store H) ns s = (Ok ?cur, s)" "ks_blob_list (mem_store H) s = Ok (blob_list s)"
    using epoch_current_ok [OF ok, of ns] by (simp_all add: mem_store_def)
  have "run_sweep J (mem_store H) ns sid s = Some (Ok ?r, s2)"
    using R(1) ev(1) ps(1) by (cases ?cur) (simp_all add: run_sweep_def ops roots_def)
  moreover have "blobs s1 k = (if k \<in> closure ?f (sweep_roots H J ns s) then blobs s k else None)" for k
    using all(1) R(2) by (auto simp: b1)
  moreover have "tag_get H s1 ns' name = tag_get H s ns' name" for ns' name
    by (simp add: tag_get_def disk_only_fields [OF only])
  ultimately show ?thesis using ps(2,3) by auto
qed

definition sample_jsons :: jsons where
  "sample_jsons = \<lparr>json_field = (\<lambda>_ _. None), pin_doc = (\<lambda>_ _ _. []), sweep_doc = (\<lambda>_ _ _ _. None)\<rparr>"

lemma sample_blake3: "blake3_digest sample_crypto = pad_digest 32"
  by (simp add: sample_crypto_def externals.defs sample_externals_def)

lemma sample_tag_key: "item_hash sample_crypto ''keep'' \<noteq> item_hash sample_crypto EPOCH_TAG"
proof -
  have "replicate 4 (0 :: 8 word) = [0, 0, 0, 0]" by (simp add: numeral_eq_Suc)
  then show ?thesis
    by (simp add: item_hash_def namespace_hash_def sample_blake3 EPOCH_TAG_def pad_digest_def str_bytes_def byte_of_char_def)
      (simp add: le_val_def be_val_def)
qed

definition sample_uuid :: "8 word \<Rightarrow> uuid" where
  "sample_uuid b = replicate 16 b"

lemma sample_uuid_inject [simp]: "sample_uuid a = sample_uuid b \<longleftrightarrow> a = b"
  by (simp add: sample_uuid_def numeral_eq_Suc)

text \<open>A store with one blob that the namespace of all ones tags.\<close>

lemma sample_tagged_store:
  "\<exists>s. epoch_reachable sample_crypto s \<and>
     tag_get sample_crypto s (ns_new (sample_uuid 1)) ''keep'' =
       Ok \<lparr>te_name = ''keep'', te_kappa = kappa_text sample_crypto Sha256 [1], te_version = 1\<rparr> \<and>
     blobs s (kappa_text sample_crypto Sha256 [1]) = Some [1] \<and>
     (\<forall>u h. u \<noteq> sample_uuid 1 \<longrightarrow> hget (ms_tags s) (u, h) = None) \<and> ms_current_epochs s = []"
proof -
  have H: "hashes_ok sample_crypto" using sample_crypto_ok by (simp add: externals_ok_def)
  let ?s = "mem_new [''blobs''] None []" and ?k = "kappa_text sample_crypto Sha256 [1]" and ?ns = "ns_new (sample_uuid 1)"
  have d: "disk_ok sample_crypto ?s" by (simp add: mem_new_def)
  from ingest_compute_eq [OF H d, of Sha256 "[1]"] obtain s
    where s: "disk_ok sample_crypto s" "disk_only ?s s" "blobs s = absorb ?k [1] (blobs ?s)" by auto
  define t where "t = snd (tag_set sample_crypto ?ns ''keep'' ?k s)"
  have t: "t = (ensure_namespace sample_crypto ?ns s)\<lparr>ms_tags := snd (bump_tag (tag_key sample_crypto ?ns ''keep'') ''keep'' ?k (ms_tags s))\<rparr>"
    by (simp add: t_def tag_set_eq Let_def)
  have f: "ms_epoch_roots t = ms_epoch_roots s" "ms_current_epochs t = ms_current_epochs s" "ms_sequences t = ms_sequences s"
    "ms_disk t = ms_disk s" "ms_blob_root t = ms_blob_root s" by (simp_all add: t)
  have n: "ms_tags s = []" "ms_current_epochs s = []" by (simp_all add: disk_only_fields [OF s(2)] mem_new_def)
  have "epoch_reachable sample_crypto t"
    by (rule epoch_reachable.other [OF epoch_reachable.fresh [of sample_crypto "[''blobs'']" None]])
      (use s(1) disk_ok_same [of t s sample_crypto] f sample_tag_key in
        \<open>auto simp: disk_only_fields [OF s(2)] epoch_count_def sequence_current_def t bump_tag_get tag_key_def mem_new_def\<close>)
  moreover have "blobs t ?k = Some [1]"
    using blobs_same [of t s] f(4,5) by (simp add: s(3) absorb_apply blobs_def mem_new_def)
  moreover have "ms_tags t = snd (bump_tag (tag_key sample_crypto ?ns ''keep'') ''keep'' ?k [])"
    by (simp add: t n(1))
  then have "tag_get sample_crypto t ?ns ''keep'' = Ok \<lparr>te_name = ''keep'', te_kappa = ?k, te_version = 1\<rparr>"
    and "\<And>u h. u \<noteq> sample_uuid 1 \<Longrightarrow> hget (ms_tags t) (u, h) = None"
    by (simp_all add: tag_get_def bump_tag_def tag_key_def ns_new_def)
  ultimately show ?thesis using n(2) f(2) by (intro exI [of _ t]) simp
qed

theorem run_sweep_deletes_foreign_witness:
  "\<exists>s r s'. blobs s (kappa_text sample_crypto Sha256 [1]) = Some [1] \<and>
     run_sweep sample_jsons (mem_store sample_crypto) (ns_new (sample_uuid 2)) ''id'' s = Some (Ok r, s') \<and>
     tag_get sample_crypto s' (ns_new (sample_uuid 1)) ''keep'' =
       Ok \<lparr>te_name = ''keep'', te_kappa = kappa_text sample_crypto Sha256 [1], te_version = 1\<rparr> \<and>
     blobs s' (kappa_text sample_crypto Sha256 [1]) = None"
proof -
  have H: "hashes_ok sample_crypto" using sample_crypto_ok by (simp add: externals_ok_def)
  from sample_tagged_store obtain s where s: "epoch_reachable sample_crypto s"
     "tag_get sample_crypto s (ns_new (sample_uuid 1)) ''keep'' =
       Ok \<lparr>te_name = ''keep'', te_kappa = kappa_text sample_crypto Sha256 [1], te_version = 1\<rparr>"
     "blobs s (kappa_text sample_crypto Sha256 [1]) = Some [1]"
     "\<And>u h. u \<noteq> sample_uuid 1 \<Longrightarrow> hget (ms_tags s) (u, h) = None" "ms_current_epochs s = []" by auto
  let ?ns = "ns_new (sample_uuid 2)"
  have "u = sample_uuid 1" if "((u, h), e) \<in> set (ms_tags s)" for u h e
    using s(4) [of u h] that by (force simp: hget_def map_of_eq_None_iff)
  then have no: "filter (\<lambda>((u, _), e). u = sample_uuid 2 \<and> P e) (ms_tags s) = []" for P
    by (fastforce simp: filter_empty_conv)
  have roots: "sweep_roots sample_crypto sample_jsons ?ns s = {}"
    using s(5) no [of "\<lambda>_. True"] no [of "\<lambda>e. starts_with (te_name e) ''_pin/''"]
    by (simp add: sweep_roots_def tag_list_def collect_sorted_tags_def tag_prefix_def ns_new_def pin_roots_def case_prod_beta)
  have none: "closure f {} = {}" for f by (simp add: closure_def)
  have status: "status_kappas sample_crypto sample_jsons = {}" by (simp add: status_kappas_def sample_jsons_def)
  have "ns_uuid (ns_new (sample_uuid 1)) \<noteq> ns_uuid ?ns" by (simp add: ns_new_def)
  then show ?thesis
    using run_sweep_deletes_foreign [OF H s(1), of ?ns sample_jsons "''id''"] s(2,3)
    unfolding roots none status by (intro exI [of _ s]) auto
qed

section \<open>The cascading delete\<close>

lemma blob_delete_disk_only: "disk_only s (snd (blob_delete k s))"
  by (auto simp: blob_delete_def sbind_eq split: result.splits)

lemma delete_all_disk_only: "disk_only s (snd (delete_all (mem_store H) ks n s))"
proof (induction ks arbitrary: n s)
  case (Cons k ks)
  have del: "disk_only s (snd (blob_delete k s))" by (rule blob_delete_disk_only)
  obtain r s1 where r: "blob_delete k s = (r, s1)" by (cases "blob_delete k s")
  have "disk_only s s1" using del r by simp
  then show ?case
    using Cons.IH [of s1] r by (cases r) (auto simp: mem_store_def intro: disk_only_trans)
qed simp

text \<open>
  The cascading delete is documented to delete the reachable blobs with their tags and edges. It
  deletes blobs only: whatever the roots, every tag and every edge stays, also those of deleted blobs.
\<close>

lemma cascade_keeps_tags:
  assumes "cascade (mem_store H) ns roots s = Some (r, s')"
  shows "ms_tags s' = ms_tags s \<and> ms_edges s' = ms_edges s \<and> ms_fwd_index s' = ms_fwd_index s"
proof -
  have "disk_only s s'"
  proof (cases "roots = []")
    case False
    with assms obtain R where "sbind (delete_all (mem_store H) R 0 s) (\<lambda>deleted s. (Ok (deleted, length R), s)) = (r, s')"
      by (auto simp: cascade_def bind_eq_Some_conv)
    then have "s' = snd (delete_all (mem_store H) R 0 s)"
      by (auto simp: sbind_eq split: result.splits)
    then show ?thesis using delete_all_disk_only by simp
  qed (use assms in \<open>simp add: cascade_def\<close>)
  then show ?thesis by (simp add: disk_only_fields)
qed

end
