(* ===== verification/Transaction.thy ===== *)
theory Transaction
  imports Memory_Store
begin

text \<open>
  Multi-object transactions (\<open>kappa-core/src/transaction.rs\<close>): blobs are staged under a directory of the
  transaction and promoted into the main store by a commit. The manager and its staging area are one
  state; the main store is used through its ingest operation. Each call is one step: interleavings of
  calls between their locks are not modelled. The lemmas show that the byte counters are exact, that the limits
  hold for what lies on disk, and what a commit promotes.
\<close>

section \<open>Definitions\<close>

datatype TransactionError =
    TxIo string
  | TxNotFound
  | AtCapacity u64
  | PerTxnLimitExceeded u64
  | GlobalLimitExceeded u64
  | DigestMismatch string
  | InvalidLabel string string

text \<open>The messages of store errors, which a failed promotion reports.\<close>

fun store_error_msg :: "StoreError \<Rightarrow> string" where
  "store_error_msg (Io m) = ''io error: '' @ m"
| "store_error_msg (NotFound m) = ''not found: '' @ m"
| "store_error_msg (Conflict m) = ''conflict: '' @ m"
| "store_error_msg (Rejected m) = ''rejected: '' @ m"
| "store_error_msg (Canonical m) = ''canonical error: '' @ m"

record TransactionState =
  ts_ns :: string
  ts_created_at :: nat
  ts_staging_bytes :: u64
  ts_staging_dir_created :: bool

record TransactionManager =
  tm_active :: "(string, TransactionState) hmap"
  tm_active_count :: u64
  tm_total_staging_bytes :: u64
  tm_store_root :: path
  tm_max_concurrent :: u64
  tm_max_bytes_per_txn :: u64
  tm_max_bytes_global :: u64
  tm_timeout_secs :: u64
  tm_disk :: fs

type_synonym 'a txn_op = "('a, TransactionError, TransactionManager) stateful"

definition fs_remove_dir_all :: "path \<Rightarrow> fs \<Rightarrow> fs" where
  "fs_remove_dir_all p d = hretain (\<lambda>k _. \<not> (take (length (fs_key p)) k = fs_key p \<and> length (fs_key p) < length k)) d"

definition staging_root :: "path \<Rightarrow> path" where
  "staging_root root = path_join root ''staging''"

definition staging_dir :: "TransactionManager \<Rightarrow> string \<Rightarrow> path" where
  "staging_dir m txn_id = path_join (staging_root (tm_store_root m)) txn_id"

text \<open>Starting the manager removes every directory of the staging area.\<close>

definition txn_new :: "path \<Rightarrow> u64 \<Rightarrow> u64 \<Rightarrow> u64 \<Rightarrow> u64 \<Rightarrow> fs \<Rightarrow> TransactionManager" where
  "txn_new store_root max_concurrent max_bytes_per_txn max_bytes_global timeout_secs d =
     (let root = fs_key (staging_root store_root) in
      \<lparr>tm_active = [], tm_active_count = 0, tm_total_staging_bytes = 0, tm_store_root = store_root,
       tm_max_concurrent = max_concurrent, tm_max_bytes_per_txn = max_bytes_per_txn,
       tm_max_bytes_global = max_bytes_global, tm_timeout_secs = timeout_secs,
       tm_disk = hretain (\<lambda>k _. \<not> (take (length root) k = root \<and> length root + 2 \<le> length k)) d\<rparr>)"

definition txn_begin :: "string \<Rightarrow> nat \<Rightarrow> string \<Rightarrow> TransactionManager \<Rightarrow> string txn_op" where
  "txn_begin txn_id now ns m =
     (if tm_active_count m \<ge> tm_max_concurrent m then (Err (AtCapacity (tm_max_concurrent m)), m)
      else (Ok txn_id,
            m\<lparr>tm_active := hput txn_id \<lparr>ts_ns = ns, ts_created_at = now, ts_staging_bytes = 0,
                ts_staging_dir_created = False\<rparr> (tm_active m),
              tm_active_count := tm_active_count m + 1\<rparr>))"

definition blob_path_in :: "path \<Rightarrow> string \<Rightarrow> path" where
  "blob_path_in dir kappa =
     (let (axis, hex) = (case split_once CHR '':'' kappa of Some p \<Rightarrow> p | None \<Rightarrow> (''unknown'', ''00''));
          shard = (if length hex \<ge> 2 then take 2 hex else ''xx'')
      in path_join (path_join (path_join (path_join dir ''blobs'') axis) shard) kappa)"

definition txn_put :: "('x) hashes_scheme \<Rightarrow> string \<Rightarrow> string \<Rightarrow> bytes \<Rightarrow> TransactionManager \<Rightarrow> bool txn_op" where
  "txn_put H txn_id kappa content m =
     (case verify_kappa H kappa content of
        Panic \<Rightarrow> (Panic, m)
      | Err e \<Rightarrow> (Err (InvalidLabel kappa (label_error_msg e)), m)
      | Ok False \<Rightarrow> (Err (DigestMismatch kappa), m)
      | Ok True \<Rightarrow>
          let content_len = word_of_nat (length content) in
          sbind (ok_or TxNotFound (hget (tm_active m) txn_id), m) (\<lambda>state m.
          if ts_staging_bytes state + content_len > tm_max_bytes_per_txn m then
            (Err (PerTxnLimitExceeded (tm_max_bytes_per_txn m)), m)
          else if tm_total_staging_bytes m + content_len > tm_max_bytes_global m then
            (Err (GlobalLimitExceeded (tm_max_bytes_global m)), m)
          else
            let state = state\<lparr>ts_staging_dir_created := True\<rparr>;
                m = m\<lparr>tm_active := hput txn_id state (tm_active m)\<rparr>;
                blob_path = blob_path_in (staging_dir m txn_id) kappa
            in
            if fs_exists (tm_disk m) blob_path then (Ok False, m)
            else sbind (map_err TxIo (write_then_rename blob_path content (tm_disk m)), m) (\<lambda>d m.
                 (Ok True,
                  m\<lparr>tm_disk := d,
                    tm_active := hput txn_id (state\<lparr>ts_staging_bytes := ts_staging_bytes state + content_len\<rparr>) (tm_active m),
                    tm_total_staging_bytes := tm_total_staging_bytes m + content_len\<rparr>))))"

definition cleanup :: "string \<Rightarrow> TransactionManager \<Rightarrow> TransactionManager" where
  "cleanup txn_id m =
     (if hget (tm_active m) txn_id \<noteq> None
      then m\<lparr>tm_active := hdel txn_id (tm_active m), tm_active_count := tm_active_count m - 1\<rparr>
      else m)"

text \<open>The staged blobs, sorted by their name: files three levels below the blob directory of the transaction.\<close>

definition list_staged_blobs :: "path \<Rightarrow> fs \<Rightarrow> (string \<times> path) list" where
  "list_staged_blobs dir d =
     (let root = fs_key (path_join dir ''blobs'') in
      sort_key fst (List.map_filter (\<lambda>(k, _).
        if take (length root) k = root \<and> length k = length root + 3 \<and>
           \<not> ends_with (last k) ''.meta'' \<and> \<not> ends_with (last k) ''.tmp'' \<and> CHR '':'' \<in> set (last k)
        then Some (last k, k) else None) d))"

fun promote ::
  "(string \<Rightarrow> bytes \<Rightarrow> 's \<Rightarrow> (IngestResult, StoreError, 's) stateful) \<Rightarrow> fs \<Rightarrow> (string \<times> path) list \<Rightarrow> 's \<Rightarrow>
   (string list, TransactionError, 's) stateful" where
  "promote ingest d [] s = (Ok [], s)"
| "promote ingest d ((kappa, path) # staged) s =
     (case hget d path of
        None \<Rightarrow> (Err (TxIo ''No such file or directory (os error 2)''), s)
      | Some content \<Rightarrow>
          (case ingest kappa content s of
             (Err e, s) \<Rightarrow> (Err (TxIo (store_error_msg e)), s)
           | (Panic, s) \<Rightarrow> (Panic, s)
           | (Ok _, s) \<Rightarrow> sbind (promote ingest d staged s) (\<lambda>promoted s. (Ok (kappa # promoted), s))))"

definition commit ::
  "(string \<Rightarrow> bytes \<Rightarrow> 's \<Rightarrow> (IngestResult, StoreError, 's) stateful) \<Rightarrow> string \<Rightarrow> TransactionManager \<times> 's \<Rightarrow>
   (string list, TransactionError, TransactionManager \<times> 's) stateful" where
  "commit ingest txn_id ms =
     (case ms of (m, s) \<Rightarrow>
        (case hget (tm_active m) txn_id of
           None \<Rightarrow> (Err TxNotFound, (m, s))
         | Some state \<Rightarrow>
             if \<not> ts_staging_dir_created state then (Ok [], (cleanup txn_id m, s))
             else
               (case promote ingest (tm_disk m) (list_staged_blobs (staging_dir m txn_id) (tm_disk m)) s of
                  (Err e, s) \<Rightarrow> (Err e, (m, s))
                | (Panic, s) \<Rightarrow> (Panic, (m, s))
                | (Ok promoted, s) \<Rightarrow>
                    (Ok promoted,
                     (cleanup txn_id
                        (m\<lparr>tm_disk := fs_remove_dir_all (staging_dir m txn_id) (tm_disk m),
                           tm_total_staging_bytes := tm_total_staging_bytes m - ts_staging_bytes state\<rparr>), s)))))"

definition abort :: "string \<Rightarrow> TransactionManager \<Rightarrow> unit txn_op" where
  "abort txn_id m =
     sbind (ok_or TxNotFound (hget (tm_active m) txn_id), m) (\<lambda>state m.
     (Ok (),
      cleanup txn_id
        (m\<lparr>tm_disk := fs_remove_dir_all (staging_dir m txn_id) (tm_disk m),
           tm_total_staging_bytes := tm_total_staging_bytes m - ts_staging_bytes state\<rparr>)))"

text \<open>Instants count nanoseconds; \<open>as_secs\<close> drops the fraction.\<close>

definition evict_expired :: "nat \<Rightarrow> TransactionManager \<Rightarrow> nat \<times> TransactionManager" where
  "evict_expired now m =
     (let to_remove = map fst (filter (\<lambda>(_, state).
            (now - ts_created_at state) div 10 ^ 9 > unat (tm_timeout_secs m)) (tm_active m))
      in (length to_remove, fold (\<lambda>txn_id m. snd (abort txn_id m)) to_remove m))"

section \<open>The staging area as a map\<close>

text \<open>Where a label is staged below the directory of a transaction.\<close>

definition stage_path :: "string \<Rightarrow> path" where
  "stage_path k =
     (case split_once CHR '':'' k of
        Some (axis, hex) \<Rightarrow> [''blobs'', axis, take 2 hex, k]
      | None \<Rightarrow> [])"

definition plain_id :: "string \<Rightarrow> bool" where
  "plain_id n \<longleftrightarrow> CHR ''/'' \<notin> set n \<and> n \<noteq> [] \<and> n \<noteq> ''.'' \<and> n \<noteq> ''..''"

definition staging_key :: "TransactionManager \<Rightarrow> path" where
  "staging_key m = fs_key (staging_root (tm_store_root m))"

definition staged :: "TransactionManager \<Rightarrow> string \<Rightarrow> string \<Rightarrow> bytes option" where
  "staged m txn_id k = (if valid_label k then hget (tm_disk m) (staging_key m @ txn_id # stage_path k) else None)"

text \<open>The bytes of all files below a directory.\<close>

definition bytes_in :: "fs \<Rightarrow> path \<Rightarrow> nat" where
  "bytes_in d dir = (\<Sum>k | hget d k \<noteq> None \<and> take (length dir) k = dir \<and> length dir < length k. length (the (hget d k)))"

lemma finite_keys [simp]: "finite {k. hget m k \<noteq> None}"
  by (rule finite_subset [of _ "set (hkeys m)"]) (auto simp: hget_None)

lemma bytes_in_put:
  assumes "hget d k = None" and "\<And>q. hget d' q = (if q = k then Some c else hget d q)"
  shows "bytes_in d' dir = bytes_in d dir + (if take (length dir) k = dir \<and> length dir < length k then length c else 0)"
proof -
  let ?S = "{q. hget d q \<noteq> None \<and> take (length dir) q = dir \<and> length dir < length q}"
  have fin: "finite ?S" by (rule finite_subset [OF _ finite_keys [of d]]) auto
  have S': "{q. hget d' q \<noteq> None \<and> take (length dir) q = dir \<and> length dir < length q} =
      (if take (length dir) k = dir \<and> length dir < length k then insert k ?S else ?S)"
    by (auto simp: assms(2))
  have "(\<Sum>q \<in> ?S. length (the (hget d' q))) = (\<Sum>q \<in> ?S. length (the (hget d q)))"
    by (rule sum.cong) (auto simp: assms)
  then show ?thesis
    unfolding bytes_in_def S' using fin assms by simp
qed

lemma hget_remove_dir_all:
  "hm_ok d \<Longrightarrow> hget (fs_remove_dir_all p d) k =
     (if take (length (fs_key p)) k = fs_key p \<and> length (fs_key p) < length k then None else hget d k)"
  by (auto simp: fs_remove_dir_all_def split: option.splits)

lemma bytes_in_remove:
  assumes "hm_ok d" and "length dir = length (fs_key p)"
  shows "bytes_in (fs_remove_dir_all p d) dir = (if dir = fs_key p then 0 else bytes_in d dir)"
proof -
  note get = hget_remove_dir_all [OF assms(1)]
  have "{k. hget (fs_remove_dir_all p d) k \<noteq> None \<and> take (length dir) k = dir \<and> length dir < length k} =
      (if dir = fs_key p then {} else {k. hget d k \<noteq> None \<and> take (length dir) k = dir \<and> length dir < length k})"
    using assms(2) by (auto simp: get)
  then show ?thesis
    unfolding bytes_in_def using assms(2) by (auto simp: get intro!: sum.cong)
qed

text \<open>A sum over the values of a map.\<close>

definition hsum :: "('v \<Rightarrow> nat) \<Rightarrow> ('k, 'v) hmap \<Rightarrow> nat" where
  "hsum f m = (\<Sum>k | hget m k \<noteq> None. f (the (hget m k)))"

lemma hsum_del: "hsum f (hdel k m) + (case hget m k of None \<Rightarrow> 0 | Some v \<Rightarrow> f v) = hsum f m"
proof -
  let ?S = "{q. hget m q \<noteq> None}"
  have "{q. hget (hdel k m) q \<noteq> None} = ?S - {k}" by auto
  moreover have "(\<Sum>q \<in> ?S - {k}. f (the (hget (hdel k m) q))) = (\<Sum>q \<in> ?S - {k}. f (the (hget m q)))"
    by (rule sum.cong) auto
  ultimately show ?thesis
    using sum.remove [OF finite_keys [of m], of k "\<lambda>q. f (the (hget m q))"]
    by (cases "hget m k") (auto simp: hsum_def)
qed

lemma hsum_put: "hsum f (hput k v m) + (case hget m k of None \<Rightarrow> 0 | Some w \<Rightarrow> f w) = hsum f m + f v"
proof -
  have "hsum f (hdel k (hput k v m)) = hsum f (hdel k m)"
    unfolding hsum_def by (rule sum.cong) auto
  then show ?thesis
    using hsum_del [of f k "hput k v m"] hsum_del [of f k m] by simp
qed

lemma split_once_label: "split_once CHR '':'' (label_text a ds) = Some (axis_as_str a, hex_text ds)"
proof -
  have "CHR '':'' \<notin> set (axis_as_str a)" by (cases a) simp_all
  then show ?thesis by (simp add: label_text_hex)
qed

lemma stage_path_text:
  "length ds = digest_bytes a \<Longrightarrow>
     stage_path (label_text a ds) = [''blobs'', axis_as_str a, take 2 (hex_text ds), label_text a ds]"
  by (simp add: stage_path_def split_once_label)

lemma label_text_chars:
  assumes "c \<in> set (label_text a ds)"
  shows "c \<noteq> CHR ''/'' \<and> c \<noteq> CHR ''.''"
proof -
  have "c \<in> set (axis_as_str a) \<or> c = CHR '':'' \<or> c \<in> set (hex_text ds)" using assms by (auto simp: label_text_hex)
  moreover have "c \<noteq> CHR ''/'' \<and> c \<noteq> CHR ''.''" if "c \<in> set (hex_text ds)"
    using hex_text_hex [of ds] that hex_char_plain by (auto simp: list_all_iff str_bytes_def)
  moreover have "c \<noteq> CHR ''/'' \<and> c \<noteq> CHR ''.''" if "c \<in> set (axis_as_str a)"
    using that by (cases a) auto
  ultimately show ?thesis by auto
qed

lemma stage_path_valid:
  assumes "valid_label k"
  shows "blob_path_in dir k = dir @ stage_path k" and "''..'' \<notin> set (stage_path k)" and "length (stage_path k) = 4"
    and "last (stage_path k) = k" and "CHR ''.'' \<notin> set k" and "CHR '':'' \<in> set k"
proof -
  from assms obtain a ds where k: "length ds = digest_bytes a" "k = label_text a ds"
    by (rule valid_labelE)
  have hex: "list_all is_hex_byte (str_bytes (take 2 (hex_text ds)))" "hex_text ds \<noteq> []" "2 \<le> length (hex_text ds)"
    using hex_text_hex [of ds] k(1) digest_bytes_ge [of a] length_hex_text [of ds]
    by (auto simp: list_all_str_bytes_take simp del: length_hex_text)
  show dot: "CHR ''.'' \<notin> set k" using label_text_chars [of _ a ds] by (auto simp: k(2))
  have join: "path_join p (label_text a ds) = p @ [label_text a ds]" for p
  proof (rule path_join_plain)
    show "CHR ''/'' \<notin> set (label_text a ds)" using label_text_chars by blast
    show "label_text a ds \<noteq> []" by (simp add: label_text_hex)
    show "label_text a ds \<noteq> ''.''" using label_text_chars [of "CHR ''.''" a ds] by (metis list.set_intros(1))
  qed
  have blobs: "path_join p ''blobs'' = p @ [''blobs'']" for p by (rule path_join_plain) simp_all
  have shard: "path_join p (take 2 (hex_text ds)) = p @ [take 2 (hex_text ds)]" for p
    using hex by (intro path_join_hex) auto
  show "blob_path_in dir k = dir @ stage_path k"
    unfolding k(2) blob_path_in_def split_once_label stage_path_text [OF k(1)]
    using hex(3) by (simp only: option.case Let_def prod.case if_True join blobs shard path_join_axis append.assoc append.simps)
  show "''..'' \<notin> set (stage_path k)"
  proof -
    have "take 2 (hex_text ds) \<noteq> ''..''" using hex_text_no_dots [of "take 2 (hex_text ds)" 2 0 ds] by simp
    moreover have "k \<noteq> ''..''" using dot by auto
    ultimately show ?thesis
      using axis_no_dots [of a] unfolding k(2) stage_path_text [OF k(1)] by simp
  qed
  show "length (stage_path k) = 4" "last (stage_path k) = k"
    unfolding k(2) stage_path_text [OF k(1)] by simp_all
  show "CHR '':'' \<in> set k" by (simp add: k(2) label_text_hex)
qed

section \<open>Exact accounting\<close>

definition txn_dir :: "TransactionManager \<Rightarrow> string \<Rightarrow> path" where
  "txn_dir m txn_id = staging_key m @ [txn_id]"

definition txn_files_ok :: "('x) hashes_scheme \<Rightarrow> TransactionManager \<Rightarrow> bool" where
  "txn_files_ok H m \<longleftrightarrow>
     (\<forall>k c. hget (tm_disk m) k = Some c \<longrightarrow> take (length (staging_key m)) k = staging_key m \<longrightarrow>
        length (staging_key m) + 2 \<le> length k \<longrightarrow>
        (\<exists>txn_id state l. hget (tm_active m) txn_id = Some state \<and> ts_staging_dir_created state \<and>
           addresses H l c \<and> k = staging_key m @ txn_id # stage_path l))"

definition txn_ok :: "('x) hashes_scheme \<Rightarrow> TransactionManager \<Rightarrow> bool" where
  "txn_ok H m \<longleftrightarrow>
     hm_ok (tm_active m) \<and> hm_ok (tm_disk m) \<and> txn_files_ok H m \<and>
     (\<forall>txn_id state. hget (tm_active m) txn_id = Some state \<longrightarrow>
        plain_id txn_id \<and> unat (ts_staging_bytes state) = bytes_in (tm_disk m) (txn_dir m txn_id) \<and>
        ts_staging_bytes state \<le> tm_max_bytes_per_txn m) \<and>
     unat (tm_total_staging_bytes m) = hsum (\<lambda>state. unat (ts_staging_bytes state)) (tm_active m) \<and>
     tm_total_staging_bytes m \<le> tm_max_bytes_global m \<and>
     unat (tm_active_count m) = hsum (\<lambda>_. 1) (tm_active m) \<and>
     tm_active_count m \<le> tm_max_concurrent m \<and>
     unat (tm_max_bytes_per_txn m) < 2 ^ 63 \<and> unat (tm_max_bytes_global m) < 2 ^ 63"

lemma txn_fileD:
  "txn_files_ok H m \<Longrightarrow> hget (tm_disk m) k = Some c \<Longrightarrow> take (length (staging_key m)) k = staging_key m \<Longrightarrow>
   length (staging_key m) + 2 \<le> length k \<Longrightarrow>
   \<exists>txn_id state l. hget (tm_active m) txn_id = Some state \<and> ts_staging_dir_created state \<and>
     addresses H l c \<and> k = staging_key m @ txn_id # stage_path l"
  unfolding txn_files_ok_def by blast

lemma fs_key_staging_dir: "plain_id txn_id \<Longrightarrow> fs_key (staging_dir m txn_id) = txn_dir m txn_id"
  using fs_key_append [of "[txn_id]" "staging_root (tm_store_root m)"]
  by (auto simp: staging_dir_def txn_dir_def plain_id_def path_join_plain staging_key_def)

lemma fs_key_staged:
  assumes "plain_id txn_id" and "valid_label k"
  shows "fs_key (blob_path_in (staging_dir m txn_id) k) = staging_key m @ txn_id # stage_path k"
  using stage_path_valid [OF assms(2)] fs_key_staging_dir [OF assms(1), of m]
  by (simp add: fs_key_append txn_dir_def)

lemma unat_add_len:
  fixes a :: u64
  assumes "unat a < 2 ^ 63" and "n < 2 ^ 63"
  shows "unat (a + word_of_nat n) = unat a + n"
proof -
  have "unat (word_of_nat n :: u64) = n" using assms(2) by (simp add: unat_of_nat take_bit_nat_eq_self)
  then show ?thesis using assms by (simp add: unat_word_ariths)
qed

lemma unat_inc:
  fixes a b :: u64
  assumes "a < b"
  shows "unat (a + 1) = unat a + 1"
proof -
  have "unat a + 1 < 2 ^ 64" using assms unsigned_less [of b, where ?'a = nat] by (simp add: word_less_nat_alt)
  then show ?thesis by (simp add: unat_word_ariths)
qed

lemma txn_new_ok:
  assumes "hm_ok d" and "unat per < 2 ^ 63" and "unat global < 2 ^ 63"
  shows "txn_ok H (txn_new root conc per global timeout d)"
  using assms by (simp add: txn_ok_def txn_new_def Let_def txn_files_ok_def hsum_def staging_key_def split: option.splits)

text \<open>No file lies in the directory of a transaction that has staged nothing.\<close>

lemma txn_dir_empty:
  assumes "txn_files_ok H m" and "\<And>state. hget (tm_active m) txn_id = Some state \<Longrightarrow> \<not> ts_staging_dir_created state"
  shows "bytes_in (tm_disk m) (txn_dir m txn_id) = 0"
proof -
  have "{k. hget (tm_disk m) k \<noteq> None \<and> take (length (txn_dir m txn_id)) k = txn_dir m txn_id \<and>
      length (txn_dir m txn_id) < length k} = {}"
  proof (rule ccontr)
    assume "\<not> ?thesis"
    then obtain k c where k: "hget (tm_disk m) k = Some c" "take (length (staging_key m) + 1) k = staging_key m @ [txn_id]"
        "length (staging_key m) + 1 < length k" by (auto simp: txn_dir_def)
    then have "take (length (staging_key m)) k = staging_key m"
      by (metis append_eq_conv_conj le_add1 min_def take_take append_take_drop_id take_append take_all le_refl)
    with txn_fileD [OF assms(1) k(1)] k(3) obtain id' state l where k': "hget (tm_active m) id' = Some state"
        "ts_staging_dir_created state" "k = staging_key m @ id' # stage_path l" by auto
    with k(2) have "id' = txn_id" by simp
    with k' assms(2) show False by blast
  qed
  then show ?thesis by (simp only: bytes_in_def sum.empty)
qed

lemma txn_begin_ok:
  assumes ok: "txn_ok H m" and id: "plain_id txn_id" "hget (tm_active m) txn_id = None"
  shows "txn_ok H (snd (txn_begin txn_id now ns m))"
proof (cases "tm_active_count m \<ge> tm_max_concurrent m")
  case False
  let ?st = "\<lparr>ts_ns = ns, ts_created_at = now, ts_staging_bytes = 0, ts_staging_dir_created = False\<rparr>"
  let ?m = "m\<lparr>tm_active := hput txn_id ?st (tm_active m), tm_active_count := tm_active_count m + 1\<rparr>"
  have m: "snd (txn_begin txn_id now ns m) = ?m" using False by (simp add: txn_begin_def)
  have empty: "bytes_in (tm_disk m) (txn_dir m txn_id) = 0"
    using ok id(2) by (intro txn_dir_empty) (auto simp: txn_ok_def)
  have key: "staging_key ?m = staging_key m" "\<And>i. txn_dir ?m i = txn_dir m i" by (simp_all add: staging_key_def txn_dir_def)
  have files: "txn_files_ok H ?m"
    unfolding txn_files_ok_def key
  proof (intro allI impI)
    fix k c
    assume k: "hget (tm_disk ?m) k = Some c" "take (length (staging_key m)) k = staging_key m" "length (staging_key m) + 2 \<le> length k"
    have "txn_files_ok H m" using ok by (simp add: txn_ok_def)
    from txn_fileD [OF this _ k(2,3)] k(1) obtain i st l where i: "hget (tm_active m) i = Some st" "ts_staging_dir_created st"
        "addresses H l c" "k = staging_key m @ i # stage_path l" by auto
    then have "i \<noteq> txn_id" using id(2) by auto
    with i show "\<exists>i st l. hget (tm_active ?m) i = Some st \<and> ts_staging_dir_created st \<and> addresses H l c \<and>
        k = staging_key m @ i # stage_path l" by (intro exI [of _ i] exI [of _ st] exI [of _ l]) simp
  qed
  have "unat (tm_active_count m + 1) = unat (tm_active_count m) + 1" "tm_active_count m + 1 \<le> tm_max_concurrent m"
    using False unat_inc [of "tm_active_count m"] by (auto simp: not_le inc_le)
  then show ?thesis
    using ok id empty files hsum_put [of "\<lambda>st. unat (ts_staging_bytes st)" txn_id ?st "tm_active m"]
      hsum_put [of "\<lambda>_. 1" txn_id ?st "tm_active m"]
    unfolding m by (simp add: txn_ok_def key)
qed (use ok in \<open>simp add: txn_begin_def\<close>)

lemma txn_ok_parts:
  assumes "txn_ok H m"
  shows "hm_ok (tm_active m)" "hm_ok (tm_disk m)" "txn_files_ok H m"
    and "\<And>i st. hget (tm_active m) i = Some st \<Longrightarrow> plain_id i"
    and "\<And>i st. hget (tm_active m) i = Some st \<Longrightarrow> unat (ts_staging_bytes st) = bytes_in (tm_disk m) (txn_dir m i)"
    and "\<And>i st. hget (tm_active m) i = Some st \<Longrightarrow> ts_staging_bytes st \<le> tm_max_bytes_per_txn m"
    and "unat (tm_total_staging_bytes m) = hsum (\<lambda>st. unat (ts_staging_bytes st)) (tm_active m)"
    and "tm_total_staging_bytes m \<le> tm_max_bytes_global m"
    and "unat (tm_active_count m) = hsum (\<lambda>_. 1) (tm_active m)" "tm_active_count m \<le> tm_max_concurrent m"
    and "unat (tm_max_bytes_per_txn m) < 2 ^ 63" "unat (tm_max_bytes_global m) < 2 ^ 63"
  using assms by (simp_all add: txn_ok_def)

lemma txn_mark_ok:
  assumes ok: "txn_ok H m" and st: "hget (tm_active m) i = Some st"
  shows "txn_ok H (m\<lparr>tm_active := hput i (st\<lparr>ts_staging_dir_created := True\<rparr>) (tm_active m)\<rparr>)" (is "txn_ok H ?m")
proof -
  note p = txn_ok_parts [OF ok]
  have key: "staging_key ?m = staging_key m" "\<And>j. txn_dir ?m j = txn_dir m j" by (simp_all add: staging_key_def txn_dir_def)
  have "txn_files_ok H ?m"
    unfolding txn_files_ok_def key
  proof (intro allI impI)
    fix k c
    assume k: "hget (tm_disk ?m) k = Some c" "take (length (staging_key m)) k = staging_key m" "length (staging_key m) + 2 \<le> length k"
    from txn_fileD [OF p(3) _ k(2,3)] k(1) obtain j st' l where j: "hget (tm_active m) j = Some st'" "ts_staging_dir_created st'"
        "addresses H l c" "k = staging_key m @ j # stage_path l" by auto
    show "\<exists>j st l. hget (tm_active ?m) j = Some st \<and> ts_staging_dir_created st \<and> addresses H l c \<and>
        k = staging_key m @ j # stage_path l"
      by (intro exI [of _ j] exI [of _ "if j = i then st\<lparr>ts_staging_dir_created := True\<rparr> else st'"] exI [of _ l])
        (simp add: j)
  qed
  moreover have "hsum f (hput i (st\<lparr>ts_staging_dir_created := True\<rparr>) (tm_active m)) = hsum f (tm_active m)"
    if "f (st\<lparr>ts_staging_dir_created := True\<rparr>) = f st" for f :: "TransactionState \<Rightarrow> nat"
    using hsum_put [of f i "st\<lparr>ts_staging_dir_created := True\<rparr>" "tm_active m"] st that by simp
  ultimately show ?thesis
    using p st unfolding txn_ok_def key by simp
qed

lemma tmp_key:
  assumes "valid_label k" and "plain_id i"
  shows "fs_key (with_extension (blob_path_in (staging_dir m i) k) ''tmp'') =
    staging_key m @ i # butlast (stage_path k) @ [k @ ''.tmp'']"
proof -
  note v = stage_path_valid [OF assms(1)]
  have ne: "stage_path k \<noteq> []" using v(3) by auto
  have "with_extension (blob_path_in (staging_dir m i) k) ''tmp'' = staging_dir m i @ butlast (stage_path k) @ [k @ ''.tmp'']"
    using ne v(4,5) by (simp add: with_extension_def v(1) butlast_append file_stem_plain)
  moreover have "''..'' \<notin> set (butlast (stage_path k) @ [k @ ''.tmp''])"
    using v(2) in_set_butlastD [of "''..''" "stage_path k"] by (auto simp: append_eq_Cons_conv)
  ultimately show ?thesis
    using fs_key_append fs_key_staging_dir [OF assms(2), of m] by (simp add: txn_dir_def)
qed

lemma staging_key_prefix [simp]:
  "take (length (staging_key m)) (staging_key m @ q) = staging_key m"
  "take (length (txn_dir m i)) (staging_key m @ j # q) = txn_dir m i \<longleftrightarrow> j = i"
  by (simp_all add: txn_dir_def)

lemma no_tmp_file:
  assumes ok: "txn_ok H m" and H: "hashes_ok H" and "valid_label k"
  shows "hget (tm_disk m) (staging_key m @ i # butlast (stage_path k) @ [k @ ''.tmp'']) = None" (is "hget _ ?t = None")
proof (rule ccontr)
  assume "hget (tm_disk m) ?t \<noteq> None"
  then obtain c where c: "hget (tm_disk m) ?t = Some c" by blast
  have "length (staging_key m) + 2 \<le> length ?t" by simp
  from txn_fileD [OF txn_ok_parts(3) [OF ok] c _ this] obtain j l
    where l: "addresses H l c" "?t = staging_key m @ j # stage_path l" by auto
  have valid: "valid_label l" using H l(1) by (rule addresses_valid)
  have "last ?t = k @ ''.tmp''" by simp
  moreover have "last ?t = l" using l(2) stage_path_valid(3,4) [OF valid] by (auto simp: last_append)
  ultimately show False using stage_path_valid(5) [OF valid] by auto
qed

lemma stage_path_inject:
  assumes "valid_label k" and "valid_label l"
  shows "stage_path k = stage_path l \<longleftrightarrow> k = l"
  using stage_path_valid(4) [OF assms(1)] stage_path_valid(4) [OF assms(2)] by metis

lemma txn_write_ok:
  assumes H: "hashes_ok H" and ok: "txn_ok H m" and st: "hget (tm_active m) i = Some st" "ts_staging_dir_created st"
    and k: "addresses H k c" "staged m i k = None" and len: "length c < 2 ^ 63"
    and lim: "ts_staging_bytes st + word_of_nat (length c) \<le> tm_max_bytes_per_txn m"
      "tm_total_staging_bytes m + word_of_nat (length c) \<le> tm_max_bytes_global m"
  shows "\<exists>d. write_then_rename (blob_path_in (staging_dir m i) k) c (tm_disk m) = Ok d \<and>
    (let m' = m\<lparr>tm_disk := d,
        tm_active := hput i (st\<lparr>ts_staging_bytes := ts_staging_bytes st + word_of_nat (length c)\<rparr>) (tm_active m),
        tm_total_staging_bytes := tm_total_staging_bytes m + word_of_nat (length c)\<rparr>
     in txn_ok H m' \<and> staged m' = (staged m)(i := (staged m i)(k \<mapsto> c)))"
proof -
  note p = txn_ok_parts [OF ok]
  let ?n = "word_of_nat (length c) :: u64" and ?key = "staging_key m @ i # stage_path k"
  have valid: "valid_label k" using H k(1) by (rule addresses_valid)
  have plain: "plain_id i" using p(4) st(1) by blast
  from write_then_rename_ok [of "blob_path_in (staging_dir m i) k" c "tm_disk m"]
  obtain d where d: "write_then_rename (blob_path_in (staging_dir m i) k) c (tm_disk m) = Ok d" "hm_ok d"
    and get: "\<And>q. hget d q = (if q = ?key then Some c else hget (tm_disk m) q)"
    using p(2) no_tmp_file [OF ok H valid, of i] unfolding fs_key_staged [OF plain valid] tmp_key [OF valid plain] by auto
  define st' where "st' = st\<lparr>ts_staging_bytes := ts_staging_bytes st + ?n\<rparr>"
  define m' where "m' = m\<lparr>tm_disk := d, tm_active := hput i st' (tm_active m), tm_total_staging_bytes := tm_total_staging_bytes m + ?n\<rparr>"
  have key: "staging_key m' = staging_key m" "\<And>j. txn_dir m' j = txn_dir m j" by (simp_all add: m'_def staging_key_def txn_dir_def)
  have bytes: "bytes_in d (txn_dir m j) = bytes_in (tm_disk m) (txn_dir m j) + (if j = i then length c else 0)" for j
    using bytes_in_put [of "tm_disk m" ?key d c "txn_dir m j"] get k(2) valid stage_path_valid(3) [OF valid]
    by (auto simp: staged_def txn_dir_def)
  have s63: "unat (ts_staging_bytes st) < 2 ^ 63" "unat (tm_total_staging_bytes m) < 2 ^ 63"
    using p(6) [OF st(1)] p(8,11,12) by (auto simp: word_le_nat_alt)
  have files: "txn_files_ok H m'"
    unfolding txn_files_ok_def key
  proof (intro allI impI)
    fix q c'
    assume q: "hget (tm_disk m') q = Some c'" "take (length (staging_key m)) q = staging_key m" "length (staging_key m) + 2 \<le> length q"
    show "\<exists>j st l. hget (tm_active m') j = Some st \<and> ts_staging_dir_created st \<and> addresses H l c' \<and>
        q = staging_key m @ j # stage_path l"
    proof (cases "q = ?key")
      case True
      then show ?thesis using q(1) k(1) st(2)
        by (intro exI [of _ i] exI [of _ st'] exI [of _ k]) (auto simp: m'_def get st'_def)
    next
      case False
      with q(1) have "hget (tm_disk m) q = Some c'" by (simp add: m'_def get)
      from txn_fileD [OF p(3) this q(2,3)] obtain j sj l where j: "hget (tm_active m) j = Some sj" "ts_staging_dir_created sj"
          "addresses H l c'" "q = staging_key m @ j # stage_path l" by blast
      then show ?thesis using st
        by (intro exI [of _ j] exI [of _ "if j = i then st' else sj"] exI [of _ l]) (auto simp: m'_def st'_def)
    qed
  qed
  have "hsum (\<lambda>st. unat (ts_staging_bytes st)) (tm_active m') = hsum (\<lambda>st. unat (ts_staging_bytes st)) (tm_active m) + length c"
    using hsum_put [of "\<lambda>st. unat (ts_staging_bytes st)" i st' "tm_active m"] st(1) unat_add_len [OF s63(1) len]
    by (simp add: m'_def st'_def)
  moreover have "hsum (\<lambda>_. 1) (tm_active m') = hsum (\<lambda>_. 1) (tm_active m)"
    using hsum_put [of "\<lambda>_. 1" i st' "tm_active m"] st(1) by (simp add: m'_def)
  ultimately have "txn_ok H m'"
    using p st(1) files bytes lim d(2) unat_add_len [OF s63(1) len] unat_add_len [OF s63(2) len]
    unfolding txn_ok_def key by (auto simp: m'_def st'_def)
  moreover have "staged m' j l = ((staged m)(i := (staged m i)(k \<mapsto> c))) j l" for j l
    using valid stage_path_inject [of l k] by (auto simp: staged_def key) (auto simp: m'_def get)
  ultimately show ?thesis using d(1) unfolding m'_def st'_def Let_def by blast
qed

lemma staged_exists:
  assumes "plain_id i" and "valid_label k"
  shows "fs_exists (tm_disk m) (blob_path_in (staging_dir m i) k) \<longleftrightarrow> staged m i k \<noteq> None"
  using assms by (simp add: fs_exists_def fs_read_def fs_key_staged staged_def)

lemma staged_active [simp]: "staged (m\<lparr>tm_active := a\<rparr>) = staged m"
  by (simp add: staged_def fun_eq_iff staging_key_def)

lemma txn_put_spec:
  assumes H: "hashes_ok H" and ok: "txn_ok H m" and len: "length c < 2 ^ 63"
  shows "\<exists>r m'. txn_put H i k c m = (r, m') \<and> txn_ok H m' \<and>
    (case r of
       Ok new \<Rightarrow> addresses H k c \<and> hget (tm_active m) i \<noteq> None \<and> new = (staged m i k = None) \<and>
         staged m' = (staged m)(i := absorb k c (staged m i))
     | Err e \<Rightarrow> m' = m
     | Panic \<Rightarrow> False)"
proof (cases "addresses H k c \<and> hget (tm_active m) i \<noteq> None")
  case False
  have "verify_kappa H k c \<noteq> Panic" using H by (rule verify_kappa_not_Panic)
  then show ?thesis
    using False ok addresses_verify [OF H, of k c]
    by (auto simp: txn_put_def Let_def split: result.splits bool.splits option.splits)
next
  case True
  then obtain st where st: "hget (tm_active m) i = Some st" by blast
  have v: "verify_kappa H k c = Ok True" "valid_label k" "plain_id i"
    using True addresses_verify [OF H] addresses_valid [OF H] txn_ok_parts(4) [OF ok st] by auto
  let ?n = "word_of_nat (length c) :: u64" and ?st = "st\<lparr>ts_staging_dir_created := True\<rparr>"
  let ?m1 = "m\<lparr>tm_active := hput i ?st (tm_active m)\<rparr>"
  have ok1: "txn_ok H ?m1" using ok st by (rule txn_mark_ok)
  have dir: "staging_dir ?m1 i = staging_dir m i" by (simp add: staging_dir_def)
  have put: "txn_put H i k c m =
      (if ts_staging_bytes st + ?n > tm_max_bytes_per_txn m then (Err (PerTxnLimitExceeded (tm_max_bytes_per_txn m)), m)
       else if tm_total_staging_bytes m + ?n > tm_max_bytes_global m then (Err (GlobalLimitExceeded (tm_max_bytes_global m)), m)
       else if staged m i k \<noteq> None then (Ok False, ?m1)
       else sbind (map_err TxIo (write_then_rename (blob_path_in (staging_dir ?m1 i) k) c (tm_disk ?m1)), ?m1) (\<lambda>d m.
                 (Ok True, m\<lparr>tm_disk := d, tm_active := hput i (?st\<lparr>ts_staging_bytes := ts_staging_bytes ?st + ?n\<rparr>) (tm_active m),
                    tm_total_staging_bytes := tm_total_staging_bytes m + ?n\<rparr>)))"
    using v st staged_exists [OF v(3,2), of m] by (simp add: txn_put_def Let_def dir)
  consider "ts_staging_bytes st + ?n > tm_max_bytes_per_txn m \<or> tm_total_staging_bytes m + ?n > tm_max_bytes_global m"
    | "\<not> ts_staging_bytes st + ?n > tm_max_bytes_per_txn m" "\<not> tm_total_staging_bytes m + ?n > tm_max_bytes_global m" "staged m i k \<noteq> None"
    | "\<not> ts_staging_bytes st + ?n > tm_max_bytes_per_txn m" "\<not> tm_total_staging_bytes m + ?n > tm_max_bytes_global m" "staged m i k = None"
    by blast
  then show ?thesis
  proof cases
    case 1
    then show ?thesis using ok by (auto simp: put)
  next
    case 2
    then show ?thesis using ok1 True by (auto simp: put absorb_def)
  next
    case 3
    have pre: "hget (tm_active ?m1) i = Some ?st" "ts_staging_dir_created ?st" "addresses H k c" "staged ?m1 i k = None"
        "ts_staging_bytes ?st + ?n \<le> tm_max_bytes_per_txn ?m1" "tm_total_staging_bytes ?m1 + ?n \<le> tm_max_bytes_global ?m1"
      using 3 True by (simp_all add: not_less)
    from txn_write_ok [OF H ok1 pre(1-4) len pre(5,6)] obtain d
      where d: "write_then_rename (blob_path_in (staging_dir ?m1 i) k) c (tm_disk ?m1) = Ok d"
        "let m' = ?m1\<lparr>tm_disk := d,
          tm_active := hput i (?st\<lparr>ts_staging_bytes := ts_staging_bytes ?st + ?n\<rparr>) (tm_active ?m1),
          tm_total_staging_bytes := tm_total_staging_bytes ?m1 + ?n\<rparr>
         in txn_ok H m' \<and> staged m' = (staged ?m1)(i := (staged ?m1 i)(k \<mapsto> c))"
      by blast
    then show ?thesis using 3 True by (simp add: put absorb_def Let_def del: not_less)
  qed
qed

lemma txn_drop_ok:
  assumes ok: "txn_ok H m" and st: "hget (tm_active m) i = Some st"
  defines "m' \<equiv> cleanup i (m\<lparr>tm_disk := fs_remove_dir_all (staging_dir m i) (tm_disk m),
           tm_total_staging_bytes := tm_total_staging_bytes m - ts_staging_bytes st\<rparr>)"
  shows "txn_ok H m'" and "staged m' = (staged m)(i := \<lambda>_. None)" and "tm_active m' = hdel i (tm_active m)"
proof -
  note p = txn_ok_parts [OF ok]
  have plain: "plain_id i" using p(4) st by blast
  have m': "m' = m\<lparr>tm_disk := fs_remove_dir_all (staging_dir m i) (tm_disk m),
      tm_total_staging_bytes := tm_total_staging_bytes m - ts_staging_bytes st, tm_active := hdel i (tm_active m),
      tm_active_count := tm_active_count m - 1\<rparr>"
    using st by (simp add: m'_def cleanup_def)
  have key: "staging_key m' = staging_key m" "\<And>j. txn_dir m' j = txn_dir m j" by (simp_all add: m' staging_key_def txn_dir_def)
  have get: "hget (tm_disk m') q = (if take (length (txn_dir m i)) q = txn_dir m i \<and> length (txn_dir m i) < length q then None
      else hget (tm_disk m) q)" for q
    using hget_remove_dir_all [OF p(2)] fs_key_staging_dir [OF plain, of m] by (simp add: m')
  show active: "tm_active m' = hdel i (tm_active m)" by (simp add: m')
  have files: "txn_files_ok H m'"
    unfolding txn_files_ok_def key
  proof (intro allI impI)
    fix q c
    assume q: "hget (tm_disk m') q = Some c" "take (length (staging_key m)) q = staging_key m" "length (staging_key m) + 2 \<le> length q"
    from q(1) have "hget (tm_disk m) q = Some c" by (simp add: get split: if_splits)
    from txn_fileD [OF p(3) this q(2,3)] obtain j sj l where j: "hget (tm_active m) j = Some sj" "ts_staging_dir_created sj"
        "addresses H l c" "q = staging_key m @ j # stage_path l" by blast
    moreover have "j \<noteq> i" using q(1,3) j(4) by (cases "stage_path l") (auto simp: get txn_dir_def)
    ultimately show "\<exists>j st l. hget (tm_active m') j = Some st \<and> ts_staging_dir_created st \<and> addresses H l c \<and>
        q = staging_key m @ j # stage_path l" by (auto simp: active)
  qed
  have bytes: "bytes_in (tm_disk m') (txn_dir m j) = (if j = i then 0 else bytes_in (tm_disk m) (txn_dir m j))" for j
    using bytes_in_remove [OF p(2), of "txn_dir m j" "staging_dir m i"] fs_key_staging_dir [OF plain, of m]
    by (simp add: m' txn_dir_def)
  have sums: "hsum f (tm_active m') + f st = hsum f (tm_active m)" for f
    using hsum_del [of f i "tm_active m"] st by (simp add: active)
  have "unat (tm_total_staging_bytes m - ts_staging_bytes st) = unat (tm_total_staging_bytes m) - unat (ts_staging_bytes st)"
    using sums [of "\<lambda>st. unat (ts_staging_bytes st)"] p(7) by (simp add: unat_sub word_le_nat_alt)
  moreover have "unat (tm_active_count m - 1) = unat (tm_active_count m) - 1"
    using sums [of "\<lambda>_. 1"] p(9) by (simp add: unat_sub word_le_nat_alt)
  moreover have "hm_ok (tm_disk m')" using p(2) by (simp add: m' fs_remove_dir_all_def)
  ultimately show "txn_ok H m'"
    using p files bytes sums [of "\<lambda>st. unat (ts_staging_bytes st)"] sums [of "\<lambda>_. 1"]
    unfolding txn_ok_def key by (auto simp: m' word_le_nat_alt split: if_splits)
  have "staged m' j l = ((staged m)(i := \<lambda>_. None)) j l" for j l
    using stage_path_valid(3) [of l] by (auto simp: staged_def key get) (auto simp: txn_dir_def)
  then show "staged m' = (staged m)(i := \<lambda>_. None)" by (intro ext)
qed

section \<open>What a commit promotes\<close>

text \<open>What a commit relies on: ingesting content under a label of it succeeds and only adds blobs.\<close>

locale ingest_store =
  fixes inv :: "'s \<Rightarrow> bool"
    and address :: "string \<Rightarrow> bytes \<Rightarrow> bool"
    and canonical :: "bytes \<Rightarrow> string"
    and contents :: "'s \<Rightarrow> string \<Rightarrow> bytes option"
    and ingest :: "string \<Rightarrow> bytes \<Rightarrow> 's \<Rightarrow> (IngestResult, StoreError, 's) stateful"
  assumes ingest_law: "inv s \<Longrightarrow> address k c \<Longrightarrow>
    \<exists>r s'. ingest k c s = (Ok r, s') \<and> inv s' \<and> contents s' = absorb (canonical c) c (absorb k c (contents s))"
begin

lemma promote_contents:
  assumes "inv s" and "\<And>k p. (k, p) \<in> set xs \<Longrightarrow> \<exists>c. hget d p = Some c \<and> address k c"
  shows "\<exists>s'. promote ingest d xs s = (Ok (map fst xs), s') \<and> inv s' \<and>
    (\<forall>k. contents s k \<noteq> None \<longrightarrow> contents s' k = contents s k) \<and>
    (\<forall>(k, p) \<in> set xs. contents s' k \<noteq> None) \<and>
    (\<forall>k c. contents s' k = Some c \<longrightarrow> contents s k = Some c \<or>
       (\<exists>(l, p) \<in> set xs. hget d p = Some c \<and> (k = l \<or> k = canonical c)))"
  using assms
proof (induction xs arbitrary: s)
  case (Cons x xs)
  obtain k p where x: "x = (k, p)" by (cases x)
  from Cons.prems(2) [of k p] obtain c where c: "hget d p = Some c" "address k c" by (auto simp: x)
  from ingest_law [OF Cons.prems(1) c(2)] obtain r s1
    where s1: "ingest k c s = (Ok r, s1)" "inv s1" "contents s1 = absorb (canonical c) c (absorb k c (contents s))" by blast
  from Cons.IH [OF s1(2)] Cons.prems(2) obtain s'
    where s': "promote ingest d xs s1 = (Ok (map fst xs), s')" "inv s'"
      "\<forall>k. contents s1 k \<noteq> None \<longrightarrow> contents s' k = contents s1 k" "\<forall>(k, p) \<in> set xs. contents s' k \<noteq> None"
      "\<forall>k c. contents s' k = Some c \<longrightarrow> contents s1 k = Some c \<or>
         (\<exists>(l, p) \<in> set xs. hget d p = Some c \<and> (k = l \<or> k = canonical c))" by auto
  have "promote ingest d (x # xs) s = (Ok (map fst (x # xs)), s')" using s1(1) s'(1) c(1) by (simp add: x)
  moreover have "contents s' q = contents s q" if "contents s q \<noteq> None" for q
    using that s'(3) by (auto simp: s1(3) absorb_apply)
  moreover have "contents s1 k \<noteq> None" by (simp add: s1(3) absorb_apply)
  then have "contents s' k \<noteq> None" using s'(3) by auto
  moreover have "contents s q = Some b \<or> (\<exists>(l, p) \<in> set (x # xs). hget d p = Some b \<and> (q = l \<or> q = canonical b))"
    if "contents s' q = Some b" for q b
    using s'(5) [rule_format, OF that] c(1) by (auto simp: s1(3) absorb_apply x split: if_splits)
  ultimately show ?case using s'(2,4) by (auto simp: x)
qed auto

end

interpretation mem_ingest: ingest_store "blob_inv H" "addresses H" "kappa_text H Sha256" blobs "ingest_verified H"
  for H :: "('x) hashes_scheme"
proof unfold_locales
  fix s k c
  assume "blob_inv H s" "addresses H k c"
  then show "\<exists>r s'. ingest_verified H k c s = (Ok r, s') \<and> blob_inv H s' \<and>
      blobs s' = absorb (kappa_text H Sha256 c) c (absorb k c (blobs s))"
    using ingest_verified_eq [of H s k c] by (auto simp: blob_inv_def)
qed

lemma hm_entry: "hm_ok d \<Longrightarrow> (k, v) \<in> set d \<longleftrightarrow> hget d k = Some v"
  by (simp add: hm_ok_def hget_def)

lemma stage_path_blobs:
  assumes "valid_label k"
  shows "\<exists>a b. stage_path k = [''blobs'', a, b, k]"
proof -
  from assms obtain a ds where "length ds = digest_bytes a" "k = label_text a ds" by (rule valid_labelE)
  then show ?thesis by (simp add: stage_path_text)
qed

text \<open>The entry of the listing that a staged file gives.\<close>

definition staged_entry :: "path \<Rightarrow> path \<Rightarrow> (string \<times> path) option" where
  "staged_entry root k =
     (if take (length root) k = root \<and> length k = length root + 3 \<and>
         \<not> ends_with (last k) ''.meta'' \<and> \<not> ends_with (last k) ''.tmp'' \<and> CHR '':'' \<in> set (last k)
      then Some (last k, k) else None)"

lemma staged_entry_iff:
  assumes H: "hashes_ok H" and ok: "txn_ok H m" and q: "hget (tm_disk m) q = Some c"
  shows "staged_entry (txn_dir m i @ [''blobs'']) q = Some (k, p) \<longleftrightarrow>
    staged m i k = Some c \<and> q = staging_key m @ i # stage_path k \<and> p = q"
proof
  assume e: "staged_entry (txn_dir m i @ [''blobs'']) q = Some (k, p)"
  then have len: "length q = length (staging_key m) + 5" and pre: "take (length (staging_key m) + 2) q = staging_key m @ [i, ''blobs'']"
    and k: "k = last q" "p = q" by (auto simp: staged_entry_def txn_dir_def split: if_splits)
  have "take (length (staging_key m)) q = take (length (staging_key m)) (take (length (staging_key m) + 2) q)" by simp
  then have t: "take (length (staging_key m)) q = staging_key m" unfolding pre by simp
  from txn_fileD [OF txn_ok_parts(3) [OF ok] q t] len obtain j l
    where j: "addresses H l c" "q = staging_key m @ j # stage_path l" by auto
  have v: "valid_label l" using H j(1) by (rule addresses_valid)
  have "j = i" using pre by (simp add: j(2))
  moreover have "k = l" using stage_path_blobs [OF v] by (auto simp: k(1) j(2))
  ultimately show "staged m i k = Some c \<and> q = staging_key m @ i # stage_path k \<and> p = q"
    using v j(2) q k(2) by (simp add: staged_def)
next
  assume r: "staged m i k = Some c \<and> q = staging_key m @ i # stage_path k \<and> p = q"
  then have v: "valid_label k" by (simp add: staged_def split: if_splits)
  from stage_path_blobs [OF v] obtain a b where s: "stage_path k = [''blobs'', a, b, k]" by blast
  have "\<not> ends_with k (CHR ''.'' # x)" for x
    using stage_path_valid(5) [OF v] ends_with_set [of k "CHR ''.'' # x"] by auto
  then show "staged_entry (txn_dir m i @ [''blobs'']) q = Some (k, p)"
    using r stage_path_valid(6) [OF v] by (simp add: staged_entry_def txn_dir_def s)
qed

lemma list_staged_eq:
  assumes H: "hashes_ok H" and ok: "txn_ok H m" and st: "hget (tm_active m) i = Some st"
  shows "set (list_staged_blobs (staging_dir m i) (tm_disk m)) =
      {(k, staging_key m @ i # stage_path k) |k. staged m i k \<noteq> None}"
    and "sorted (map fst (list_staged_blobs (staging_dir m i) (tm_disk m)))"
    and "distinct (map fst (list_staged_blobs (staging_dir m i) (tm_disk m)))"
proof -
  note p = txn_ok_parts [OF ok]
  let ?f = "\<lambda>e. staged_entry (txn_dir m i @ [''blobs'']) (fst e)"
  let ?ys = "List.map_filter ?f (tm_disk m)"
  have root: "fs_key (path_join (staging_dir m i) ''blobs'') = txn_dir m i @ [''blobs'']"
    using fs_key_append [of "[''blobs'']" "staging_dir m i"] fs_key_staging_dir [OF p(4) [OF st], of m]
    by (simp add: path_join_plain)
  have eq: "list_staged_blobs (staging_dir m i) (tm_disk m) = sort_key fst ?ys"
    unfolding list_staged_blobs_def Let_def root by (simp add: staged_entry_def case_prod_beta')
  have mem: "(k, q) \<in> set ?ys \<longleftrightarrow> staged m i k \<noteq> None \<and> q = staging_key m @ i # stage_path k" for k q
  proof
    assume "(k, q) \<in> set ?ys"
    then obtain q' c where "(q', c) \<in> set (tm_disk m)" "?f (q', c) = Some (k, q)" by (auto simp: map_filter_mem)
    then show "staged m i k \<noteq> None \<and> q = staging_key m @ i # stage_path k"
      using staged_entry_iff [OF H ok, of q' c i k q] hm_entry [OF p(2)] by auto
  next
    assume r: "staged m i k \<noteq> None \<and> q = staging_key m @ i # stage_path k"
    then obtain c where c: "staged m i k = Some c" by blast
    then have q: "hget (tm_disk m) q = Some c" using r by (simp add: staged_def split: if_splits)
    then have "?f (q, c) = Some (k, q)" using staged_entry_iff [OF H ok q, of i k q] r c by simp
    then show "(k, q) \<in> set ?ys"
      unfolding map_filter_mem using q hm_entry [OF p(2), of q c] by blast
  qed
  then show "set (list_staged_blobs (staging_dir m i) (tm_disk m)) =
      {(k, staging_key m @ i # stage_path k) |k. staged m i k \<noteq> None}"
    by (auto simp: eq)
  show "sorted (map fst (list_staged_blobs (staging_dir m i) (tm_disk m)))" by (simp add: eq)
  have "distinct ?ys"
  proof (rule distinct_map_filter)
    show "distinct (tm_disk m)" using p(2) by (simp add: hm_ok_def distinct_map)
    fix x y z
    assume xy: "x \<in> set (tm_disk m)" "y \<in> set (tm_disk m)" "?f x = Some z" "?f y = Some z"
    then have "fst x = fst y" by (auto simp: staged_entry_def split: if_splits)
    moreover have "hget (tm_disk m) (fst x) = Some (snd x)" "hget (tm_disk m) (fst y) = Some (snd y)"
      using xy(1,2) hm_entry [OF p(2), of "fst x" "snd x"] hm_entry [OF p(2), of "fst y" "snd y"] by simp_all
    ultimately show "x = y" by (simp add: prod_eq_iff)
  qed
  moreover have "inj_on fst (set ?ys)" using mem by (auto intro!: inj_onI)
  ultimately show "distinct (map fst (list_staged_blobs (staging_dir m i) (tm_disk m)))"
    by (simp add: eq distinct_map)
qed

lemma txn_unstaged:
  assumes ok: "txn_ok H m" and H: "hashes_ok H" and st: "hget (tm_active m) i = Some st" "\<not> ts_staging_dir_created st"
  shows "cleanup i m = cleanup i (m\<lparr>tm_disk := fs_remove_dir_all (staging_dir m i) (tm_disk m),
      tm_total_staging_bytes := tm_total_staging_bytes m - ts_staging_bytes st\<rparr>)"
    and "staged m i k = None"
proof -
  note p = txn_ok_parts [OF ok]
  have none: "\<not> (take (length (txn_dir m i)) q = txn_dir m i \<and> length (txn_dir m i) < length q)" if "(q, c) \<in> set (tm_disk m)" for q c
  proof
    assume q: "take (length (txn_dir m i)) q = txn_dir m i \<and> length (txn_dir m i) < length q"
    have "take (length (staging_key m)) q = take (length (staging_key m)) (take (length (txn_dir m i)) q)"
      by (simp add: txn_dir_def)
    then have t: "take (length (staging_key m)) q = staging_key m" unfolding conjunct1 [OF q] by (simp add: txn_dir_def)
    from txn_fileD [OF p(3) _ t, of c] that hm_entry [OF p(2)] q obtain j sj l
      where j: "hget (tm_active m) j = Some sj" "ts_staging_dir_created sj" "q = staging_key m @ j # stage_path l"
      by (auto simp: txn_dir_def)
    then have "j = i" using q by (simp add: txn_dir_def)
    with j(1,2) st show False by simp
  qed
  have "fs_remove_dir_all (staging_dir m i) (tm_disk m) = tm_disk m"
    unfolding fs_remove_dir_all_def hretain_def fs_key_staging_dir [OF p(4) [OF st(1)]]
    using none by (intro filter_True) auto
  moreover have "ts_staging_bytes st = 0"
    using p(5) [OF st(1)] txn_dir_empty [OF p(3), of i] st by (simp add: unat_eq_zero)
  ultimately show "cleanup i m = cleanup i (m\<lparr>tm_disk := fs_remove_dir_all (staging_dir m i) (tm_disk m),
      tm_total_staging_bytes := tm_total_staging_bytes m - ts_staging_bytes st\<rparr>)" by simp
  show "staged m i k = None"
  proof (rule ccontr)
    assume "staged m i k \<noteq> None"
    then obtain c where "valid_label k" "hget (tm_disk m) (staging_key m @ i # stage_path k) = Some c"
      by (auto simp: staged_def split: if_splits)
    then show False
      using none [of "staging_key m @ i # stage_path k" c] hm_entry [OF p(2)] stage_path_valid(3) [of k]
      by (auto simp: txn_dir_def)
  qed
qed

lemma commit_manager:
  assumes "hashes_ok H" and "txn_ok H m" and "commit ingest i (m, s) = (r, (m', s'))"
  shows "txn_ok H m'"
proof (cases "hget (tm_active m) i")
  case (Some st)
  note drop = txn_drop_ok [OF assms(2) Some]
  have "m' = m \<or> m' = cleanup i m \<and> \<not> ts_staging_dir_created st \<or>
      m' = cleanup i (m\<lparr>tm_disk := fs_remove_dir_all (staging_dir m i) (tm_disk m),
           tm_total_staging_bytes := tm_total_staging_bytes m - ts_staging_bytes st\<rparr>)"
    using assms(3) Some by (auto simp: commit_def split: if_splits prod.splits result.splits)
  then show ?thesis
    using assms(2) drop(1) txn_unstaged(1) [OF assms(2,1) Some] by auto
qed (use assms in \<open>simp add: commit_def\<close>)

lemma abort_ok: "txn_ok H m \<Longrightarrow> txn_ok H (snd (abort i m))"
  using txn_drop_ok(1) [of H m i] by (cases "hget (tm_active m) i") (auto simp: abort_def)

lemma evict_ok: "txn_ok H m \<Longrightarrow> txn_ok H (snd (evict_expired now m))"
proof -
  assume ok: "txn_ok H m"
  have "txn_ok H m \<Longrightarrow> txn_ok H (fold (\<lambda>i m. snd (abort i m)) is m)" for "is" m
    by (induction "is" arbitrary: m) (auto simp: abort_ok)
  with ok show ?thesis by (simp add: evict_expired_def Let_def)
qed

inductive txn_reachable :: "('x) hashes_scheme \<Rightarrow> TransactionManager \<Rightarrow> bool" for H where
  fresh: "hm_ok d \<Longrightarrow> unat per < 2 ^ 63 \<Longrightarrow> unat global < 2 ^ 63 \<Longrightarrow>
    txn_reachable H (txn_new root conc per global timeout d)"
| start: "txn_reachable H m \<Longrightarrow> plain_id i \<Longrightarrow> hget (tm_active m) i = None \<Longrightarrow> txn_reachable H (snd (txn_begin i now ns m))"
| put: "txn_reachable H m \<Longrightarrow> length c < 2 ^ 63 \<Longrightarrow> txn_reachable H (snd (txn_put H i k c m))"
| commit: "txn_reachable H m \<Longrightarrow> commit (ingest_verified H) i (m, s) = (r, (m', s')) \<Longrightarrow> txn_reachable H m'"
| abort: "txn_reachable H m \<Longrightarrow> txn_reachable H (snd (abort i m))"
| evict: "txn_reachable H m \<Longrightarrow> txn_reachable H (snd (evict_expired now m))"

lemma txn_reachable_ok:
  assumes H: "hashes_ok H"
  shows "txn_reachable H m \<Longrightarrow> txn_ok H m"
proof (induction rule: txn_reachable.induct)
  case (put m c i k)
  from txn_put_spec [OF H put.IH put.hyps(2), of i k] show ?case by auto
next
  case (commit m i s r m' s')
  show ?case by (rule commit_manager [OF H commit.IH commit.hyps(2)])
qed (auto simp: txn_new_ok txn_begin_ok abort_ok evict_ok)

text \<open>
  C9. The limits hold for what is on disk. Whatever the sequence of begins, puts, commits, aborts and
  evictions, the bytes staged by a transaction and by all of them stay within the limits, the counters are
  exactly the bytes on disk, at most the allowed number of transactions is active, and every staged
  file belongs to an active transaction and hashes to its name.
\<close>

theorem txn_limits:
  assumes "hashes_ok H" and "txn_reachable H m"
  shows "unat (tm_total_staging_bytes m) = (\<Sum>i | hget (tm_active m) i \<noteq> None. bytes_in (tm_disk m) (txn_dir m i)) \<and>
    tm_total_staging_bytes m \<le> tm_max_bytes_global m \<and>
    card {i. hget (tm_active m) i \<noteq> None} \<le> unat (tm_max_concurrent m) \<and>
    (\<forall>i st. hget (tm_active m) i = Some st \<longrightarrow>
       unat (ts_staging_bytes st) = bytes_in (tm_disk m) (txn_dir m i) \<and> ts_staging_bytes st \<le> tm_max_bytes_per_txn m) \<and>
    (\<forall>q c. hget (tm_disk m) (staging_key m @ q) = Some c \<and> 2 \<le> length q \<longrightarrow>
       (\<exists>i k. hget (tm_active m) i \<noteq> None \<and> q = i # stage_path k \<and> verify_kappa H k c = Ok True))"
proof (intro conjI allI impI)
  note p = txn_ok_parts [OF txn_reachable_ok [OF assms]]
  show "unat (tm_total_staging_bytes m) = (\<Sum>i | hget (tm_active m) i \<noteq> None. bytes_in (tm_disk m) (txn_dir m i))"
    unfolding p(7) hsum_def by (rule sum.cong) (auto simp: p(5))
  show "tm_total_staging_bytes m \<le> tm_max_bytes_global m" by (rule p(8))
  show "card {i. hget (tm_active m) i \<noteq> None} \<le> unat (tm_max_concurrent m)"
    using p(9,10) by (simp add: hsum_def word_le_nat_alt)
  fix q c
  assume q: "hget (tm_disk m) (staging_key m @ q) = Some c \<and> 2 \<le> length q"
  from txn_fileD [OF p(3), of "staging_key m @ q" c] q obtain i st l
    where "hget (tm_active m) i = Some st" "addresses H l c" "q = i # stage_path l" by auto
  then show "\<exists>i k. hget (tm_active m) i \<noteq> None \<and> q = i # stage_path k \<and> verify_kappa H k c = Ok True"
    using addresses_verify [OF assms(1), of l c] by auto
qed (use txn_ok_parts(5,6) [OF txn_reachable_ok [OF assms]] in blast)+

text \<open>
  C10. A commit of an active transaction succeeds and promotes exactly what was staged: it returns the staged
  labels in order, each of them is in the main store afterwards, nothing that was there changes, and
  whatever is new is staged content under its label or its SHA-256 label. The transaction is gone and its
  staging area is empty; the other transactions keep theirs.
\<close>

theorem commit_promotes:
  assumes "hashes_ok H" and "txn_reachable H m" and "disk_ok H s" and "hget (tm_active m) i = Some st"
  shows "\<exists>ks m' s'. commit (ingest_verified H) i (m, s) = (Ok ks, (m', s')) \<and>
    sorted ks \<and> distinct ks \<and> set ks = {k. staged m i k \<noteq> None} \<and> (\<forall>k \<in> set ks. blobs s' k \<noteq> None) \<and>
    (\<forall>k. blobs s k \<noteq> None \<longrightarrow> blobs s' k = blobs s k) \<and>
    (\<forall>k c. blobs s' k = Some c \<longrightarrow> blobs s k = Some c \<or>
       (\<exists>l. staged m i l = Some c \<and> (k = l \<or> k = kappa_text H Sha256 c))) \<and>
    staged m' = (staged m)(i := \<lambda>_. None) \<and> tm_active m' = hdel i (tm_active m)"
proof (cases "ts_staging_dir_created st")
  case False
  have ok: "txn_ok H m" using txn_reachable_ok [OF assms(1,2)] .
  note u = txn_unstaged [OF ok assms(1,4) False] and drop = txn_drop_ok [OF ok assms(4)]
  have "commit (ingest_verified H) i (m, s) = (Ok [], (cleanup i m, s))" using False assms(4) by (simp add: commit_def)
  then show ?thesis using u(2) drop(2,3) unfolding u(1) by simp
next
  case True
  have ok: "txn_ok H m" using txn_reachable_ok [OF assms(1,2)] .
  note drop = txn_drop_ok [OF ok assms(4)] and ls = list_staged_eq [OF assms(1) ok assms(4)]
  let ?xs = "list_staged_blobs (staging_dir m i) (tm_disk m)"
  have inv: "blob_inv H s" using assms(1,3) by (simp add: blob_inv_def)
  have entry: "hget (tm_disk m) p = staged m i k \<and> staged m i k \<noteq> None" if "(k, p) \<in> set ?xs" for k p
    using that ls(1) by (auto simp: staged_def split: if_splits)
  have addr: "\<exists>c. hget (tm_disk m) p = Some c \<and> addresses H k c" if "(k, p) \<in> set ?xs" for k p
  proof -
    from that ls(1) have p: "p = staging_key m @ i # stage_path k" by auto
    from entry [OF that] obtain c where c: "staged m i k = Some c" "hget (tm_disk m) p = Some c" by auto
    have "valid_label k" using c(1) by (simp add: staged_def split: if_splits)
    from txn_fileD [OF txn_ok_parts(3) [OF ok] c(2)] p stage_path_valid(3) [OF this] obtain j l
      where l: "addresses H l c" "p = staging_key m @ j # stage_path l" by auto
    have "stage_path k = stage_path l" using p l(2) by simp
    then have "k = l"
      using stage_path_inject [OF \<open>valid_label k\<close> addresses_valid [OF assms(1) l(1)]] by simp
    with l(1) c(2) show ?thesis by auto
  qed
  from mem_ingest.promote_contents [OF inv addr, of ?xs] obtain s'
    where pr: "promote (ingest_verified H) (tm_disk m) ?xs s = (Ok (map fst ?xs), s')"
      "\<forall>k. blobs s k \<noteq> None \<longrightarrow> blobs s' k = blobs s k" "\<forall>(k, p) \<in> set ?xs. blobs s' k \<noteq> None"
      "\<forall>k c. blobs s' k = Some c \<longrightarrow> blobs s k = Some c \<or>
         (\<exists>(l, p) \<in> set ?xs. hget (tm_disk m) p = Some c \<and> (k = l \<or> k = kappa_text H Sha256 c))"
    by blast
  have "set (map fst ?xs) = {k. staged m i k \<noteq> None}" unfolding set_map ls(1) by force
  moreover have "\<forall>k c. blobs s' k = Some c \<longrightarrow> blobs s k = Some c \<or>
       (\<exists>l. staged m i l = Some c \<and> (k = l \<or> k = kappa_text H Sha256 c))"
    using pr(4) entry by fastforce
  moreover have "\<forall>k \<in> set (map fst ?xs). blobs s' k \<noteq> None" using pr(3) by auto
  ultimately show ?thesis
    using pr(1,2) ls(2,3) drop(2,3) True assms(4) by (auto simp: commit_def)
qed

definition sample_manager :: TransactionManager where
  "sample_manager = snd (txn_begin ''t'' 0 ''ns'' (txn_new [''srv''] 4 100 100 60 []))"

lemma sample_manager_eq:
  "sample_manager = \<lparr>tm_active = hput ''t'' \<lparr>ts_ns = ''ns'', ts_created_at = 0, ts_staging_bytes = 0, ts_staging_dir_created = False\<rparr> [],
     tm_active_count = 1, tm_total_staging_bytes = 0, tm_store_root = [''srv''], tm_max_concurrent = 4,
     tm_max_bytes_per_txn = 100, tm_max_bytes_global = 100, tm_timeout_secs = 60, tm_disk = []\<rparr>"
  by (simp add: sample_manager_def txn_begin_def txn_new_def hretain_def)

lemma sample_txn:
  "\<exists>m. txn_reachable sample_crypto m \<and> staged m ''t'' (kappa_text sample_crypto Sha256 [1, 2]) = Some [1, 2] \<and>
     hget (tm_active m) ''t'' \<noteq> None \<and> tm_total_staging_bytes m = 2"
proof -
  have H: "hashes_ok sample_crypto" using sample_crypto_ok by (simp add: externals_ok_def)
  let ?k = "kappa_text sample_crypto Sha256 [1, 2]" and ?m = sample_manager
  have r: "txn_reachable sample_crypto ?m"
    unfolding sample_manager_def
    by (intro txn_reachable.start txn_reachable.fresh) (simp_all add: plain_id_def txn_new_def Let_def)
  have v: "verify_kappa sample_crypto ?k [1, 2] = Ok True"
  proof -
    have "addresses sample_crypto ?k [1, 2]" unfolding addresses_def by (intro exI [of _ Sha256]) simp
    then show ?thesis using addresses_verify [OF H] by blast
  qed
  have len: "length [1, 2 :: 8 word] < 2 ^ 63" by simp
  obtain r' m' where put: "txn_put sample_crypto ''t'' ?k [1, 2] ?m = (r', m')" by (meson surj_pair)
  have "staged ?m ''t'' ?k = None" by (simp add: staged_def sample_manager_eq)
  have m': "tm_total_staging_bytes m' = 2 \<and> r' = Ok True \<and> hget (tm_active m') ''t'' \<noteq> None"
  proof -
    have nil: "fs_read [] p = None" for p by (simp add: fs_read_def)
    have "txn_put sample_crypto ''t'' ?k [1, 2] ?m =
        (Ok True, snd (txn_put sample_crypto ''t'' ?k [1, 2] ?m))"
      "tm_total_staging_bytes (snd (txn_put sample_crypto ''t'' ?k [1, 2] ?m)) = 2"
      "hget (tm_active (snd (txn_put sample_crypto ''t'' ?k [1, 2] ?m))) ''t'' \<noteq> None"
      by (simp_all add: txn_put_def v sample_manager_eq Let_def fs_exists_def nil write_then_rename_def fs_rename_def)
    then show ?thesis using put by simp
  qed
  from txn_put_spec [OF H txn_reachable_ok [OF H r] len, of "''t''" ?k] put m'
  have "staged m' = (staged ?m)(''t'' := absorb ?k [1, 2] (staged ?m ''t''))" by simp
  then have "staged m' ''t'' ?k = Some [1, 2]" using \<open>staged ?m ''t'' ?k = None\<close> by (simp add: absorb_def)
  moreover have "txn_reachable sample_crypto m'" using txn_reachable.put [OF r len, of "''t''" ?k] put by simp
  ultimately show ?thesis using m' by blast
qed

theorem txn_limits_witness:
  "\<exists>m. txn_reachable sample_crypto m \<and> tm_total_staging_bytes m = 2 \<and>
     (\<Sum>i | hget (tm_active m) i \<noteq> None. bytes_in (tm_disk m) (txn_dir m i)) = 2"
proof -
  have H: "hashes_ok sample_crypto" using sample_crypto_ok by (simp add: externals_ok_def)
  from sample_txn obtain m where m: "txn_reachable sample_crypto m" "tm_total_staging_bytes m = 2" by blast
  from txn_limits [OF H m(1)] m(2) have "(\<Sum>i | hget (tm_active m) i \<noteq> None. bytes_in (tm_disk m) (txn_dir m i)) = unat (2 :: u64)"
    by metis
  with m show ?thesis by (intro exI [of _ m]) simp
qed

theorem commit_promotes_witness:
  "\<exists>m ks m' s'. staged m ''t'' (kappa_text sample_crypto Sha256 [1, 2]) = Some [1, 2] \<and>
     commit (ingest_verified sample_crypto) ''t'' (m, mem_new [''blobs''] None []) = (Ok ks, (m', s')) \<and>
     kappa_text sample_crypto Sha256 [1, 2] \<in> set ks \<and> blobs s' (kappa_text sample_crypto Sha256 [1, 2]) \<noteq> None"
proof -
  have H: "hashes_ok sample_crypto" using sample_crypto_ok by (simp add: externals_ok_def)
  from sample_txn obtain m st where m: "txn_reachable sample_crypto m" "hget (tm_active m) ''t'' = Some st"
     "staged m ''t'' (kappa_text sample_crypto Sha256 [1, 2]) = Some [1, 2]" by blast
  have d: "disk_ok sample_crypto (mem_new [''blobs''] None [])" by (simp add: mem_new_def)
  from commit_promotes [OF H m(1) d m(2)] obtain ks m' s'
    where c: "commit (ingest_verified sample_crypto) ''t'' (m, mem_new [''blobs''] None []) = (Ok ks, (m', s'))"
      "set ks = {k. staged m ''t'' k \<noteq> None}" "\<forall>k \<in> set ks. blobs s' k \<noteq> None" by blast
  then show ?thesis using m(3) by (intro exI [of _ m] exI [of _ ks] exI [of _ m'] exI [of _ s']) simp
qed

end
