(* ===== verification/Event_Log.thy ===== *)
theory Event_Log
  imports Prelude
begin

text \<open>
  The log of tag events (\<open>kappa-core/src/events.rs\<close>), the broadcaster in front of it
  (\<open>kappa-server/src/broadcast.rs\<close>) and the two endpoints that read it: server-sent events
  (\<open>kappa-module-distribution/src/events_sse.rs\<close>) and the web socket (\<open>ws_events.rs\<close>). A namespace's queue
  is the assoc-list entry of its name; emitting is split into taking a sequence number and storing the event, since
  the code takes the number before it locks the queues. JSON rendering is a parameter. The lemmas show what the
  log holds after any sequence of emits and compactions, and what a polling client receives.
\<close>

section \<open>Definitions\<close>

definition MAX_EVENTS_PER_NAMESPACE :: nat where
  "MAX_EVENTS_PER_NAMESPACE = 10000"

datatype TagEventOp = TagSet | TagDelete | TagSetIf | TagBatchItem | TagSymbolic

fun event_op_as_str :: "TagEventOp \<Rightarrow> string" where
  "event_op_as_str TagSet = ''tag_set''"
| "event_op_as_str TagDelete = ''tag_delete''"
| "event_op_as_str TagSetIf = ''tag_set_if''"
| "event_op_as_str TagBatchItem = ''tag_batch_item''"
| "event_op_as_str TagSymbolic = ''tag_symbolic''"

record TagEvent =
  ev_namespace :: string
  ev_name :: string
  ev_value :: "string option"
  ev_prev_value :: "string option"
  ev_epoch :: u64
  ev_mtime_ms :: u64
  ev_operation :: TagEventOp
  ev_sequence :: u64

record InMemoryEventLog =
  el_log :: "(string, TagEvent list) hmap"
  el_sequence :: u64

definition event_log_new :: InMemoryEventLog where
  "event_log_new = \<lparr>el_log = [], el_sequence = 1\<rparr>"

definition take_sequence :: "TagEvent \<Rightarrow> InMemoryEventLog \<Rightarrow> TagEvent \<times> InMemoryEventLog" where
  "take_sequence event l = (event\<lparr>ev_sequence := el_sequence l\<rparr>, l\<lparr>el_sequence := el_sequence l + 1\<rparr>)"

definition push_event :: "TagEvent \<Rightarrow> TagEvent list \<Rightarrow> TagEvent list" where
  "push_event event events = (if length events \<ge> MAX_EVENTS_PER_NAMESPACE then tl events else events) @ [event]"

definition store_event :: "TagEvent \<Rightarrow> InMemoryEventLog \<Rightarrow> InMemoryEventLog" where
  "store_event event l = l\<lparr>el_log := hentry (ev_namespace event) [] (push_event event) (el_log l)\<rparr>"

definition event_emit :: "TagEvent \<Rightarrow> InMemoryEventLog \<Rightarrow> InMemoryEventLog" where
  "event_emit event l = (case take_sequence event l of (event, l) \<Rightarrow> store_event event l)"

definition events_in :: "InMemoryEventLog \<Rightarrow> string \<Rightarrow> TagEvent list" where
  "events_in l namespace = (case hget (el_log l) namespace of None \<Rightarrow> [] | Some events \<Rightarrow> events)"

definition event_recent :: "InMemoryEventLog \<Rightarrow> string \<Rightarrow> nat \<Rightarrow> TagEvent list" where
  "event_recent l namespace limit = take limit (rev (events_in l namespace))"

definition since_sequence :: "InMemoryEventLog \<Rightarrow> string \<Rightarrow> u64 \<Rightarrow> TagEvent list" where
  "since_sequence l namespace after = filter (\<lambda>e. ev_sequence e > after) (events_in l namespace)"

definition event_compact :: "u64 \<Rightarrow> InMemoryEventLog \<Rightarrow> nat \<times> InMemoryEventLog" where
  "event_compact retain_after l =
     (let kept = hmap_vals (filter (\<lambda>e. ev_sequence e > retain_after)) (el_log l) in
      (sum_list (map2 (\<lambda>before after. length before - length after) (hvals (el_log l)) (hvals kept)),
       l\<lparr>el_log := kept\<rparr>))"

definition oldest_sequence :: "InMemoryEventLog \<Rightarrow> u64" where
  "oldest_sequence l =
     (case List.map_filter (\<lambda>events. case events of [] \<Rightarrow> None | e # _ \<Rightarrow> Some (ev_sequence e)) (hvals (el_log l)) of
        [] \<Rightarrow> 0
      | s # ss \<Rightarrow> fold min ss s)"

text \<open>The broadcaster: the log and what was sent on the channel, oldest first.\<close>

record EventBroadcaster =
  eb_log :: InMemoryEventLog
  eb_sent :: "TagEvent list"

definition broadcast_emit :: "TagEvent \<Rightarrow> EventBroadcaster \<Rightarrow> EventBroadcaster" where
  "broadcast_emit event b = b\<lparr>eb_log := event_emit event (eb_log b), eb_sent := eb_sent b @ [event]\<rparr>"

definition format_sse_event :: "(TagEvent \<Rightarrow> string) \<Rightarrow> TagEvent \<Rightarrow> string" where
  "format_sse_event json event =
     ''event: '' @ event_op_as_str (ev_operation event) @ ''\<newline>id: '' @ show_nat (unat (ev_sequence event)) @
     ''\<newline>data: '' @ json event @ ''\<newline>\<newline>''"

definition format_lag_event :: "u64 \<Rightarrow> string" where
  "format_lag_event missed = ''event: lag\<newline>data: {\"missed\":'' @ show_nat (unat missed) @ ''}\<newline>\<newline>''"

definition matches_filter :: "TagEvent \<Rightarrow> string option \<Rightarrow> string option \<Rightarrow> bool" where
  "matches_filter event namespace prefix \<longleftrightarrow>
     (case namespace of None \<Rightarrow> True | Some ns \<Rightarrow> ev_namespace event = ns) \<and>
     (case prefix of None \<Rightarrow> True | Some p \<Rightarrow> starts_with (ev_name event) p)"

text \<open>The body of the server-sent-events endpoint when a log is registered.\<close>

definition sse_events :: "(TagEvent \<Rightarrow> string) \<Rightarrow> InMemoryEventLog \<Rightarrow> string \<Rightarrow> string option \<Rightarrow> u64 \<Rightarrow> string" where
  "sse_events json l ns prefix since =
     concat (map (format_sse_event json)
       (filter (\<lambda>e. case prefix of None \<Rightarrow> True | Some p \<Rightarrow> starts_with (ev_name e) p) (since_sequence l ns since)))"

text \<open>A web socket client: the last sequence it saw, its filter and the events sent to it.\<close>

record ws_client =
  ws_last_seq :: u64
  ws_filter :: "string list option"
  ws_sent :: "TagEvent list"

datatype ClientCommand = Filter "string list" | Replay u64

definition ws_connect :: ws_client where
  "ws_connect = \<lparr>ws_last_seq = 0, ws_filter = None, ws_sent = []\<rparr>"

definition ws_send :: "TagEvent \<Rightarrow> ws_client \<Rightarrow> ws_client" where
  "ws_send event c = c\<lparr>ws_sent := ws_sent c @ [event], ws_last_seq := ev_sequence event\<rparr>"

fun ws_command :: "InMemoryEventLog \<Rightarrow> string \<Rightarrow> ClientCommand \<Rightarrow> ws_client \<Rightarrow> ws_client" where
  "ws_command l ns (Filter event_types) c = c\<lparr>ws_filter := Some event_types\<rparr>"
| "ws_command l ns (Replay since_id) c = fold ws_send (since_sequence l ns since_id) c"

definition ws_offer :: "TagEvent \<Rightarrow> ws_client \<Rightarrow> ws_client" where
  "ws_offer event c =
     (case ws_filter c of
        Some types \<Rightarrow>
          if \<not> list_ex (\<lambda>f. event_op_as_str (ev_operation event) = f) types then c\<lparr>ws_last_seq := ev_sequence event\<rparr>
          else ws_send event c
      | None \<Rightarrow> ws_send event c)"

definition ws_heartbeat :: "InMemoryEventLog \<Rightarrow> string \<Rightarrow> ws_client \<Rightarrow> ws_client" where
  "ws_heartbeat l ns c = fold ws_offer (since_sequence l ns (ws_last_seq c)) c"

section \<open>What the log holds\<close>

text \<open>
  The specification of the log: every event emitted so far with its number, and the floor below which
  compaction removed them. A namespace retains the last events of it above the floor.
\<close>

type_synonym event_spec = "TagEvent list \<times> nat"

datatype log_op = Emit TagEvent | Compact u64

fun log_step :: "log_op \<Rightarrow> InMemoryEventLog \<Rightarrow> InMemoryEventLog" where
  "log_step (Emit e) l = event_emit e l"
| "log_step (Compact r) l = snd (event_compact r l)"

fun spec_step :: "log_op \<Rightarrow> event_spec \<Rightarrow> event_spec" where
  "spec_step (Emit e) (es, fl) = (es @ [e\<lparr>ev_sequence := word_of_nat (Suc (length es))\<rparr>], fl)"
| "spec_step (Compact r) (es, fl) = (es, max fl (min (unat r) (length es)))"

definition of_ns :: "string \<Rightarrow> TagEvent list \<Rightarrow> TagEvent list" where
  "of_ns ns es = filter (\<lambda>e. ev_namespace e = ns) es"

definition last_n :: "nat \<Rightarrow> 'a list \<Rightarrow> 'a list" where
  "last_n n xs = drop (length xs - n) xs"

fun retained :: "event_spec \<Rightarrow> string \<Rightarrow> TagEvent list" where
  "retained (es, fl) ns =
     filter (\<lambda>e. fl < unat (ev_sequence e)) (last_n MAX_EVENTS_PER_NAMESPACE (of_ns ns es))"

definition numbered :: "TagEvent list \<Rightarrow> bool" where
  "numbered es \<longleftrightarrow> map (\<lambda>e. unat (ev_sequence e)) es = [1..<Suc (length es)]"

definition log_ok :: "InMemoryEventLog \<Rightarrow> event_spec \<Rightarrow> bool" where
  "log_ok l sp \<longleftrightarrow>
     (case sp of (es, fl) \<Rightarrow> numbered es \<and> el_sequence l = word_of_nat (Suc (length es)) \<and> fl \<le> length es) \<and>
     (\<forall>ns. events_in l ns = retained sp ns)"

lemma of_ns_snoc [simp]: "of_ns ns (es @ [e]) = of_ns ns es @ (if ev_namespace e = ns then [e] else [])"
  by (simp add: of_ns_def)

lemma last_n_snoc:
  "0 < n \<Longrightarrow> last_n n (xs @ [x]) = (if length xs \<ge> n then tl (last_n n xs) else last_n n xs) @ [x]"
  by (auto simp: last_n_def Suc_diff_le drop_Suc tl_drop)

lemma numbered_le: "numbered es \<Longrightarrow> e \<in> set es \<Longrightarrow> unat (ev_sequence e) \<le> length es"
proof -
  assume n: "numbered es" and "e \<in> set es"
  then have "unat (ev_sequence e) \<in> set (map (\<lambda>e. unat (ev_sequence e)) es)" by auto
  then show ?thesis using n unfolding numbered_def by auto
qed

lemma numbered_sorted: "numbered es \<Longrightarrow> sorted (map (\<lambda>e. unat (ev_sequence e)) (of_ns ns es))"
  unfolding numbered_def of_ns_def by (metis sorted_filter sorted_upt)

lemma numbered_snoc:
  "numbered es \<Longrightarrow> Suc (length es) < 2 ^ 64 \<Longrightarrow> numbered (es @ [e\<lparr>ev_sequence := word_of_nat (Suc (length es))\<rparr>])"
  unfolding numbered_def by (simp add: unat_len del: of_nat_Suc)

text \<open>Evicting the oldest event of a full queue keeps the last events, since the retained ones are a suffix.\<close>

lemma push_event_retained:
  assumes "sorted (map (\<lambda>e. unat (ev_sequence e)) X)" and "fl < unat (ev_sequence e)"
  shows "push_event e (filter (\<lambda>e. fl < unat (ev_sequence e)) (last_n MAX_EVENTS_PER_NAMESPACE X)) =
    filter (\<lambda>e. fl < unat (ev_sequence e)) (last_n MAX_EVENTS_PER_NAMESPACE (X @ [e]))"
proof -
  let ?N = MAX_EVENTS_PER_NAMESPACE and ?P = "\<lambda>e. fl < unat (ev_sequence e)"
  let ?L = "last_n ?N X"
  have pos: "0 < ?N" by (simp add: MAX_EVENTS_PER_NAMESPACE_def)
  have len: "length ?L \<le> ?N" by (simp add: last_n_def)
  have sorted: "sorted (map (\<lambda>e. unat (ev_sequence e)) ?L)"
    using assms(1) unfolding last_n_def drop_map [symmetric] by (rule sorted_wrt_drop)
  have tl: "filter ?P (tl ?L) = (if length (filter ?P ?L) \<ge> ?N then tl (filter ?P ?L) else filter ?P ?L)"
    if full: "length X \<ge> ?N"
  proof -
    have L: "length ?L = ?N" using full by (simp add: last_n_def)
    then obtain x T where xT: "?L = x # T" using pos by (cases ?L) auto
    show ?thesis
    proof (cases "?P x")
      case True
      then have "filter ?P ?L = ?L" using sorted unfolding xT by (auto simp: filter_id_conv)
      then show ?thesis using L True by (simp add: xT)
    next
      case False
      then have "length (filter ?P ?L) < ?N" using L length_filter_le [of ?P T] by (simp add: xT del: length_filter_le)
      then show ?thesis using False by (simp add: xT)
    qed
  qed
  have "length (filter ?P ?L) < ?N" if "\<not> length X \<ge> ?N"
    using that length_filter_le [of ?P ?L] by (simp add: last_n_def del: length_filter_le)
  then show ?thesis
    using tl assms(2) by (auto simp: push_event_def last_n_snoc [OF pos])
qed

lemma log_ok_emit:
  assumes "log_ok l (es, fl)" and "length es + 2 < 2 ^ 64"
  shows "log_ok (event_emit e l) (spec_step (Emit e) (es, fl))"
proof -
  let ?e = "e\<lparr>ev_sequence := word_of_nat (Suc (length es)) :: u64\<rparr>"
  have num: "numbered es" and seq: "el_sequence l = word_of_nat (Suc (length es))" and fl: "fl \<le> length es"
    and ret: "\<And>ns. events_in l ns = retained (es, fl) ns"
    using assms(1) by (auto simp: log_ok_def)
  have "unat (ev_sequence ?e) = Suc (length es)" using assms(2) by (simp add: unat_len del: of_nat_Suc)
  then have P: "fl < unat (ev_sequence ?e)" using fl by simp
  have "events_in (event_emit e l) ns = retained (es @ [?e], fl) ns" for ns
  proof (cases "ns = ev_namespace e")
    case True
    have "events_in (event_emit e l) ns = push_event ?e (events_in l ns)"
      using True by (simp add: events_in_def event_emit_def take_sequence_def store_event_def seq split: option.splits)
    also have "\<dots> = retained (es @ [?e], fl) ns"
      using push_event_retained [OF numbered_sorted [OF num, of ns] P] True by (simp add: ret)
    finally show ?thesis .
  next
    case False
    then have "events_in (event_emit e l) ns = events_in l ns"
      by (simp add: events_in_def event_emit_def take_sequence_def store_event_def)
    then show ?thesis using False ret by simp
  qed
  then show ?thesis
    using numbered_snoc [OF num, of e] fl assms(2)
    by (simp add: log_ok_def event_emit_def take_sequence_def store_event_def seq)
qed

lemma events_in_compact:
  "events_in (snd (event_compact r l)) ns = filter (\<lambda>e. ev_sequence e > r) (events_in l ns)"
  by (simp add: events_in_def event_compact_def Let_def split: option.splits)

lemma log_ok_compact:
  assumes "log_ok l (es, fl)"
  shows "log_ok (snd (event_compact r l)) (spec_step (Compact r) (es, fl))"
proof -
  have le: "unat (ev_sequence e) \<le> length es" if "e \<in> set (last_n n (of_ns ns es))" for e n ns
  proof (rule numbered_le)
    show "numbered es" using assms by (simp add: log_ok_def)
    show "e \<in> set es" using that by (auto simp: last_n_def of_ns_def dest: in_set_dropD)
  qed
  have "filter (\<lambda>e. ev_sequence e > r) (retained (es, fl) ns) =
      retained (es, max fl (min (unat r) (length es))) ns" for ns
    by (auto simp: word_less_nat_alt intro!: filter_cong dest!: le)
  then show ?thesis
    using assms by (auto simp: log_ok_def events_in_compact) (auto simp: event_compact_def Let_def)
qed

fun emits :: "log_op list \<Rightarrow> nat" where
  "emits [] = 0"
| "emits (Emit _ # ops) = Suc (emits ops)"
| "emits (Compact _ # ops) = emits ops"

lemma log_ok_fold:
  "log_ok l sp \<Longrightarrow> length (fst sp) + emits ops + 1 < 2 ^ 64 \<Longrightarrow>
   log_ok (fold log_step ops l) (fold spec_step ops sp) \<and>
   length (fst (fold spec_step ops sp)) = length (fst sp) + emits ops"
proof (induction ops arbitrary: l sp)
  case Nil
  then show ?case by simp
next
  case (Cons op ops)
  obtain es fl where sp: "sp = (es, fl)" by fastforce
  have ok: "log_ok l (es, fl)" using Cons.prems(1) by (simp add: sp)
  show ?case
  proof (cases op)
    case (Emit e)
    with Cons.IH [OF log_ok_emit [OF ok, of e]] Cons.prems(2) show ?thesis by (simp add: sp)
  next
    case (Compact r)
    with Cons.IH [OF log_ok_compact [OF ok, of r]] Cons.prems(2) show ?thesis by (simp add: sp)
  qed
qed

lemma log_ok_new: "log_ok event_log_new ([], 0)"
  by (simp add: log_ok_def event_log_new_def numbered_def events_in_def of_ns_def last_n_def)

lemma filter_last_n:
  assumes "sorted (map f X)" and "length (filter (\<lambda>e. a < f e) X) \<le> n"
  shows "filter (\<lambda>e. a < f e) (last_n n X) = filter (\<lambda>e. a < (f e :: nat)) X"
proof -
  define D where "D = take (length X - n) X"
  have X: "X = D @ last_n n X" by (simp add: D_def last_n_def)
  have "\<not> a < f e" if "e \<in> set D" for e
  proof
    assume "a < f e"
    have "\<forall>x \<in> set (last_n n X). f e \<le> f x"
      using assms(1) that by (subst (asm) X) (simp add: sorted_append)
    then have "filter (\<lambda>e. a < f e) (last_n n X) = last_n n X"
      using \<open>a < f e\<close> by (auto simp: filter_id_conv)
    moreover have "e \<in> set (filter (\<lambda>e. a < f e) D)" using that \<open>a < f e\<close> by simp
    then have "length (filter (\<lambda>e. a < f e) D) > 0" by (metis length_pos_if_in_set)
    ultimately have "length (filter (\<lambda>e. a < f e) X) > length (last_n n X)"
      by (subst X) simp
    moreover have "length X > n" using that by (cases "length X \<le> n") (auto simp: D_def)
    ultimately show False using assms(2) by (simp add: last_n_def)
  qed
  then have "filter (\<lambda>e. a < f e) D = []" by (simp add: filter_empty_conv)
  then show ?thesis by (subst (2) X) simp
qed

lemma since_complete:
  assumes "log_ok l (es, fl)" and "fl \<le> unat after"
    and "length (filter (\<lambda>e. ev_sequence e > after) (of_ns ns es)) \<le> MAX_EVENTS_PER_NAMESPACE"
  shows "since_sequence l ns after = filter (\<lambda>e. ev_sequence e > after) (of_ns ns es)"
proof -
  have num: "numbered es" and ev: "events_in l ns = retained (es, fl) ns" using assms(1) by (auto simp: log_ok_def)
  have "since_sequence l ns after =
      filter (\<lambda>e. unat after < unat (ev_sequence e)) (last_n MAX_EVENTS_PER_NAMESPACE (of_ns ns es))"
    unfolding since_sequence_def ev using assms(2) by (auto simp: word_less_nat_alt intro!: filter_cong)
  also have "\<dots> = filter (\<lambda>e. unat after < unat (ev_sequence e)) (of_ns ns es)"
    by (rule filter_last_n [OF numbered_sorted [OF num]]) (use assms(3) in \<open>simp add: word_less_nat_alt\<close>)
  finally show ?thesis by (simp add: word_less_nat_alt)
qed

text \<open>
  C13. After any sequence of emits and compactions a namespace holds the last ten thousand of its events above
  the compaction floor, numbered in the order of their emission, and a reader that asks for what
  follows the last number it has seen gets every later event in order, as long as that number is not
  below the floor and no more than ten thousand events follow it.
\<close>

theorem event_log_refines:
  assumes "emits ops + 1 < 2 ^ 64" and "l = fold log_step ops event_log_new"
    and "(es, fl) = fold spec_step ops ([], 0)"
  shows "map (\<lambda>e. unat (ev_sequence e)) es = [1..<Suc (emits ops)] \<and>
    events_in l ns = retained (es, fl) ns \<and>
    event_recent l ns limit = take limit (rev (retained (es, fl) ns)) \<and>
    (fl \<le> unat after \<and> length (filter (\<lambda>e. ev_sequence e > after) (of_ns ns es)) \<le> MAX_EVENTS_PER_NAMESPACE \<longrightarrow>
     since_sequence l ns after = filter (\<lambda>e. ev_sequence e > after) (of_ns ns es))"
proof -
  have "log_ok l (fold spec_step ops ([], 0)) \<and> length (fst (fold spec_step ops ([], 0))) = emits ops"
    using log_ok_fold [OF log_ok_new, of ops] assms(1) by (simp add: assms(2))
  then have "log_ok l (es, fl) \<and> length es = emits ops"
    by (simp only: assms(3) [symmetric] fst_conv)
  then show ?thesis
    using since_complete [of l es fl after ns] by (auto simp: log_ok_def numbered_def event_recent_def)
qed

definition sample_event :: "string \<Rightarrow> TagEvent" where
  "sample_event name = \<lparr>ev_namespace = ''ns'', ev_name = name, ev_value = Some ''v'', ev_prev_value = None,
     ev_epoch = 1, ev_mtime_ms = 0, ev_operation = TagSet, ev_sequence = 0\<rparr>"

theorem event_log_refines_witness:
  "\<exists>l. l = fold log_step [Emit (sample_event ''a''), Compact 1, Emit (sample_event ''b'')] event_log_new \<and>
     since_sequence l ''ns'' 1 = [(sample_event ''b'')\<lparr>ev_sequence := 2\<rparr>]"
proof -
  let ?ops = "[Emit (sample_event ''a''), Compact 1, Emit (sample_event ''b'')]"
  let ?es = "[(sample_event ''a'')\<lparr>ev_sequence := 1\<rparr>, (sample_event ''b'')\<lparr>ev_sequence := 2\<rparr>]"
  have "since_sequence (fold log_step ?ops event_log_new) ''ns'' 1 = filter (\<lambda>e. ev_sequence e > 1) (of_ns ''ns'' ?es)"
    using event_log_refines [of ?ops "fold log_step ?ops event_log_new" ?es 1 "''ns''" 0 1]
    by (simp add: of_ns_def sample_event_def MAX_EVENTS_PER_NAMESPACE_def)
  then show ?thesis by (simp add: of_ns_def sample_event_def)
qed

section \<open>A polling client\<close>

datatype ws_step = WsEmit TagEvent | WsFilter "string list" | WsHeartbeat

fun ws_run :: "string \<Rightarrow> ws_step \<Rightarrow> InMemoryEventLog \<times> ws_client \<Rightarrow> InMemoryEventLog \<times> ws_client" where
  "ws_run ns (WsEmit e) (l, c) = (event_emit e l, c)"
| "ws_run ns (WsFilter types) (l, c) = (l, ws_command l ns (Filter types) c)"
| "ws_run ns WsHeartbeat (l, c) = (l, ws_heartbeat l ns c)"

text \<open>
  What the client should receive: at each heartbeat the events of the namespace since the previous one
  that its current filter accepts.
\<close>

definition accepts :: "string list option \<Rightarrow> TagEvent \<Rightarrow> bool" where
  "accepts types e \<longleftrightarrow> (case types of None \<Rightarrow> True | Some ts \<Rightarrow> event_op_as_str (ev_operation e) \<in> set ts)"

record ws_spec =
  wp_events :: "TagEvent list"
  wp_seen :: nat
  wp_filter :: "string list option"
  wp_received :: "TagEvent list"

definition wp_pending :: "string \<Rightarrow> ws_spec \<Rightarrow> TagEvent list" where
  "wp_pending ns w = of_ns ns (drop (wp_seen w) (wp_events w))"

fun ws_spec_run :: "string \<Rightarrow> ws_step \<Rightarrow> ws_spec \<Rightarrow> ws_spec" where
  "ws_spec_run ns (WsEmit e) w =
     w\<lparr>wp_events := wp_events w @ [e\<lparr>ev_sequence := word_of_nat (Suc (length (wp_events w)))\<rparr>]\<rparr>"
| "ws_spec_run ns (WsFilter types) w = w\<lparr>wp_filter := Some types\<rparr>"
| "ws_spec_run ns WsHeartbeat w =
     w\<lparr>wp_seen := length (wp_events w), wp_received := wp_received w @ filter (accepts (wp_filter w)) (wp_pending ns w)\<rparr>"

fun ws_paced :: "string \<Rightarrow> ws_step list \<Rightarrow> ws_spec \<Rightarrow> bool" where
  "ws_paced ns [] w \<longleftrightarrow> True"
| "ws_paced ns (s # ss) w \<longleftrightarrow>
     (s = WsHeartbeat \<longrightarrow> length (wp_pending ns w) \<le> MAX_EVENTS_PER_NAMESPACE) \<and> ws_paced ns ss (ws_spec_run ns s w)"

definition ws_ok :: "string \<Rightarrow> InMemoryEventLog \<times> ws_client \<Rightarrow> ws_spec \<Rightarrow> bool" where
  "ws_ok ns lc w \<longleftrightarrow>
     (case lc of (l, c) \<Rightarrow> log_ok l (wp_events w, 0) \<and> ws_filter c = wp_filter w \<and> ws_sent c = wp_received w \<and>
        wp_seen w \<le> length (wp_events w) \<and> unat (ws_last_seq c) \<le> wp_seen w \<and>
        of_ns ns (drop (unat (ws_last_seq c)) (wp_events w)) = wp_pending ns w)"

lemma filter_numbered: "numbered es \<Longrightarrow> a < 2 ^ 64 \<Longrightarrow>
  filter (\<lambda>e. ev_sequence e > word_of_nat a) (of_ns ns es) = of_ns ns (drop a es)"
proof -
  assume num: "numbered es" and a: "a < 2 ^ 64"
  have seq: "unat (ev_sequence (es ! i)) = Suc i" if "i < length es" for i
  proof -
    have "map (\<lambda>e. unat (ev_sequence e)) es ! i = [1..<Suc (length es)] ! i"
      using num by (simp only: numbered_def)
    then show ?thesis using that by (simp del: upt_Suc)
  qed
  have t: "filter (\<lambda>e. a < unat (ev_sequence e)) (take a es) = []"
    by (auto simp: filter_empty_conv in_set_conv_nth seq)
  have d: "filter (\<lambda>e. a < unat (ev_sequence e)) (drop a es) = drop a es"
    by (auto simp: filter_id_conv in_set_conv_nth seq)
  have "filter (\<lambda>e. a < unat (ev_sequence e)) es = drop a es"
    by (subst append_take_drop_id [of a es, symmetric], subst filter_append) (simp add: t d)
  moreover have "filter (\<lambda>e. ev_sequence e > word_of_nat a) (of_ns ns es) =
      of_ns ns (filter (\<lambda>e. a < unat (ev_sequence e)) es)"
    using a by (auto simp: of_ns_def word_less_nat_alt unat_len intro!: filter_cong)
  ultimately show ?thesis by simp
qed

lemma ws_offer_eq:
  "ws_offer e c = c\<lparr>ws_sent := ws_sent c @ filter (accepts (ws_filter c)) [e], ws_last_seq := ev_sequence e\<rparr>"
  by (auto simp: ws_offer_def ws_send_def accepts_def list_ex_iff split: option.splits)

lemma ws_offer_fold:
  "fold ws_offer es c = c\<lparr>ws_sent := ws_sent c @ filter (accepts (ws_filter c)) es,
     ws_last_seq := (if es = [] then ws_last_seq c else ev_sequence (last es))\<rparr>"
proof (induction es arbitrary: c)
  case Nil
  then show ?case by simp
next
  case (Cons e es)
  then show ?case by (simp add: ws_offer_eq)
qed

lemma ws_caught_up:
  assumes "numbered es" and "P = of_ns ns (drop a es)" and "P \<noteq> []" and "length es < 2 ^ 64"
  shows "of_ns ns (drop (unat (ev_sequence (last P))) es) = []"
proof -
  have "of_ns ns es = of_ns ns (take a es) @ P"
    unfolding assms(2) of_ns_def by (metis append_take_drop_id filter_append)
  then have "\<forall>x \<in> set (of_ns ns es). unat (ev_sequence x) \<le> unat (ev_sequence (last P))"
    using numbered_sorted [OF assms(1), of ns] assms(3)
    by (cases P rule: rev_cases) (auto simp: sorted_append)
  then have "filter (\<lambda>e. ev_sequence e > ev_sequence (last P)) (of_ns ns es) = []"
    by (auto simp: filter_empty_conv word_less_nat_alt)
  then show ?thesis
    using filter_numbered [OF assms(1), of "unat (ev_sequence (last P))" ns]
      unsigned_less [of "ev_sequence (last P)", where ?'a = nat] by simp
qed

lemma ws_ok_step:
  assumes "ws_ok ns (l, c) w" and "length (wp_events w) + 2 < 2 ^ 64"
    and "s = WsHeartbeat \<Longrightarrow> length (wp_pending ns w) \<le> MAX_EVENTS_PER_NAMESPACE"
  shows "ws_ok ns (ws_run ns s (l, c)) (ws_spec_run ns s w)"
proof (cases s)
  case (WsEmit e)
  have "log_ok l (wp_events w, 0)" using assms(1) by (simp add: ws_ok_def)
  from log_ok_emit [OF this assms(2), of e] show ?thesis
    using assms(1) by (simp add: WsEmit ws_ok_def wp_pending_def)
next
  case (WsFilter types)
  then show ?thesis using assms(1) by (simp add: ws_ok_def wp_pending_def)
next
  case WsHeartbeat
  let ?es = "wp_events w" and ?P = "wp_pending ns w" and ?c = "ws_heartbeat l ns c"
  have ok: "log_ok l (?es, 0)" and num: "numbered ?es" and filt: "ws_filter c = wp_filter w"
    and sent: "ws_sent c = wp_received w" and last: "unat (ws_last_seq c) \<le> length ?es"
    and P: "of_ns ns (drop (unat (ws_last_seq c)) ?es) = ?P"
    using assms(1) by (auto simp: ws_ok_def log_ok_def)
  have since: "filter (\<lambda>e. ev_sequence e > ws_last_seq c) (of_ns ns ?es) = ?P"
    using filter_numbered [OF num, of "unat (ws_last_seq c)" ns] P assms(2) last by simp
  have since': "since_sequence l ns (ws_last_seq c) = ?P"
    using since_complete [OF ok _ , of "ws_last_seq c" ns] assms(3) WsHeartbeat by (simp add: since)
  have seen: "unat (ws_last_seq ?c) \<le> length ?es \<and> of_ns ns (drop (unat (ws_last_seq ?c)) ?es) = []"
  proof (cases "?P = []")
    case True
    then show ?thesis using last P by (simp add: ws_heartbeat_def since' ws_offer_fold)
  next
    case False
    then have "last ?P \<in> set ?es" using last_in_set [OF False] by (auto simp: wp_pending_def of_ns_def dest: in_set_dropD)
    then show ?thesis
      using numbered_le [OF num] ws_caught_up [OF num _ False, of ns "unat (ws_last_seq c)"] P assms(2) False
      by (simp add: ws_heartbeat_def since' ws_offer_fold)
  qed
  have "ws_filter ?c = wp_filter w" "ws_sent ?c = wp_received w @ filter (accepts (wp_filter w)) ?P"
    by (simp_all add: ws_heartbeat_def since' ws_offer_fold filt sent)
  then show ?thesis
    using ok seen unfolding WsHeartbeat by (simp add: ws_ok_def wp_pending_def of_ns_def)
qed

fun ws_emits :: "ws_step list \<Rightarrow> nat" where
  "ws_emits [] = 0"
| "ws_emits (WsEmit _ # ss) = Suc (ws_emits ss)"
| "ws_emits (_ # ss) = ws_emits ss"

lemma ws_ok_fold:
  "ws_ok ns lc w \<Longrightarrow> length (wp_events w) + ws_emits ss + 2 < 2 ^ 64 \<Longrightarrow> ws_paced ns ss w \<Longrightarrow>
   ws_ok ns (fold (ws_run ns) ss lc) (fold (ws_spec_run ns) ss w)"
proof (induction ss arbitrary: lc w)
  case Nil
  then show ?case by simp
next
  case (Cons s ss)
  obtain l c where lc: "lc = (l, c)" by fastforce
  have ok: "ws_ok ns (ws_run ns s lc) (ws_spec_run ns s w)"
    unfolding lc using Cons.prems by (intro ws_ok_step) (simp_all add: lc)
  have "length (wp_events (ws_spec_run ns s w)) + ws_emits ss = length (wp_events w) + ws_emits (s # ss)"
    by (cases s) simp_all
  then show ?case using Cons.IH [OF ok] Cons.prems by simp
qed

definition unfiltered :: "string \<Rightarrow> ws_spec \<Rightarrow> bool" where
  "unfiltered ns w \<longleftrightarrow> wp_filter w = None \<and> wp_seen w \<le> length (wp_events w) \<and>
     wp_received w = of_ns ns (take (wp_seen w) (wp_events w))"

lemma unfiltered_step:
  assumes "unfiltered ns w" and "\<forall>types. WsFilter types \<noteq> s"
  shows "unfiltered ns (ws_spec_run ns s w)"
proof (cases s)
  case WsHeartbeat
  have "accepts None = (\<lambda>_. True)" by (simp add: accepts_def fun_eq_iff)
  moreover have "of_ns ns (take n es) @ of_ns ns (drop n es) = of_ns ns es" for n es
    unfolding of_ns_def by (metis append_take_drop_id filter_append)
  ultimately show ?thesis
    using assms(1) WsHeartbeat by (simp add: unfiltered_def wp_pending_def)
qed (use assms in \<open>auto simp: unfiltered_def\<close>)

lemma unfiltered_fold:
  "unfiltered ns w \<Longrightarrow> \<forall>types. WsFilter types \<notin> set ss \<Longrightarrow> unfiltered ns (fold (ws_spec_run ns) ss w)"
  by (induction ss arbitrary: w) (auto intro: unfiltered_step)



text \<open>
  Overlapping emits: the sequence number is taken before the queues are locked, so of two emits of one
  namespace the one with the later number may be stored first. A client that polls in between moves past the
  earlier number and never receives that event, however often it polls.
\<close>

lemma overlapping_emits_lose_event:
  assumes "ev_namespace a = ns" and "ev_namespace b = ns" and "unat (el_sequence l) + 2 < 2 ^ 64"
    and "ws_last_seq c < el_sequence l"
    and "since_sequence l ns (ws_last_seq c) = []" and "length (events_in l ns) + 2 < MAX_EVENTS_PER_NAMESPACE"
    and "(a', l1) = take_sequence a l" and "(b', l2) = take_sequence b l1"
    and "c1 = ws_heartbeat (store_event b' l2) ns c" and "l3 = store_event a' (store_event b' l2)"
  shows "a' \<in> set (events_in l3 ns) \<and> since_sequence l3 ns (ws_last_seq c1) = [] \<and>
    ws_sent c1 = ws_sent c @ filter (accepts (ws_filter c)) [b']"
proof -
  let ?s = "el_sequence l"
  have a: "a' = a\<lparr>ev_sequence := ?s\<rparr>" and l1: "l1 = l\<lparr>el_sequence := ?s + 1\<rparr>"
    using assms(7) by (auto simp: take_sequence_def)
  have b: "b' = b\<lparr>ev_sequence := ?s + 1\<rparr>" and l2: "events_in l2 n = events_in l n" for n
    using assms(8) by (auto simp: take_sequence_def l1 events_in_def)
  have sa: "ev_sequence a' = ?s" and sb: "ev_sequence b' = ?s + 1" by (simp_all add: a b)
  have store: "events_in (store_event e k) ns = push_event e (events_in k ns)" if "ev_namespace e = ns" for e k
    using that by (simp add: events_in_def store_event_def split: option.splits)
  have suc: "?s < ?s + 1" using assms(3) by (simp add: word_less_nat_alt unat_word_ariths)
  have old: "\<not> ws_last_seq c < ev_sequence e" if "e \<in> set (events_in l ns)" for e
    using assms(5) that by (simp add: since_sequence_def filter_empty_conv)
  have b1: "events_in (store_event b' l2) ns = events_in l ns @ [b']"
    using assms(2,6) by (simp add: store b l2 push_event_def)
  have a1: "events_in l3 ns = events_in l ns @ [b', a']"
    using assms(1,6) by (simp add: assms(10) store a b1 push_event_def)
  have "since_sequence (store_event b' l2) ns (ws_last_seq c) = [b']"
    using assms(4) suc old by (auto simp: since_sequence_def b1 sb filter_empty_conv)
  then have c1: "ws_last_seq c1 = ?s + 1" "ws_sent c1 = ws_sent c @ filter (accepts (ws_filter c)) [b']"
    by (simp_all add: assms(9) ws_heartbeat_def ws_offer_eq sb)
  have "\<not> ?s + 1 < ev_sequence e" if "e \<in> set (events_in l ns)" for e
    using old [OF that] assms(4) suc by (meson dual_order.strict_trans)
  then have "since_sequence l3 ns (ws_last_seq c1) = []"
    using suc by (auto simp: since_sequence_def a1 c1 sa sb filter_empty_conv)
  then show ?thesis using c1 by (simp add: a1)
qed

end
