(* ===== verification/Clock.thy ===== *)
theory Clock
  imports Prelude
begin

text \<open>
  The hybrid clock (\<open>kappa-core/src/clock/ntp_lamport.rs\<close>). The reading of the system clock is an argument of
  each call; the state is what the mutex guards. The lemmas show in what sense the returned values increase.
\<close>

unbundle bit_operations_syntax

section \<open>Definitions\<close>

record ClockState =
  last_physical_ms :: u64
  logical :: u32

definition clock_new :: ClockState where
  "clock_new = \<lparr>last_physical_ms = 0, logical = 0\<rparr>"

definition clock_now_ms :: "u64 \<Rightarrow> ClockState \<Rightarrow> u64 \<times> ClockState" where
  "clock_now_ms physical st =
     (let st = (if physical > last_physical_ms st then st\<lparr>last_physical_ms := physical, logical := 0\<rparr>
                else st\<lparr>logical := logical st + 1\<rparr>)
      in (push_bit 16 (last_physical_ms st) OR (ucast (logical st) AND 0xFFFF), st))"

fun clock_run :: "u64 list \<Rightarrow> ClockState \<Rightarrow> u64 list" where
  "clock_run [] st = []"
| "clock_run (p # ps) st = (case clock_now_ms p st of (t, st) \<Rightarrow> t # clock_run ps st)"

section \<open>The values increase\<close>

definition clock_value :: "ClockState \<Rightarrow> nat" where
  "clock_value st = unat (last_physical_ms st) * 2 ^ 16 + unat (logical st) mod 2 ^ 16"

lemma clock_encode:
  assumes "unat p < 2 ^ 48"
  shows "unat (push_bit 16 (p :: u64) OR (ucast (k :: u32) AND 0xFFFF)) = unat p * 2 ^ 16 + unat k mod 2 ^ 16"
proof -
  have m: "(0xFFFF :: u64) = mask 16" by (simp add: mask_eq_exp_minus_1)
  have k: "unat ((ucast k :: u64) AND 0xFFFF) = unat k mod 2 ^ 16"
  proof -
    have "unat (ucast k :: u64) = unat k"
      using unsigned_less [of k, where ?'a = nat] by (simp add: unsigned_ucast_eq take_bit_nat_eq_self)
    then show ?thesis unfolding m by (simp flip: take_bit_eq_mask add: unsigned_take_bit_eq take_bit_eq_mod unat_mod_distrib)
  qed
  have p: "unat (push_bit 16 p) = unat p * 2 ^ 16"
    using assms by (simp add: push_bit_eq_mult unat_word_ariths)
  have "push_bit 16 p OR (ucast k AND 0xFFFF) = push_bit 16 p + (ucast k AND 0xFFFF)"
    unfolding m by (rule disjunctive_add [symmetric]) (auto simp: bit_simps)
  moreover have "unat p * 2 ^ 16 + unat k mod 2 ^ 16 < 2 ^ 64"
  proof -
    have "unat k mod 2 ^ 16 < 2 ^ 16" by simp
    then show ?thesis using assms by simp
  qed
  ultimately show ?thesis using p k by (simp add: unat_word_ariths)
qed

text \<open>At most 65535 readings in a row may fail to advance the physical part.\<close>

fun clock_paced :: "nat \<Rightarrow> u64 \<Rightarrow> u64 list \<Rightarrow> bool" where
  "clock_paced k m [] \<longleftrightarrow> True"
| "clock_paced k m (p # ps) \<longleftrightarrow>
     (if p > m then clock_paced 0 p ps else k + 1 < 2 ^ 16 \<and> clock_paced (k + 1) m ps)"

lemma clock_step:
  assumes "(t, st') = clock_now_ms p st" and "unat (last_physical_ms st) < 2 ^ 48" and "unat p < 2 ^ 48"
  shows "unat t = clock_value st' \<and> last_physical_ms st' = max (last_physical_ms st) p \<and>
    logical st' = (if p > last_physical_ms st then 0 else logical st + 1)"
  using assms by (auto simp: clock_now_ms_def Let_def clock_value_def clock_encode max_def)

lemma clock_run_nth:
  assumes "unat (last_physical_ms st) < 2 ^ 48" and "\<forall>p \<in> set ps. unat p < 2 ^ 48"
    and "unat (logical st) < 2 ^ 16" and "clock_paced (unat (logical st)) (last_physical_ms st) ps"
  shows "sorted_wrt (<) (clock_run ps st) \<and> (\<forall>t \<in> set (clock_run ps st). clock_value st < unat t) \<and>
    length (clock_run ps st) = length ps \<and>
    (\<forall>i < length ps. unat (clock_run ps st ! i) div 2 ^ 16 = Max (unat ` insert (last_physical_ms st) (set (take (Suc i) ps))))"
  using assms
proof (induction ps arbitrary: st)
  case Nil
  then show ?case by simp
next
  case (Cons p ps)
  obtain t st' where s: "(t, st') = clock_now_ms p st" by (metis surj_pair)
  note step = clock_step [OF s Cons.prems(1)]
  have p: "unat p < 2 ^ 48" using Cons.prems(2) by simp
  have t: "unat t = clock_value st'" and l: "last_physical_ms st' = max (last_physical_ms st) p"
    and k: "logical st' = (if p > last_physical_ms st then 0 else logical st + 1)"
    using step p by auto
  have suc: "unat (logical st + 1) = unat (logical st) + 1"
    using Cons.prems(3) by (simp add: unat_word_ariths)
  have k16: "unat (logical st') < 2 ^ 16"
    using Cons.prems(3,4) by (auto simp: k suc split: if_splits)
  have paced: "clock_paced (unat (logical st')) (last_physical_ms st') ps"
    using Cons.prems(4) by (auto simp: k l suc max_def split: if_splits)
  have l48: "unat (last_physical_ms st') < 2 ^ 48"
    using Cons.prems(1) p by (simp add: l max_def)
  have less: "clock_value st < clock_value st'"
  proof (cases "p > last_physical_ms st")
    case True
    then have "unat (last_physical_ms st) + 1 \<le> unat p" by (simp add: word_less_nat_alt)
    then have "(unat (last_physical_ms st) + 1) * 2 ^ 16 \<le> unat p * 2 ^ 16" by (rule mult_right_mono) simp
    then show ?thesis using True Cons.prems(3) by (simp add: clock_value_def k l max_def)
  next
    case False
    then show ?thesis using k16 Cons.prems(3) by (simp add: clock_value_def k l max_def suc)
  qed
  have IH: "sorted_wrt (<) (clock_run ps st')" "\<forall>t \<in> set (clock_run ps st'). clock_value st' < unat t"
    "length (clock_run ps st') = length ps"
    "\<And>i. i < length ps \<Longrightarrow> unat (clock_run ps st' ! i) div 2 ^ 16 =
       Max (unat ` insert (last_physical_ms st') (set (take (Suc i) ps)))"
    using Cons.IH [OF l48 _ k16 paced] Cons.prems(2) by auto
  have run: "clock_run (p # ps) st = t # clock_run ps st'" by (simp add: s [symmetric])
  have max: "unat (max a b) = max (unat a) (unat b)" for a b :: u64 by (simp add: max_def word_le_nat_alt)
  have "unat (clock_run (p # ps) st ! i) div 2 ^ 16 =
      Max (unat ` insert (last_physical_ms st) (set (take (Suc i) (p # ps))))" if "i < length (p # ps)" for i
  proof (cases i)
    case 0
    then show ?thesis using k16 by (simp del: clock_run.simps add: run t clock_value_def l max)
  next
    case (Suc j)
    then have "unat (clock_run (p # ps) st ! i) div 2 ^ 16 =
        Max (insert (max (unat (last_physical_ms st)) (unat p)) (unat ` set (take (Suc j) ps)))"
      using IH(4) [of j] that by (simp del: clock_run.simps add: run l max)
    also have "\<dots> = Max (insert (unat (last_physical_ms st)) (insert (unat p) (unat ` set (take (Suc j) ps))))"
      by (cases "unat ` set (take (Suc j) ps) = {}") (simp_all add: max.assoc)
    finally show ?thesis using Suc by simp
  qed
  moreover have "sorted_wrt (<) (clock_run (p # ps) st)"
    using IH(1,2) by (auto simp del: clock_run.simps simp add: run t word_less_nat_alt)
  ultimately show ?case
    using IH(2,3) less t by (auto simp del: clock_run.simps simp add: run)
qed



text \<open>The logical part keeps 16 bits: the 65537th reading of one millisecond repeats the first value.\<close>

lemma clock_run_stalled:
  "unat (last_physical_ms st) < 2 ^ 48 \<Longrightarrow> unat (logical st) + n < 2 ^ 32 \<Longrightarrow> 0 < n \<Longrightarrow>
   unat (clock_run (replicate n (last_physical_ms st)) st ! (n - 1)) =
     unat (last_physical_ms st) * 2 ^ 16 + (unat (logical st) + n) mod 2 ^ 16"
proof (induction n arbitrary: st)
  case 0
  then show ?case by simp
next
  case (Suc n)
  let ?st = "st\<lparr>logical := logical st + 1\<rparr>"
  have suc: "unat (logical st + 1) = unat (logical st) + 1" using Suc.prems(2) by (simp add: unat_word_ariths)
  have now: "snd (clock_now_ms (last_physical_ms st) st) = ?st"
      "unat (fst (clock_now_ms (last_physical_ms st) st)) = clock_value ?st"
    using Suc.prems(1) by (simp_all add: clock_now_ms_def Let_def clock_encode clock_value_def)
  show ?case
  proof (cases n)
    case 0
    then show ?thesis using now by (simp add: case_prod_beta clock_value_def suc)
  next
    case (Suc m)
    then show ?thesis using Suc.IH [of ?st] Suc.prems now by (simp add: case_prod_beta suc)
  qed
qed

lemma clock_repeats:
  assumes "0 < p" and "unat p < 2 ^ 48" and "ps = replicate (Suc (2 ^ 16)) p"
  shows "unat (clock_run ps clock_new ! (2 ^ 16)) = unat (clock_run ps clock_new ! 0)"
proof -
  let ?st = "\<lparr>last_physical_ms = p, logical = 0\<rparr>"
  have now: "clock_now_ms p clock_new = (push_bit 16 p, ?st)"
    using assms(1) by (simp add: clock_now_ms_def clock_new_def)
  have "clock_run ps clock_new = push_bit 16 p # clock_run (replicate (2 ^ 16) p) ?st"
    unfolding assms(3) replicate_Suc clock_run.simps now by simp
  moreover have "unat (push_bit 16 p) = unat p * 2 ^ 16"
    using assms(2) by (simp add: push_bit_eq_mult unat_word_ariths)
  ultimately show ?thesis
    using clock_run_stalled [of ?st "2 ^ 16"] assms(2) by (simp add: nth_Cons')
qed

end
