(* ===== verification/Counter.thy ===== *)
theory Counter
  imports File_System Codec Types
begin

text \<open>
  The persisted software counter (\<open>kappa-core/src/counter.rs\<close>) and the format version marker of a store
  (\<open>kappa-core/src/version.rs\<close>): two small files of decimal text. An increment is split into taking the new
  value and persisting it, since the code does both without a lock. The lemmas show that what is written is read
  back and that a counter continues after a restart.
\<close>

section \<open>Definitions\<close>

datatype CounterError = CounterIo string | Corrupted

record SoftwareCounter =
  sc_value :: u64
  sc_persist_path :: "path option"

definition invalid_utf8 :: string where
  "invalid_utf8 = ''stream did not contain valid UTF-8''"

definition read_to_string :: "fs \<Rightarrow> path \<Rightarrow> (string, string) result" where
  "read_to_string d p =
     rbind (ok_or ''No such file or directory (os error 2)'' (fs_read d p)) (\<lambda>bs.
     ok_or invalid_utf8 (from_utf8 bs))"

definition counter_new :: "path option \<Rightarrow> fs \<Rightarrow> (SoftwareCounter, CounterError) result" where
  "counter_new persist_path d =
     rbind (case persist_path of
              Some path \<Rightarrow>
                if fs_exists d path then
                  rbind (map_err CounterIo (read_to_string d path)) (\<lambda>data.
                  ok_or Corrupted (map_option word_of_nat (parse_uint 64 (trim data))))
                else Ok 0
            | None \<Rightarrow> Ok 0) (\<lambda>initial.
     Ok \<lparr>sc_value = initial, sc_persist_path = persist_path\<rparr>)"

definition counter_take :: "SoftwareCounter \<Rightarrow> u64 \<times> SoftwareCounter" where
  "counter_take c = (let new_val = sc_value c + 1 in (new_val, c\<lparr>sc_value := new_val\<rparr>))"

definition counter_persist :: "SoftwareCounter \<Rightarrow> u64 \<Rightarrow> fs \<Rightarrow> (fs, CounterError) result" where
  "counter_persist c new_val d =
     (case sc_persist_path c of
        None \<Rightarrow> Ok d
      | Some path \<Rightarrow> map_err CounterIo (write_then_rename path (str_bytes (show_nat (unat new_val) @ ''\<newline>'')) d))"

definition counter_increment :: "SoftwareCounter \<times> fs \<Rightarrow> (u64, CounterError, SoftwareCounter \<times> fs) stateful" where
  "counter_increment cd =
     (case cd of (c, d) \<Rightarrow>
      let (new_val, c) = counter_take c in
      sbind (counter_persist c new_val d, (c, d)) (\<lambda>d (c, _). (Ok new_val, (c, d))))"

definition counter_current :: "SoftwareCounter \<Rightarrow> u64" where
  "counter_current c = sc_value c"

definition STORE_FORMAT_VERSION :: u32 where
  "STORE_FORMAT_VERSION = 5"

definition VERSION_FILE :: string where
  "VERSION_FILE = ''format_version''"

text \<open>The debug rendering of a string, which a rejected marker is reported with, is a parameter.\<close>

definition check_or_write_version :: "(string \<Rightarrow> string) \<Rightarrow> path \<Rightarrow> fs \<Rightarrow> (unit, StoreError, fs) stateful" where
  "check_or_write_version debug store_root d =
     (let path = path_join store_root VERSION_FILE in
      if fs_exists d path then
        sbind (map_err Io (read_to_string d path), d) (\<lambda>stored d.
        sbind (ok_or (Rejected (''corrupt format version file: '' @ debug (trim stored))) (parse_uint 32 (trim stored)), d)
          (\<lambda>stored_version d.
        if word_of_nat stored_version \<noteq> STORE_FORMAT_VERSION then
          (Err (Rejected (''store format version '' @ show_nat stored_version @ '' is not supported (current: '' @
             show_nat (unat STORE_FORMAT_VERSION) @ '')'')), d)
        else (Ok (), d)))
      else (Ok (), fs_write path (str_bytes (show_nat (unat STORE_FORMAT_VERSION) @ ''\<newline>'')) d))"

section \<open>Decimal files\<close>

lemma strip_none: "\<forall>w \<in> set ws. \<not> starts_with s w \<Longrightarrow> strip ws n s = s"
proof -
  assume "\<forall>w \<in> set ws. \<not> starts_with s w"
  then have "find (starts_with s) ws = None" by (simp add: find_None_iff)
  then show ?thesis by (cases n) simp_all
qed

lemma white_not_digit:
  assumes "w \<in> set white_space"
  shows "w \<noteq> [] \<and> \<not> (48 \<le> (of_char (hd w) :: nat) \<and> (of_char (hd w) :: nat) \<le> 57) \<and>
    \<not> (48 \<le> (of_char (last w) :: nat) \<and> (of_char (last w) :: nat) \<le> 57)"
proof -
  have "list_all (\<lambda>w. w \<noteq> [] \<and> \<not> (48 \<le> (of_char (hd w) :: nat) \<and> (of_char (hd w) :: nat) \<le> 57) \<and>
      \<not> (48 \<le> (of_char (last w) :: nat) \<and> (of_char (last w) :: nat) \<le> 57)) white_space"
    by (simp add: white_space_def bytes_str_def char_of_byte_def of_char_of)
  then show ?thesis unfolding list_all_iff using assms by (rule bspec)
qed

lemma trim_digits:
  assumes "s \<noteq> []" and "\<forall>c \<in> set s. 48 \<le> (of_char c :: nat) \<and> (of_char c :: nat) \<le> 57"
  shows "trim (s @ ''\<newline>'') = s"
proof -
  have start: "\<not> starts_with (t @ u) w" if "w \<in> set white_space" "t \<noteq> []" "\<forall>c \<in> set t. 48 \<le> (of_char c :: nat) \<and> (of_char c :: nat) \<le> 57" for t u w
    using white_not_digit [OF that(1)] that(2,3) by (cases t; cases w) (auto simp: starts_with_def)
  have stop: "\<not> starts_with (rev s) (rev w)" if "w \<in> set white_space" for w
    using white_not_digit [OF that] assms by (cases s rule: rev_cases; cases w rule: rev_cases) (auto simp: starts_with_def)
  have "trim_start (s @ ''\<newline>'') = s @ ''\<newline>''"
    unfolding trim_start_def by (rule strip_none) (use start [OF _ assms] in blast)
  moreover have "trim_end (s @ ''\<newline>'') = s"
  proof -
    obtain ws where "map rev white_space = [CHR 0x09] # [CHR 0x0A] # ws"
      by (simp add: white_space_def bytes_str_def char_of_byte_def char_of_def bit_0)
    then have "find (starts_with (''\<newline>'' @ rev s)) (map rev white_space) = Some ''\<newline>''"
      by (simp add: starts_with_def)
    then have "strip (map rev white_space) (length (s @ ''\<newline>'')) (rev (s @ ''\<newline>'')) =
        strip (map rev white_space) (length s) (rev s)" by simp
    also have "\<dots> = rev s" by (rule strip_none) (use stop in auto)
    finally show ?thesis by (simp only: trim_end_def rev_rev_ident)
  qed
  ultimately show ?thesis by (simp add: trim_def)
qed

lemma trim_show_nat: "trim (show_nat n @ ''\<newline>'') = show_nat n"
  by (rule trim_digits) (use show_nat_digits [of n] in blast)+

lemma ascii_show_nat: "ascii_str (show_nat n @ ''\<newline>'')"
proof -
  have "byte_of_char c \<le> 0x7F" if "48 \<le> (of_char c :: nat) \<and> (of_char c :: nat) \<le> 57" for c
    using that by (simp add: word_le_nat_alt)
  moreover have "byte_of_char CHR ''\<newline>'' \<le> 0x7F" by (simp add: byte_of_char_def)
  ultimately show ?thesis using show_nat_digits [of n] by (auto simp: ascii_str_def)
qed

lemma read_decimal:
  "fs_read d p = Some (str_bytes (show_nat n @ ''\<newline>'')) \<Longrightarrow> read_to_string d p = Ok (show_nat n @ ''\<newline>'')"
  by (simp only: read_to_string_def ok_or.simps rbind.simps from_utf8_ascii [OF ascii_show_nat])

section \<open>The counter survives restarts\<close>

lemma counter_new_persisted:
  assumes "fs_read d p = Some (str_bytes (show_nat (unat v) @ ''\<newline>''))"
  shows "counter_new (Some p) d = Ok \<lparr>sc_value = v, sc_persist_path = Some p\<rparr>"
proof -
  have "parse_uint 64 (show_nat (unat v)) = Some (unat v)"
    by (rule parse_uint_show_nat) (use unsigned_less [of v, where ?'a = nat] in simp)
  then show ?thesis
    using assms by (simp add: counter_new_def fs_exists_def read_decimal [OF assms] trim_show_nat del: str_bytes_append)
qed

text \<open>
  A run of the counter: increments, clean restarts, and crashes after the temporary file is written and
  before it is renamed.
\<close>

datatype counter_op = Increment | Restart | Crash

fun counter_run :: "path \<Rightarrow> counter_op list \<Rightarrow> SoftwareCounter \<times> fs \<Rightarrow> (u64 list, CounterError, SoftwareCounter \<times> fs) stateful" where
  "counter_run p [] cd = (Ok [], cd)"
| "counter_run p (Increment # ops) cd =
     sbind (counter_increment cd) (\<lambda>v cd. sbind (counter_run p ops cd) (\<lambda>vs cd. (Ok (v # vs), cd)))"
| "counter_run p (Restart # ops) (c, d) =
     sbind (counter_new (Some p) d, (c, d)) (\<lambda>c (_, d). counter_run p ops (c, d))"
| "counter_run p (Crash # ops) (c, d) =
     (let d = fs_write (with_extension p ''tmp'') (str_bytes (show_nat (unat (fst (counter_take c))) @ ''\<newline>'')) d in
      sbind (counter_new (Some p) d, (c, d)) (\<lambda>c (_, d). counter_run p ops (c, d)))"

lemma counter_increment_ok:
  assumes "counter_new (Some p) d = Ok c"
  shows "\<exists>c' d'. counter_increment (c, d) = (Ok (sc_value c + 1), (c', d')) \<and> counter_new (Some p) d' = Ok c' \<and>
    sc_value c' = sc_value c + 1"
proof -
  let ?v = "sc_value c + 1"
  have c: "sc_persist_path c = Some p" using assms by (auto simp: counter_new_def)
  from write_then_rename_ok [of p "str_bytes (show_nat (unat ?v) @ ''\<newline>'')" d]
  obtain d' where d': "write_then_rename p (str_bytes (show_nat (unat ?v) @ ''\<newline>'')) d = Ok d'"
      "fs_read d' p = Some (str_bytes (show_nat (unat ?v) @ ''\<newline>''))"
    by (auto simp: fs_read_def)
  have "counter_increment (c, d) = (Ok ?v, (c\<lparr>sc_value := ?v\<rparr>, d'))"
    by (simp add: counter_increment_def counter_take_def counter_persist_def Let_def c d'(1) del: str_bytes_append)
  moreover have "c\<lparr>sc_value := ?v\<rparr> = \<lparr>sc_value = ?v, sc_persist_path = Some p\<rparr>" using c by (cases c) simp
  ultimately show ?thesis using counter_new_persisted [OF d'(2)] by simp
qed

lemma counter_new_tmp:
  assumes "fs_key (with_extension p ''tmp'') \<noteq> fs_key p"
  shows "counter_new (Some p) (fs_write (with_extension p ''tmp'') x d) = counter_new (Some p) d"
  using assms by (simp add: counter_new_def fs_exists_def read_to_string_def)

fun increments :: "counter_op list \<Rightarrow> nat" where
  "increments [] = 0"
| "increments (Increment # ops) = Suc (increments ops)"
| "increments (_ # ops) = increments ops"

text \<open>
  C35. A persisted counter never repeats a value. Whatever the sequence of increments, restarts and crashes between
  the write of the temporary file and its renaming, the values returned by the increments are the
  consecutive numbers after the value the counter was opened with.
\<close>

theorem counter_survives_restarts:
  assumes "counter_new (Some p) d = Ok c" and "fs_key (with_extension p ''tmp'') \<noteq> fs_key p"
    and "unat (sc_value c) + increments ops < 2 ^ 64"
  shows "\<exists>vs cd. counter_run p ops (c, d) = (Ok vs, cd) \<and>
    map unat vs = [Suc (unat (sc_value c))..<Suc (unat (sc_value c) + increments ops)]"
  using assms(1,3)
proof (induction ops arbitrary: c d)
  case Nil
  then show ?case by simp
next
  case (Cons op ops)
  show ?case
  proof (cases op)
    case Increment
    from counter_increment_ok [OF Cons.prems(1)] obtain c' d' where inc:
      "counter_increment (c, d) = (Ok (sc_value c + 1), (c', d'))" "counter_new (Some p) d' = Ok c'"
      "sc_value c' = sc_value c + 1" by blast
    have suc: "unat (sc_value c + 1) = Suc (unat (sc_value c))"
      using Cons.prems(2) Increment by (simp add: unat_word_ariths)
    from Cons.IH [OF inc(2)] obtain vs cd where "counter_run p ops (c', d') = (Ok vs, cd)"
        "map unat vs = [Suc (unat (sc_value c'))..<Suc (unat (sc_value c') + increments ops)]"
      using Cons.prems(2) inc(3) suc Increment by auto
    then show ?thesis using inc suc by (simp add: Increment upt_rec [of "Suc (unat (sc_value c))"])
  next
    case Restart
    then show ?thesis using Cons.IH [OF Cons.prems(1)] Cons.prems by simp
  next
    case Crash
    let ?d = "fs_write (with_extension p ''tmp'') (str_bytes (show_nat (unat (fst (counter_take c))) @ ''\<newline>'')) d"
    have "counter_new (Some p) ?d = Ok c" using Cons.prems(1) by (simp only: counter_new_tmp [OF assms(2)])
    then show ?thesis using Cons.IH [of ?d c] Cons.prems(2) Crash by (simp del: str_bytes_append)
  qed
qed

theorem counter_survives_restarts_witness:
  "\<exists>vs cd. counter_run [''counter''] [Increment, Crash, Increment, Restart, Increment]
       (\<lparr>sc_value = 0, sc_persist_path = Some [''counter'']\<rparr>, []) = (Ok vs, cd) \<and> map unat vs = [1, 2, 3]"
proof -
  let ?c = "\<lparr>sc_value = 0, sc_persist_path = Some [''counter'']\<rparr>"
  have "counter_new (Some [''counter'']) [] = Ok ?c" by (simp add: counter_new_def fs_exists_def fs_read_def)
  moreover have "fs_key (with_extension [''counter''] ''tmp'') \<noteq> fs_key [''counter'']"
    by (simp add: with_extension_def file_stem_plain fs_key_def)
  moreover have "[Suc 0..<Suc (Suc (Suc (Suc 0)))] = [1, 2, 3]" by simp
  ultimately show ?thesis
    using counter_survives_restarts [of "[''counter'']" "[]" ?c "[Increment, Crash, Increment, Restart, Increment]"]
    by (simp del: counter_run.simps upt_Suc)
qed

text \<open>
  Overlapping increments persist in any order: of two values taken one after the other the earlier may be written
  last, and a restart then returns the later one again.
\<close>

lemma counter_overlap_repeats:
  assumes "counter_take c = (v, c1)" and "counter_take c1 = (w, c2)" and "sc_persist_path c = Some p"
  shows "\<exists>d1 d2 c'. counter_persist c2 w d = Ok d1 \<and> counter_persist c2 v d1 = Ok d2 \<and>
    counter_new (Some p) d2 = Ok c' \<and> fst (counter_take c') = w"
proof -
  have c2: "sc_persist_path c2 = Some p" and w: "w = v + 1"
    using assms by (auto simp: counter_take_def Let_def)
  obtain d1 where d1: "write_then_rename p (str_bytes (show_nat (unat w) @ ''\<newline>'')) d = Ok d1"
    using write_then_rename_ok by blast
  obtain d2 where d2: "write_then_rename p (str_bytes (show_nat (unat v) @ ''\<newline>'')) d1 = Ok d2"
      "fs_read d2 p = Some (str_bytes (show_nat (unat v) @ ''\<newline>''))"
    using write_then_rename_ok [of p "str_bytes (show_nat (unat v) @ ''\<newline>'')" d1] by (auto simp: fs_read_def)
  show ?thesis
    using d1 d2(1) counter_new_persisted [OF d2(2)]
    by (simp add: counter_persist_def c2 counter_take_def Let_def w del: str_bytes_append)
qed

section \<open>The format version\<close>

text \<open>
  A fresh store is marked with the current version and opens again; a store with another version is refused
  and left as it is.
\<close>

lemma version_first_use:
  assumes "\<not> fs_exists d (path_join root VERSION_FILE)"
  shows "\<exists>d'. check_or_write_version debug root d = (Ok (), d') \<and> check_or_write_version debug root d' = (Ok (), d')"
proof -
  let ?p = "path_join root VERSION_FILE"
  let ?d = "fs_write ?p (str_bytes (show_nat (unat STORE_FORMAT_VERSION) @ ''\<newline>'')) d"
  have read: "fs_read ?d ?p = Some (str_bytes (show_nat (unat STORE_FORMAT_VERSION) @ ''\<newline>''))" by simp
  have "parse_uint 32 (show_nat (unat STORE_FORMAT_VERSION)) = Some (unat STORE_FORMAT_VERSION)"
    by (rule parse_uint_show_nat) (simp add: STORE_FORMAT_VERSION_def)
  then have "check_or_write_version debug root ?d = (Ok (), ?d)"
    by (simp add: check_or_write_version_def Let_def fs_exists_def read_decimal [OF read] trim_show_nat del: str_bytes_append)
  then show ?thesis using assms by (simp add: check_or_write_version_def Let_def del: str_bytes_append)
qed

lemma version_other_refused:
  assumes "fs_read d (path_join root VERSION_FILE) = Some (str_bytes (show_nat n @ ''\<newline>''))"
    and "n \<noteq> unat STORE_FORMAT_VERSION"
  shows "\<exists>m. check_or_write_version debug root d = (Err (Rejected m), d)"
proof (cases "n < 2 ^ 32")
  case True
  then have "word_of_nat n \<noteq> STORE_FORMAT_VERSION"
    using assms(2) by (auto simp: unat_of_nat take_bit_nat_eq_self dest!: arg_cong [of _ _ unat])
  then show ?thesis
    using assms(1) parse_uint_show_nat [OF True]
    by (simp add: check_or_write_version_def Let_def fs_exists_def read_decimal trim_show_nat del: str_bytes_append)
next
  case False
  have "parse_uint 32 (show_nat n) = None"
  proof -
    have "\<not> starts_with (show_nat n) ''+''"
      using show_nat_digits [of n] by (cases "show_nat n") (auto simp: starts_with_def)
    then show ?thesis using show_nat_digits [of n] False by (simp add: parse_uint_def dec_val_show_nat Let_def)
  qed
  then show ?thesis
    using assms(1)
    by (simp add: check_or_write_version_def Let_def fs_exists_def read_decimal trim_show_nat del: str_bytes_append)
qed

end
