(* ===== verification/Membership.thy ===== *)
theory Membership
  imports Prelude
begin

text \<open>
  Cluster membership (\<open>kappa-core/src/membership.rs\<close>): the static view and the persistent state with
  roles and an epoch. The lemmas show that anchors stay distinct, that the epoch counts the changes, and that two
  majorities of voters intersect.
\<close>

section \<open>Definitions\<close>

record PeerInfo =
  pi_id :: string
  pi_address :: string
  pi_healthy :: bool

record StaticMembership =
  sm_self_id :: string
  sm_peers :: "PeerInfo list"

definition single_node :: "string \<Rightarrow> StaticMembership" where
  "single_node self_id =
     \<lparr>sm_self_id = self_id, sm_peers = [\<lparr>pi_id = self_id, pi_address = ''localhost'', pi_healthy = True\<rparr>]\<rparr>"

definition static_is_member :: "StaticMembership \<Rightarrow> string \<Rightarrow> bool" where
  "static_is_member m peer_id = list_ex (\<lambda>p. pi_id p = peer_id) (sm_peers m)"

datatype MemberRole = Voter | Learner

record MemberRecord =
  mr_anchor :: string
  mr_endpoint :: string
  mr_joined_at_ms :: u64
  mr_role :: MemberRole

record MembershipState =
  mst_members :: "MemberRecord list"
  mst_epoch :: u64

definition membership_new :: MembershipState where
  "membership_new = \<lparr>mst_members = [], mst_epoch = 0\<rparr>"

definition voter_count :: "MembershipState \<Rightarrow> nat" where
  "voter_count m = length (filter (\<lambda>r. mr_role r = Voter) (mst_members m))"

definition quorum_size :: "MembershipState \<Rightarrow> nat" where
  "quorum_size m = length (filter (\<lambda>r. mr_role r = Voter) (mst_members m)) div 2 + 1"

definition is_member :: "MembershipState \<Rightarrow> string \<Rightarrow> bool" where
  "is_member m anchor = list_ex (\<lambda>r. mr_anchor r = anchor) (mst_members m)"

definition add_member :: "MemberRecord \<Rightarrow> MembershipState \<Rightarrow> MembershipState" where
  "add_member record m =
     (if \<not> is_member m (mr_anchor record)
      then m\<lparr>mst_members := mst_members m @ [record], mst_epoch := mst_epoch m + 1\<rparr> else m)"

definition remove_member :: "string \<Rightarrow> MembershipState \<Rightarrow> MembershipState" where
  "remove_member anchor m =
     (let members = filter (\<lambda>r. mr_anchor r \<noteq> anchor) (mst_members m) in
      if length members < length (mst_members m) then m\<lparr>mst_members := members, mst_epoch := mst_epoch m + 1\<rparr>
      else m\<lparr>mst_members := members\<rparr>)"

section \<open>Membership changes\<close>

datatype membership_op = AddMember MemberRecord | RemoveMember string

fun membership_step :: "membership_op \<Rightarrow> MembershipState \<Rightarrow> MembershipState" where
  "membership_step (AddMember r) m = add_member r m"
| "membership_step (RemoveMember a) m = remove_member a m"

definition voters :: "MembershipState \<Rightarrow> string set" where
  "voters m = mr_anchor ` {r \<in> set (mst_members m). mr_role r = Voter}"

definition membership_ok :: "MembershipState \<Rightarrow> bool" where
  "membership_ok m \<longleftrightarrow> distinct (map mr_anchor (mst_members m))"

lemma membership_ok_step: "membership_ok m \<Longrightarrow> membership_ok (membership_step op m)"
  by (cases op)
    (auto simp: membership_ok_def add_member_def is_member_def remove_member_def Let_def list_ex_iff List.distinct_map_filter)

lemma voters_list: "voters m = set (map mr_anchor (filter (\<lambda>r. mr_role r = Voter) (mst_members m)))"
  by (simp add: voters_def)

lemma voter_count_card: "membership_ok m \<Longrightarrow> card (voters m) = voter_count m"
proof -
  assume ok: "membership_ok m"
  let ?vs = "filter (\<lambda>r. mr_role r = Voter) (mst_members m)"
  have "distinct (map mr_anchor ?vs)" using ok unfolding membership_ok_def by (rule List.distinct_map_filter)
  then have "card (set (map mr_anchor ?vs)) = length ?vs" by (metis distinct_card length_map)
  then show ?thesis by (simp only: voters_list voter_count_def)
qed

lemma voters_finite [simp]: "finite (voters m)"
  by (simp add: voters_def)

lemma filter_shorter: "length (filter P xs) < length xs \<longleftrightarrow> filter P xs \<noteq> xs"
  by (metis filter_id_conv length_filter_less less_not_refl3)

text \<open>One change adds or removes at most one voter.\<close>

lemma voters_step:
  assumes "membership_ok m"
  shows "\<exists>a. voters (membership_step op m) = voters m \<or> voters (membership_step op m) = insert a (voters m) \<or>
    voters (membership_step op m) = voters m - {a}"
proof (cases op)
  case (AddMember r)
  have "voters (membership_step op m) = voters m \<or> voters (membership_step op m) = insert (mr_anchor r) (voters m)"
    by (cases "mr_role r = Voter") (auto simp: AddMember add_member_def voters_def)
  then show ?thesis by blast
next
  case (RemoveMember a)
  have "mst_members (membership_step op m) = filter (\<lambda>r. mr_anchor r \<noteq> a) (mst_members m)"
    by (simp add: RemoveMember remove_member_def Let_def)
  then have "voters (membership_step op m) = voters m - {a}" by (auto simp: voters_def)
  then show ?thesis by blast
qed

lemma close_sets:
  assumes "finite A" and "B = A \<or> B = insert a A \<or> B = A - {a}"
  shows "card (A \<union> B) \<le> card A + 1 \<and> card (A \<union> B) \<le> card B + 1 \<and> (card A = card (A \<union> B) \<or> card B = card (A \<union> B))"
  using assms(2)
proof (elim disjE)
  assume "B = insert a A"
  moreover from this have "A \<union> B = B" by blast
  ultimately show ?thesis using assms(1) by (simp add: card_insert_if)
next
  assume "B = A - {a}"
  moreover from this have "A \<union> B = A" by blast
  ultimately show ?thesis using assms(1) by (simp add: card_Diff_singleton_if) arith
qed simp

lemma majorities_meet:
  assumes "finite U" and "A \<subseteq> U" and "B \<subseteq> U" and "card U < card A + card B"
  shows "A \<inter> B \<noteq> {}"
proof
  assume "A \<inter> B = {}"
  then have "card (A \<union> B) = card A + card B"
    using assms(1-3) by (meson card_Un_disjoint finite_subset)
  moreover have "card (A \<union> B) \<le> card U" using assms(1-3) by (simp add: card_mono)
  ultimately show False using assms(4) by simp
qed

lemma quorums_meet:
  assumes "membership_ok m" and "membership_ok m'" and "voters m \<union> voters m' = U"
    and "card U \<le> voter_count m + 1" and "card U \<le> voter_count m' + 1"
    and "voter_count m = card U \<or> voter_count m' = card U"
    and "Q \<subseteq> voters m" and "quorum_size m \<le> card Q" and "Q' \<subseteq> voters m'" and "quorum_size m' \<le> card Q'"
  shows "Q \<inter> Q' \<noteq> {}"
proof (rule majorities_meet [of U])
  show "finite U" using assms(3) by (metis finite_UnI voters_finite)
  show "Q \<subseteq> U" "Q' \<subseteq> U" using assms(3,7,9) by auto
  have "card Q \<ge> voter_count m div 2 + 1" "card Q' \<ge> voter_count m' div 2 + 1"
    using assms(8,10) by (simp_all add: quorum_size_def voter_count_def)
  then show "card U < card Q + card Q'" using assms(4-6) by linarith
qed

text \<open>
  C36. Whatever members are added and removed, a majority of the voters before a change and a majority after it
  have a voter in common, and so have two majorities of the same state; members stay unique by anchor, and the
  epoch advances exactly when the members change.
\<close>

theorem membership_quorums_meet:
  assumes "m = fold membership_step ops membership_new" and "m' = membership_step op m"
  shows "distinct (map mr_anchor (mst_members m)) \<and>
    (mst_epoch m' = (if mst_members m' = mst_members m then mst_epoch m else mst_epoch m + 1)) \<and>
    (\<forall>Q \<subseteq> voters m. \<forall>Q'. quorum_size m \<le> card Q \<longrightarrow>
       (Q' \<subseteq> voters m \<and> quorum_size m \<le> card Q' \<or> Q' \<subseteq> voters m' \<and> quorum_size m' \<le> card Q') \<longrightarrow> Q \<inter> Q' \<noteq> {})"
proof -
  have ok: "membership_ok (fold membership_step ops m0)" if "membership_ok m0" for m0
    using that by (induction ops arbitrary: m0) (auto intro: membership_ok_step)
  have m: "membership_ok m" unfolding assms(1) by (rule ok) (simp add: membership_ok_def membership_new_def)
  have m': "membership_ok m'" unfolding assms(2) by (rule membership_ok_step [OF m])
  have epoch: "mst_epoch m' = (if mst_members m' = mst_members m then mst_epoch m else mst_epoch m + 1)"
    unfolding assms(2)
    by (cases op) (auto simp: add_member_def remove_member_def Let_def filter_shorter)
  have same: "Q \<inter> Q' \<noteq> {}" if "Q \<subseteq> voters m" "quorum_size m \<le> card Q" "Q' \<subseteq> voters m" "quorum_size m \<le> card Q'" for Q Q'
    using quorums_meet [OF m m refl _ _ _ that] voter_count_card [OF m] by simp
  have change: "Q \<inter> Q' \<noteq> {}" if "Q \<subseteq> voters m" "quorum_size m \<le> card Q" "Q' \<subseteq> voters m'" "quorum_size m' \<le> card Q'" for Q Q'
  proof -
    from voters_step [OF m, of op] obtain a
      where "voters m' = voters m \<or> voters m' = insert a (voters m) \<or> voters m' = voters m - {a}"
      unfolding assms(2) by blast
    then have "card (voters m \<union> voters m') \<le> card (voters m) + 1 \<and> card (voters m \<union> voters m') \<le> card (voters m') + 1 \<and>
        (card (voters m) = card (voters m \<union> voters m') \<or> card (voters m') = card (voters m \<union> voters m'))"
      by (rule close_sets [OF voters_finite])
    then show ?thesis
      unfolding voter_count_card [OF m] voter_count_card [OF m']
      by (intro quorums_meet [OF m m' refl _ _ _ that]) auto
  qed
  show ?thesis
    by (intro conjI allI impI epoch m [unfolded membership_ok_def]) (use same change in blast)
qed

definition sample_voter :: "string \<Rightarrow> MemberRecord" where
  "sample_voter a = \<lparr>mr_anchor = a, mr_endpoint = ''x'', mr_joined_at_ms = 0, mr_role = Voter\<rparr>"

theorem membership_quorums_meet_witness:
  "\<exists>m m'. m = fold membership_step (map (\<lambda>a. AddMember (sample_voter a)) [''a'', ''b'', ''c'']) membership_new \<and>
     m' = membership_step (AddMember (sample_voter ''d'')) m \<and>
     quorum_size m = 2 \<and> quorum_size m' = 3 \<and> {''a'', ''b''} \<inter> {''b'', ''c'', ''d''} \<noteq> {}"
proof -
  let ?ops = "map (\<lambda>a. AddMember (sample_voter a)) [''a'', ''b'', ''c'']"
  let ?m = "fold membership_step ?ops membership_new"
  let ?m' = "membership_step (AddMember (sample_voter ''d'')) ?m"
  have members: "mst_members ?m = map sample_voter [''a'', ''b'', ''c'']"
      "mst_members ?m' = map sample_voter [''a'', ''b'', ''c'', ''d'']"
    by (simp_all add: add_member_def is_member_def membership_new_def sample_voter_def)
  then have sizes: "quorum_size ?m = 2" "quorum_size ?m' = 3"
    by (simp_all only: quorum_size_def) (simp_all add: sample_voter_def)
  have "voters ?m = {''a'', ''b'', ''c''}" "voters ?m' = {''a'', ''b'', ''c'', ''d''}"
    unfolding voters_list members by (simp_all add: sample_voter_def)
  then have sub: "{''a'', ''b''} \<subseteq> voters ?m" "{''b'', ''c'', ''d''} \<subseteq> voters ?m'" by (simp_all only:) auto
  have "quorum_size ?m \<le> card {''a'', ''b''}" "quorum_size ?m' \<le> card {''b'', ''c'', ''d''}"
    unfolding sizes by simp_all
  with sub membership_quorums_meet [OF refl refl, of ?ops "AddMember (sample_voter ''d'')"]
  have "{''a'', ''b''} \<inter> {''b'', ''c'', ''d''} \<noteq> {}" by blast
  then show ?thesis using sizes by blast
qed

end
