(* ===== verification/At_Tid.thy ===== *)
theory At_Tid
  imports Kappa_Compute Codec
begin

text \<open>
  Timestamp identifiers (\<open>kappa-module-atproto/src/tid.rs\<close>): base-32 digits in an alphabet ordered like
  its values, so that comparing texts compares timestamps. The reading of the system clock is an argument of the
  generator's step; its compare-and-exchange loop is one atomic step, since a failed exchange changes
  nothing. The lemmas show the round trip, the order of the texts and that a generator's identifiers increase.
\<close>

unbundle bit_operations_syntax

section \<open>Definitions\<close>

definition S32_CHAR :: string where
  "S32_CHAR = ''234567abcdefghijklmnopqrstuvwxyz''"

definition TID_LEN :: nat where
  "TID_LEN = 13"

record TidGenerator =
  tg_clock_id :: byte
  tg_last_timestamp :: u64

datatype TidError = InvalidLength nat

definition tid_new :: "('x) hashes_scheme \<Rightarrow> string \<Rightarrow> TidGenerator" where
  "tid_new H node_anchor =
     \<lparr>tg_clock_id = hd (sha256_digest H (str_bytes node_anchor)) AND 0x1F, tg_last_timestamp = 0\<rparr>"

definition with_clock_id :: "byte \<Rightarrow> TidGenerator" where
  "with_clock_id clock_id = \<lparr>tg_clock_id = clock_id AND 0x1F, tg_last_timestamp = 0\<rparr>"

fun s32_encode :: "nat \<Rightarrow> string" where
  "s32_encode n = (if n = 0 then [] else s32_encode (n div 32) @ [S32_CHAR ! (n mod 32)])"

declare s32_encode.simps [simp del]

definition s32_pad :: "nat \<Rightarrow> string \<Rightarrow> string" where
  "s32_pad k s = replicate (k - length s) (S32_CHAR ! 0) @ s"

definition tid_from_parts :: "u64 \<Rightarrow> byte \<Rightarrow> string" where
  "tid_from_parts timestamp clock_id =
     s32_pad 11 (s32_encode (unat timestamp)) @ s32_pad 2 (s32_encode (unat clock_id))"

definition tid_next :: "u64 \<Rightarrow> TidGenerator \<Rightarrow> string \<times> TidGenerator" where
  "tid_next now_us g =
     (let prev = tg_last_timestamp g;
          ts = (if now_us > prev then now_us else prev + 1)
      in (tid_from_parts ts (tg_clock_id g), g\<lparr>tg_last_timestamp := ts\<rparr>))"

definition s32_val :: "byte \<Rightarrow> u64" where
  "s32_val b =
     (if byte_of_char CHR ''2'' \<le> b \<and> b \<le> byte_of_char CHR ''7'' then ucast (b - byte_of_char CHR ''2'')
      else if byte_of_char CHR ''a'' \<le> b \<and> b \<le> byte_of_char CHR ''z'' then ucast (b - byte_of_char CHR ''a'' + 6)
      else 0)"

definition s32_decode :: "string \<Rightarrow> u64" where
  "s32_decode s = foldl (\<lambda>n b. n * 32 + s32_val b) 0 (str_bytes s)"

definition drop_dashes :: "string \<Rightarrow> string" where
  "drop_dashes s = filter (\<lambda>c. c \<noteq> CHR ''-'') s"

text \<open>A slice of a string at a byte inside a character panics.\<close>

definition parse_tid :: "string \<Rightarrow> (u64 \<times> byte, TidError) result" where
  "parse_tid s =
     (let clean = drop_dashes s in
      if length clean \<noteq> TID_LEN then Err (InvalidLength (length clean))
      else if is_cont (byte_of_char (clean ! 11)) then Panic
      else Ok (s32_decode (take 11 clean), ucast (s32_decode (drop 11 clean))))"

definition is_valid_tid :: "string \<Rightarrow> bool" where
  "is_valid_tid s =
     (let clean = drop_dashes s in
      length clean = TID_LEN \<and>
      list_all (\<lambda>b. byte_of_char CHR ''2'' \<le> b \<and> b \<le> byte_of_char CHR ''7'' \<or>
                    byte_of_char CHR ''a'' \<le> b \<and> b \<le> byte_of_char CHR ''z'') (str_bytes clean))"

section \<open>Digits\<close>

fun s32_fixed :: "nat \<Rightarrow> nat \<Rightarrow> string" where
  "s32_fixed 0 n = []"
| "s32_fixed (Suc k) n = s32_fixed k (n div 32) @ [S32_CHAR ! (n mod 32)]"

lemma length_s32_fixed [simp]: "length (s32_fixed k n) = k"
  by (induction k arbitrary: n) simp_all

lemma s32_fixed_0: "s32_fixed k 0 = replicate k (S32_CHAR ! 0)"
  by (induction k) (simp_all add: replicate_append_same)

lemma s32_pad_fixed: "n < 32 ^ k \<Longrightarrow> s32_pad k (s32_encode n) = s32_fixed k n"
proof (induction k arbitrary: n)
  case 0
  then show ?case by (simp add: s32_pad_def s32_encode.simps)
next
  case (Suc k)
  show ?case
  proof (cases "n = 0")
    case True
    then show ?thesis by (simp add: s32_pad_def s32_encode.simps [of 0] s32_fixed_0 del: s32_fixed.simps)
  next
    case False
    have "n div 32 < 32 ^ k" using Suc.prems by (simp add: less_mult_imp_div_less mult.commute)
    from Suc.IH [OF this] False show ?thesis
      by (simp add: s32_pad_def s32_encode.simps [of n])
  qed
qed

lemma S32_CHAR_digits:
  "length S32_CHAR = 32" "sorted_wrt (<) S32_CHAR"
  "map (\<lambda>c. s32_val (byte_of_char c)) S32_CHAR = map word_of_nat [0..<32]"
  "list_all (\<lambda>c. (byte_of_char CHR ''2'' \<le> byte_of_char c \<and> byte_of_char c \<le> byte_of_char CHR ''7'' \<or>
     byte_of_char CHR ''a'' \<le> byte_of_char c \<and> byte_of_char c \<le> byte_of_char CHR ''z'') \<and> c \<noteq> CHR ''-'' \<and>
     \<not> is_cont (byte_of_char c)) S32_CHAR"
  by (code_simp)+

lemma s32_digit:
  assumes "d < 32"
  shows "s32_val (byte_of_char (S32_CHAR ! d)) = word_of_nat d"
    "byte_of_char CHR ''2'' \<le> byte_of_char (S32_CHAR ! d) \<and> byte_of_char (S32_CHAR ! d) \<le> byte_of_char CHR ''7'' \<or>
     byte_of_char CHR ''a'' \<le> byte_of_char (S32_CHAR ! d) \<and> byte_of_char (S32_CHAR ! d) \<le> byte_of_char CHR ''z''"
    "S32_CHAR ! d \<noteq> CHR ''-''" "\<not> is_cont (byte_of_char (S32_CHAR ! d))"
proof -
  have "map (\<lambda>c. s32_val (byte_of_char c)) S32_CHAR ! d = map word_of_nat [0..<32] ! d"
    by (simp only: S32_CHAR_digits(3))
  then show "s32_val (byte_of_char (S32_CHAR ! d)) = word_of_nat d"
    using assms S32_CHAR_digits(1) by (simp del: upt_Suc)
  have "S32_CHAR ! d \<in> set S32_CHAR" using assms S32_CHAR_digits(1) by simp
  with S32_CHAR_digits(4) show
    "byte_of_char CHR ''2'' \<le> byte_of_char (S32_CHAR ! d) \<and> byte_of_char (S32_CHAR ! d) \<le> byte_of_char CHR ''7'' \<or>
     byte_of_char CHR ''a'' \<le> byte_of_char (S32_CHAR ! d) \<and> byte_of_char (S32_CHAR ! d) \<le> byte_of_char CHR ''z''"
    "S32_CHAR ! d \<noteq> CHR ''-''" "\<not> is_cont (byte_of_char (S32_CHAR ! d))"
    unfolding list_all_iff by blast+
qed

lemma s32_fixed_chars: "c \<in> set (s32_fixed k n) \<Longrightarrow> \<exists>d < 32. c = S32_CHAR ! d"
proof (induction k arbitrary: n)
  case (Suc k)
  show ?case
  proof (cases "c = S32_CHAR ! (n mod 32)")
    case True
    then show ?thesis by (intro exI [of _ "n mod 32"]) simp
  next
    case False
    then show ?thesis using Suc by simp
  qed
qed simp

lemma s32_decode_fixed: "s32_decode (s32_fixed k n) = word_of_nat (n mod 32 ^ k)"
proof (induction k arbitrary: n)
  case 0
  then show ?case by (simp add: s32_decode_def)
next
  case (Suc k)
  have "s32_decode (s32_fixed (Suc k) n) = s32_decode (s32_fixed k (n div 32)) * 32 + word_of_nat (n mod 32)"
    by (simp add: s32_decode_def s32_digit(1))
  also have "\<dots> = word_of_nat (n div 32 mod 32 ^ k * 32 + n mod 32)" by (simp add: Suc.IH)
  also have "n div 32 mod 32 ^ k * 32 + n mod 32 = n mod 32 ^ Suc k"
    by (simp add: mod_mult2_eq mult.commute)
  finally show ?case .
qed

lemma snoc_less:
  fixes xs ys :: "'a::linorder list"
  shows "length xs = length ys \<Longrightarrow> xs @ [a] < ys @ [b] \<longleftrightarrow> xs < ys \<or> xs = ys \<and> a < b"
proof (induction xs ys rule: list_induct2)
  case (Cons x xs y ys)
  then show ?case by (auto simp: Cons_less_Cons)
qed simp

lemma s32_fixed_less: "n < m \<Longrightarrow> m < 32 ^ k \<Longrightarrow> s32_fixed k n < s32_fixed k m"
proof (induction k arbitrary: n m)
  case 0
  then show ?case by simp
next
  case (Suc k)
  have m: "m div 32 < 32 ^ k" using Suc.prems(2) by (simp add: less_mult_imp_div_less mult.commute)
  have "n div 32 < m div 32 \<or> n div 32 = m div 32 \<and> n mod 32 < m mod 32"
    using Suc.prems(1) by (metis div_le_mono div_mult_mod_eq le_neq_implies_less less_imp_le nat_add_left_cancel_less)
  then show ?case
  proof
    assume "n div 32 < m div 32"
    from Suc.IH [OF this m] show ?thesis by (simp add: snoc_less)
  next
    assume "n div 32 = m div 32 \<and> n mod 32 < m mod 32"
    then show ?thesis
      using sorted_wrt_nth_less [OF S32_CHAR_digits(2), of "n mod 32" "m mod 32"] S32_CHAR_digits(1)
      by (simp add: snoc_less)
  qed
qed

lemma append_less:
  fixes xs ys :: "'a::linorder list"
  shows "length xs = length ys \<Longrightarrow> xs < ys \<Longrightarrow> xs @ us < ys @ vs"
  by (induction xs ys rule: list_induct2) (auto simp: Cons_less_Cons)

lemma tid_fixed:
  assumes "unat ts < 2 ^ 55" and "c < 32"
  shows "tid_from_parts ts c = s32_fixed 11 (unat ts) @ s32_fixed 2 (unat c)"
proof -
  have "unat ts < 32 ^ 11" using assms(1) by simp
  moreover have "unat c < 32 ^ 2" using assms(2) by (simp add: word_less_nat_alt)
  ultimately show ?thesis by (simp add: tid_from_parts_def s32_pad_fixed)
qed

lemma tid_parse:
  assumes "unat ts < 2 ^ 55" and "c < 32"
  shows "parse_tid (tid_from_parts ts c) = Ok (ts, c)" and "is_valid_tid (tid_from_parts ts c)"
proof -
  let ?t = "s32_fixed 11 (unat ts)" and ?c = "s32_fixed 2 (unat c)"
  have ok: "x \<noteq> CHR ''-'' \<and> \<not> is_cont (byte_of_char x) \<and>
      (byte_of_char CHR ''2'' \<le> byte_of_char x \<and> byte_of_char x \<le> byte_of_char CHR ''7'' \<or>
       byte_of_char CHR ''a'' \<le> byte_of_char x \<and> byte_of_char x \<le> byte_of_char CHR ''z'')" if x: "x \<in> set (?t @ ?c)" for x
  proof -
    have "\<exists>d < 32. x = S32_CHAR ! d" using x s32_fixed_chars by (metis Un_iff set_append)
    then obtain d where d: "d < 32" "x = S32_CHAR ! d" by blast
    show ?thesis unfolding d(2) by (intro conjI s32_digit(2-4) [OF d(1)])
  qed
  have clean: "drop_dashes (?t @ ?c) = ?t @ ?c"
    unfolding drop_dashes_def by (rule filter_True) (use ok in blast)
  have "(?t @ ?c) ! 11 \<in> set (?t @ ?c)" by (rule nth_mem) simp
  then have cont: "\<not> is_cont (byte_of_char ((?t @ ?c) ! 11))" using ok by blast
  have ts: "unat ts mod 32 ^ 11 = unat ts" using assms(1) by simp
  have c: "unat c mod 32 ^ 2 = unat c" using assms(2) by (simp add: word_less_nat_alt)
  have uc: "ucast (ucast c :: u64) = c" by (rule bit_word_eqI) (simp add: bit_simps)
  have dt: "s32_decode ?t = ts" by (simp only: s32_decode_fixed ts) simp
  have dc: "ucast (s32_decode ?c) = c" by (simp only: s32_decode_fixed c) (simp add: uc)
  show "parse_tid (tid_from_parts ts c) = Ok (ts, c)"
    using cont unfolding tid_fixed [OF assms] parse_tid_def clean Let_def
    by (simp add: TID_LEN_def dt dc del: s32_fixed.simps)
  show "is_valid_tid (tid_from_parts ts c)"
    unfolding tid_fixed [OF assms] is_valid_tid_def clean Let_def
    using ok by (auto simp add: TID_LEN_def list_all_iff str_bytes_def simp del: s32_fixed.simps)
qed

fun tid_run :: "u64 list \<Rightarrow> TidGenerator \<Rightarrow> string list" where
  "tid_run [] g = []"
| "tid_run (now # nows) g = (case tid_next now g of (t, g) \<Rightarrow> t # tid_run nows g)"

lemma tid_run_increases:
  assumes "tg_clock_id g < 32" and "unat (tg_last_timestamp g) + length nows < 2 ^ 55" and "\<forall>now \<in> set nows. unat now + length nows < 2 ^ 55"
  shows "sorted_wrt (<) (tid_run nows g) \<and> length (tid_run nows g) = length nows \<and>
    (\<forall>t \<in> set (tid_run nows g). \<exists>ts. parse_tid t = Ok (ts, tg_clock_id g) \<and> ts > tg_last_timestamp g \<and>
       t = tid_from_parts ts (tg_clock_id g) \<and> unat ts < 2 ^ 55)"
  using assms
proof (induction nows arbitrary: g)
  case Nil
  then show ?case by simp
next
  case (Cons now nows)
  define ts where "ts = (if now > tg_last_timestamp g then now else tg_last_timestamp g + 1)"
  let ?g = "g\<lparr>tg_last_timestamp := ts\<rparr>" and ?c = "tg_clock_id g"
  have suc: "unat (tg_last_timestamp g + 1) = unat (tg_last_timestamp g) + 1"
    using Cons.prems(2) by (simp add: unat_word_ariths)
  have ts: "unat ts + length nows < 2 ^ 55" and gt: "ts > tg_last_timestamp g"
    using Cons.prems(2,3) suc by (auto simp: ts_def word_less_nat_alt)
  have "\<forall>now \<in> set nows. unat now + length nows < 2 ^ 55"
  proof
    fix x assume "x \<in> set nows"
    then have "unat x + length (now # nows) < 2 ^ 55" using Cons.prems(3) by simp
    then show "unat x + length nows < 2 ^ 55" by simp
  qed
  with Cons.IH [of ?g] Cons.prems(1) ts have IH: "sorted_wrt (<) (tid_run nows ?g)" "length (tid_run nows ?g) = length nows"
    "\<And>t. t \<in> set (tid_run nows ?g) \<Longrightarrow> \<exists>ts'. parse_tid t = Ok (ts', ?c) \<and> ts' > ts \<and> t = tid_from_parts ts' ?c \<and> unat ts' < 2 ^ 55"
    by auto
  have run: "tid_run (now # nows) g = tid_from_parts ts ?c # tid_run nows ?g"
    by (simp add: tid_next_def Let_def ts_def)
  have less: "tid_from_parts ts ?c < t" if "t \<in> set (tid_run nows ?g)" for t
  proof -
    from IH(3) [OF that] obtain ts' where ts': "ts < ts'" "t = tid_from_parts ts' ?c" "unat ts' < 2 ^ 55" by blast
    have "s32_fixed 11 (unat ts) < s32_fixed 11 (unat ts')"
      using ts'(1,3) by (intro s32_fixed_less) (simp_all add: word_less_nat_alt)
    then show ?thesis
      using ts ts'(2,3) Cons.prems(1) by (simp add: tid_fixed append_less del: s32_fixed.simps)
  qed
  have "parse_tid (tid_from_parts ts ?c) = Ok (ts, ?c)" using ts Cons.prems(1) by (intro tid_parse) simp_all
  moreover have "unat ts < 2 ^ 55" using ts by simp
  moreover have "\<exists>ts'. parse_tid t = Ok (ts', ?c) \<and> ts' > tg_last_timestamp g \<and> t = tid_from_parts ts' ?c \<and> unat ts' < 2 ^ 55"
    if "t \<in> set (tid_run nows ?g)" for t
  proof -
    from IH(3) [OF that] obtain ts' where "parse_tid t = Ok (ts', ?c)" "ts' > ts" "t = tid_from_parts ts' ?c" "unat ts' < 2 ^ 55"
      by blast
    then show ?thesis using order.strict_trans [OF gt] by (intro exI [of _ ts']) simp
  qed
  ultimately show ?case
    unfolding run using IH(1,2) less gt by auto
qed



text \<open>Each commit of a repository makes a new generator, so two commits in one microsecond share a revision.\<close>

lemma tid_fresh_generator_repeats:
  "0 < now \<Longrightarrow> fst (tid_next now (with_clock_id 0)) = tid_from_parts now 0"
  by (simp add: tid_next_def with_clock_id_def Let_def)

end
