(* ===== verification/At_Cid.thy ===== *)
theory At_Cid
  imports Kappa_Compute
begin

text \<open>
  Content identifiers (\<open>kappa-module-atproto/src/cid.rs\<close>): the 36 bytes of a SHA-256 identifier and its
  base-32 text. The lemmas relate the bit accumulators of the encoder and the decoder to the sequence of bits
  and show that the text determines the bytes.
\<close>

unbundle bit_operations_syntax

section \<open>Definitions\<close>

datatype CidError = UnsupportedMultibase | InvalidBase32 | CidTooShort

definition cid_for_cbor :: "('x) hashes_scheme \<Rightarrow> bytes \<Rightarrow> bytes" where
  "cid_for_cbor H data = [0x01, 0x71, 0x12, 0x20] @ sha256_digest H data"

definition B32_ALPHA :: string where
  "B32_ALPHA = ''abcdefghijklmnopqrstuvwxyz234567''"

fun b32_drain :: "u32 \<Rightarrow> nat \<Rightarrow> string \<times> nat" where
  "b32_drain bits nbits =
     (if nbits \<ge> 5 then
        let nbits = nbits - 5;
            c = B32_ALPHA ! unat (drop_bit nbits bits AND 0x1F);
            (out, rest) = b32_drain bits nbits
        in (c # out, rest)
      else ([], nbits))"

declare b32_drain.simps [simp del]

fun b32_encode_loop :: "bytes \<Rightarrow> u32 \<Rightarrow> nat \<Rightarrow> string" where
  "b32_encode_loop [] bits nbits =
     (if nbits > 0 then [B32_ALPHA ! unat (push_bit (5 - nbits) bits AND 0x1F)] else [])"
| "b32_encode_loop (byte # data) bits nbits =
     (let bits = push_bit 8 bits OR ucast byte;
          (out, nbits) = b32_drain bits (nbits + 8)
      in out @ b32_encode_loop data bits nbits)"

definition base32_lower_encode :: "bytes \<Rightarrow> string" where
  "base32_lower_encode data = b32_encode_loop data 0 0"

definition b32_val :: "byte \<Rightarrow> byte option" where
  "b32_val c =
     (if byte_of_char CHR ''a'' \<le> c \<and> c \<le> byte_of_char CHR ''z'' then Some (c - byte_of_char CHR ''a'')
      else if byte_of_char CHR ''2'' \<le> c \<and> c \<le> byte_of_char CHR ''7'' then Some (c - byte_of_char CHR ''2'' + 26)
      else None)"

fun b32_decode_loop :: "bytes \<Rightarrow> u32 \<Rightarrow> nat \<Rightarrow> bytes option" where
  "b32_decode_loop [] bits nbits = Some []"
| "b32_decode_loop (c # s) bits nbits =
     (case b32_val c of
        None \<Rightarrow> None
      | Some val \<Rightarrow>
          let bits = push_bit 5 bits OR ucast val;
              nbits = nbits + 5
          in if nbits \<ge> 8 then map_option (Cons (ucast (drop_bit (nbits - 8) bits))) (b32_decode_loop s bits (nbits - 8))
             else b32_decode_loop s bits nbits)"

definition base32_lower_decode :: "string \<Rightarrow> bytes option" where
  "base32_lower_decode s = b32_decode_loop (str_bytes s) 0 0"

definition cid_to_string :: "bytes \<Rightarrow> string" where
  "cid_to_string cid = CHR ''b'' # base32_lower_encode cid"

definition cid_from_string :: "string \<Rightarrow> (bytes, CidError) result" where
  "cid_from_string s =
     (if \<not> starts_with s ''b'' then Err UnsupportedMultibase
      else ok_or InvalidBase32 (base32_lower_decode (drop 1 s)))"

definition verify_cid :: "('x) hashes_scheme \<Rightarrow> bytes \<Rightarrow> bytes \<Rightarrow> bool" where
  "verify_cid H cid data = (if length cid \<noteq> 36 then False else cid = cid_for_cbor H data)"

definition cid_digest :: "bytes \<Rightarrow> bytes option" where
  "cid_digest cid =
     (if length cid \<ge> 36 \<and> cid ! 0 = 0x01 \<and> cid ! 2 = 0x12 then Some (take 32 (drop 4 cid)) else None)"

section \<open>Bits\<close>

definition word_bits :: "nat \<Rightarrow> 'a::len word \<Rightarrow> bool list" where
  "word_bits n w = map (bit w) (rev [0..<n])"

lemma length_word_bits [simp]: "length (word_bits n w) = n"
  by (simp add: word_bits_def)

lemma word_bits_0 [simp]: "word_bits 0 w = []"
  by (simp add: word_bits_def)

lemma nth_word_bits: "i < n \<Longrightarrow> word_bits n w ! i = bit w (n - 1 - i)"
  by (simp add: word_bits_def rev_nth)

lemma word_bits_shift:
  fixes acc :: u32 and v :: byte
  assumes "n + k \<le> 32" and "k \<le> 8" and "unat v < 2 ^ k"
  shows "word_bits (n + k) (push_bit k acc OR ucast v) = word_bits n acc @ word_bits k v"
proof (rule nth_equalityI)
  fix i assume "i < length (word_bits (n + k) (push_bit k acc OR ucast v))"
  then have i: "i < n + k" by simp
  have v: "\<not> bit v j" if "j \<ge> k" for j
  proof -
    have "take_bit k v = v" using assms(3) by (metis take_bit_eq_self_iff_drop_bit_eq_0 take_bit_nat_eq_self unsigned_take_bit_eq word_unat_eq_iff)
    then show ?thesis using that by (metis bit_take_bit_iff not_less)
  qed
  show "word_bits (n + k) (push_bit k acc OR ucast v) ! i = (word_bits n acc @ word_bits k v) ! i"
    using i assms v by (auto simp: nth_word_bits nth_append bit_simps add.commute [of k n])
qed simp

lemma word_bits_drop:
  "k \<le> n \<Longrightarrow> word_bits n w = word_bits (n - k) (drop_bit k w) @ word_bits k w"
  by (rule nth_equalityI) (auto simp: nth_word_bits nth_append bit_simps)

lemma word_bits_cong: "(\<And>i. i < n \<Longrightarrow> bit v i = bit w i) \<Longrightarrow> word_bits n v = word_bits n w"
  by (simp add: word_bits_def)

lemma B32_digits:
  "length B32_ALPHA = 32"
  "map (\<lambda>c. b32_val (byte_of_char c)) B32_ALPHA = map (\<lambda>d. Some (word_of_nat d)) [0..<32]"
  by code_simp+

lemma b32_val_digit: "d < 32 \<Longrightarrow> b32_val (byte_of_char (B32_ALPHA ! d)) = Some (word_of_nat d)"
proof -
  assume d: "d < 32"
  have "map (\<lambda>c. b32_val (byte_of_char c)) B32_ALPHA ! d = map (\<lambda>d. Some (word_of_nat d)) [0..<32] ! d"
    by (simp only: B32_digits(2))
  then show ?thesis using d B32_digits(1) by (simp del: upt_Suc)
qed

definition digit_bits :: "nat \<Rightarrow> bool list" where
  "digit_bits d = word_bits 5 (word_of_nat d :: byte)"

lemma length_digit_bits [simp]: "length (digit_bits d) = 5"
  by (simp add: digit_bits_def)

lemma digit_bits_word:
  fixes w :: u32
  shows "unat (w AND 0x1F) < 32" "digit_bits (unat (w AND 0x1F)) = word_bits 5 w"
proof -
  have m: "(0x1F :: u32) = mask 5" by (simp add: mask_eq_exp_minus_1)
  have w: "w AND 0x1F = take_bit 5 w" unfolding m by (simp add: take_bit_eq_mask)
  have "unat (take_bit 5 w) = take_bit 5 (unat w)" by (simp add: unsigned_take_bit_eq)
  then show "unat (w AND 0x1F) < 32" unfolding w by (simp add: take_bit_nat_def)
  show "digit_bits (unat (w AND 0x1F)) = word_bits 5 w"
    unfolding digit_bits_def w by (rule nth_equalityI) (auto simp: nth_word_bits bit_simps)
qed

lemma drain_bits:
  "b32_drain acc n = (out, rest) \<Longrightarrow> rest < 5 \<and>
     (\<exists>ds. out = map (\<lambda>d. B32_ALPHA ! d) ds \<and> (\<forall>d \<in> set ds. d < 32) \<and>
       concat (map digit_bits ds) @ word_bits rest acc = word_bits n acc)"
proof (induction acc n arbitrary: out rest rule: b32_drain.induct)
  case (1 acc n)
  show ?case
  proof (cases "n \<ge> 5")
    case True
    obtain out' rest' where d: "b32_drain acc (n - 5) = (out', rest')" by fastforce
    let ?d = "unat (drop_bit (n - 5) acc AND 0x1F)"
    have out: "out = B32_ALPHA ! ?d # out'" "rest = rest'"
      using "1.prems" True d by (simp_all add: b32_drain.simps [of acc n] Let_def)
    from "1.IH" [OF True refl refl d] obtain ds where ds: "rest' < 5" "out' = map (\<lambda>d. B32_ALPHA ! d) ds" "\<forall>d \<in> set ds. d < 32"
        "concat (map digit_bits ds) @ word_bits rest' acc = word_bits (n - 5) acc" by blast
    have "word_bits n acc = digit_bits ?d @ word_bits (n - 5) acc"
      using word_bits_drop [of "n - 5" n acc] True digit_bits_word(2) [of "drop_bit (n - 5) acc"] by simp
    with ds out digit_bits_word(1) [of "drop_bit (n - 5) acc"] show ?thesis
      by (intro conjI exI [of _ "?d # ds"]) auto
  next
    case False
    then have "out = []" "rest = n" using "1.prems" by (simp_all add: b32_drain.simps [of acc n])
    then show ?thesis using False by (intro conjI exI [of _ "[]"]) auto
  qed
qed

lemma encode_bits:
  "n < 5 \<Longrightarrow> \<exists>ds z. b32_encode_loop data acc n = map (\<lambda>d. B32_ALPHA ! d) ds \<and> (\<forall>d \<in> set ds. d < 32) \<and> z < 5 \<and>
     concat (map digit_bits ds) = word_bits n acc @ concat (map (word_bits 8) data) @ replicate z False"
proof (induction data arbitrary: acc n)
  case Nil
  let ?w = "push_bit (5 - n) acc"
  show ?case
  proof (cases "n = 0")
    case True
    then show ?thesis by (intro exI [of _ "[]"] exI [of _ 0]) simp
  next
    case False
    have "word_bits 5 ?w = word_bits n acc @ replicate (5 - n) False"
      using Nil by (intro nth_equalityI) (auto simp: nth_word_bits nth_append bit_simps)
    then show ?thesis
      using False digit_bits_word [of ?w] by (intro exI [of _ "[unat (?w AND 0x1F)]"] exI [of _ "5 - n"]) simp
  qed
next
  case (Cons byte data)
  let ?acc = "push_bit 8 acc OR ucast byte :: u32"
  obtain out rest where d: "b32_drain ?acc (n + 8) = (out, rest)" by fastforce
  from drain_bits [OF d] obtain ds where ds: "rest < 5" "out = map (\<lambda>d. B32_ALPHA ! d) ds" "\<forall>d \<in> set ds. d < 32"
      "concat (map digit_bits ds) @ word_bits rest ?acc = word_bits (n + 8) ?acc" by blast
  have bits: "word_bits (n + 8) ?acc = word_bits n acc @ word_bits 8 byte"
    using Cons.prems unsigned_less [of byte, where ?'a = nat] by (intro word_bits_shift) simp_all
  from Cons.IH [OF ds(1), of ?acc] obtain ds' z where ds':
      "b32_encode_loop data ?acc rest = map (\<lambda>d. B32_ALPHA ! d) ds'" "\<forall>d \<in> set ds'. d < 32" "z < 5"
      "concat (map digit_bits ds') = word_bits rest ?acc @ concat (map (word_bits 8) data) @ replicate z False" by blast
  have "concat (map digit_bits (ds @ ds')) = (concat (map digit_bits ds) @ word_bits rest ?acc) @
      concat (map (word_bits 8) data) @ replicate z False" using ds'(4) by simp
  then have "concat (map digit_bits (ds @ ds')) =
      word_bits n acc @ concat (map (word_bits 8) (byte # data)) @ replicate z False"
    unfolding ds(4) bits by simp
  then show ?case
    using ds ds' d by (intro exI [of _ "ds @ ds'"] exI [of _ z]) (auto simp: Let_def)
qed

lemma decode_bits:
  "n < 8 \<Longrightarrow> \<forall>d \<in> set ds. d < 32 \<Longrightarrow>
   \<exists>out rest. b32_decode_loop (map (\<lambda>d. byte_of_char (B32_ALPHA ! d)) ds) acc n = Some out \<and> length rest < 8 \<and>
     word_bits n acc @ concat (map digit_bits ds) = concat (map (word_bits 8) out) @ rest"
proof (induction ds arbitrary: acc n)
  case Nil
  then show ?case by (intro exI [of _ "[]"] exI [of _ "word_bits n acc"]) simp
next
  case (Cons d ds)
  let ?acc = "push_bit 5 acc OR ucast (word_of_nat d :: byte) :: u32"
  have val: "b32_val (byte_of_char (B32_ALPHA ! d)) = Some (word_of_nat d)" using Cons.prems(2) by (simp add: b32_val_digit)
  have "unat (word_of_nat d :: byte) < 2 ^ 5" using Cons.prems(2) by (simp add: unat_of_nat take_bit_nat_eq_self)
  then have bits: "word_bits (n + 5) ?acc = word_bits n acc @ digit_bits d"
    unfolding digit_bits_def using Cons.prems(1) by (intro word_bits_shift) simp_all
  show ?case
  proof (cases "n + 5 \<ge> 8")
    case True
    let ?b = "ucast (drop_bit (n + 5 - 8) ?acc) :: byte"
    have "word_bits (n + 5) w = word_bits 8 (ucast (drop_bit (n + 5 - 8) w) :: byte) @ word_bits (n + 5 - 8) w" for w :: u32
      using True Cons.prems(1) by (intro nth_equalityI) (auto simp: nth_word_bits nth_append bit_simps add.commute [of 4 n])
    note b = this [of ?acc]
    have "n + 5 - 8 < 8" "\<forall>d \<in> set ds. d < 32" using Cons.prems by simp_all
    from Cons.IH [OF this, of ?acc] obtain out rest where
      "b32_decode_loop (map (\<lambda>d. byte_of_char (B32_ALPHA ! d)) ds) ?acc (n + 5 - 8) = Some out" "length rest < 8"
      "word_bits (n + 5 - 8) ?acc @ concat (map digit_bits ds) = concat (map (word_bits 8) out) @ rest" by blast
    moreover from this(3) have "(word_bits n acc @ digit_bits d) @ concat (map digit_bits ds) =
        word_bits 8 ?b @ concat (map (word_bits 8) out) @ rest"
      unfolding bits [symmetric] b by (simp only: append_assoc)
    ultimately show ?thesis
      using True val by (intro exI [of _ "?b # out"] exI [of _ rest]) (simp add: Let_def del: drop_bit_or)
  next
    case False
    have "n + 5 < 8" "\<forall>d \<in> set ds. d < 32" using Cons.prems False by simp_all
    from Cons.IH [OF this, of ?acc] obtain out rest where
      "b32_decode_loop (map (\<lambda>d. byte_of_char (B32_ALPHA ! d)) ds) ?acc (n + 5) = Some out" "length rest < 8"
      "word_bits (n + 5) ?acc @ concat (map digit_bits ds) = concat (map (word_bits 8) out) @ rest" by blast
    then show ?thesis using False val bits by (intro exI [of _ out] exI [of _ rest]) (simp add: Let_def)
  qed
qed

lemma word_bits_inject: "word_bits 8 a = word_bits 8 b \<Longrightarrow> a = (b :: byte)"
proof (rule bit_word_eqI)
  fix i assume eq: "word_bits 8 a = word_bits 8 b" and "i < LENGTH(8)"
  then have i: "7 - i < 8" "8 - 1 - (7 - i) = i" by simp_all
  show "bit a i = bit b i" using nth_word_bits [OF i(1), of a] nth_word_bits [OF i(1), of b] eq i(2) by simp
qed

lemma byte_bits_unique:
  "concat (map (word_bits 8) xs) @ r = concat (map (word_bits 8) ys) @ z \<Longrightarrow> length r < 8 \<Longrightarrow> length z < 8 \<Longrightarrow>
   xs = (ys :: bytes)"
proof (induction xs arbitrary: ys)
  case Nil
  then show ?case by (cases ys) (auto dest: arg_cong [of _ _ length])
next
  case (Cons x xs)
  show ?case
  proof (cases ys)
    case Nil
    then show ?thesis using Cons.prems by (auto dest: arg_cong [of _ _ length])
  next
    case (Cons y ys')
    with Cons.prems(1) have "word_bits 8 x = word_bits 8 y"
      "concat (map (word_bits 8) xs) @ r = concat (map (word_bits 8) ys') @ z" by simp_all
    then show ?thesis using Cons.IH Cons.prems(2,3) Cons word_bits_inject by simp
  qed
qed

text \<open>
  C38. The text of a content identifier determines its bytes: printing any bytes in base 32 with the multibase
  prefix and parsing the text gives the bytes back, and the identifier of a block verifies exactly that
  block's digest.
\<close>

theorem cid_text_roundtrip:
  "cid_from_string (cid_to_string bs) = Ok bs \<and>
   (verify_cid H (cid_for_cbor H data) data' \<longleftrightarrow>
      length (sha256_digest H data) = 32 \<and> sha256_digest H data = sha256_digest H data')"
proof -
  from encode_bits [of 0 bs 0] obtain ds z where ds: "base32_lower_encode bs = map (\<lambda>d. B32_ALPHA ! d) ds"
      "\<forall>d \<in> set ds. d < 32" "z < 5" "concat (map digit_bits ds) = concat (map (word_bits 8) bs) @ replicate z False"
    by (auto simp: base32_lower_encode_def)
  from decode_bits [OF _ ds(2), of 0 0] obtain out rest where out:
      "b32_decode_loop (map (\<lambda>d. byte_of_char (B32_ALPHA ! d)) ds) 0 0 = Some out" "length rest < 8"
      "concat (map digit_bits ds) = concat (map (word_bits 8) out) @ rest" by auto
  have "out = bs"
    using out(2,3) ds(3,4) by (intro byte_bits_unique [of out rest bs "replicate z False"]) simp_all
  then have "base32_lower_decode (base32_lower_encode bs) = Some bs"
    using out(1) by (simp add: base32_lower_decode_def ds(1) str_bytes_def o_def)
  then show ?thesis
    by (auto simp: cid_from_string_def cid_to_string_def starts_with_def verify_cid_def cid_for_cbor_def)
qed

end
