(* ===== verification/At_Car.thy ===== *)
theory At_Car
  imports At_Cid Codec Delta
begin

text \<open>
  Content-addressable archives (\<open>kappa-module-atproto/src/car.rs\<close>): a header with the roots and a
  sequence of blocks, each behind a variable-length integer. Positions are natural numbers; the additions of a
  length from the wire to a position, which may exceed 64 bits, wrap around. The lemmas show that an archive
  decodes to what it was encoded from, through the positional parsers of the library.
\<close>

unbundle bit_operations_syntax

section \<open>Definitions\<close>

record CarBlock =
  cb_cid :: bytes
  cb_bytes :: bytes

datatype CarError =
    CarTruncated string
  | BlockTooLarge nat
  | CarInvalidHeader
  | UnsupportedVersion nat
  | TooManyRoots nat
  | CarInvalidCid
  | CarVarintOverflow

definition MAX_BLOCK_SIZE :: nat where
  "MAX_BLOCK_SIZE = 256 * 1024 * 1024"

definition MAX_ROOTS :: nat where
  "MAX_ROOTS = 16"

fun car_encode_varint :: "nat \<Rightarrow> bytes" where
  "car_encode_varint n =
     (let byte = word_of_nat n AND 0x7F :: byte; n' = n div 128 in
      if n' = 0 then [byte] else (byte OR 0x80) # car_encode_varint n')"

declare car_encode_varint.simps [simp del]

function car_varint_loop :: "bytes \<Rightarrow> nat \<Rightarrow> u64 \<Rightarrow> nat \<Rightarrow> (nat \<times> nat, CarError) result" where
  "car_varint_loop data pos n shift =
     (if pos \<ge> length data then Err (CarTruncated ''varint'')
      else (let byte = data ! pos;
                n' = n OR push_bit shift (ucast (byte AND 0x7F))
            in if byte < 0x80 then Ok (unat n', pos + 1)
               else if shift + 7 > 63 then Err CarVarintOverflow
               else car_varint_loop data (pos + 1) n' (shift + 7)))"
  by pat_completeness auto
termination by (relation "measure (\<lambda>(data, pos, n, s). length data - pos)") auto

declare car_varint_loop.simps [simp del]

definition read_varint :: "bytes \<Rightarrow> nat \<Rightarrow> (nat \<times> nat, CarError) result" where
  "read_varint data pos = car_varint_loop data pos 0 0"

lemma car_varint_loop_pos: "car_varint_loop data pos n s = Ok (v, pos') \<Longrightarrow> pos < pos' \<and> pos' \<le> length data"
proof (induction data pos n s rule: car_varint_loop.induct)
  case (1 data pos n s)
  from "1.prems" have "pos < length data" by (simp add: car_varint_loop.simps [of data pos] split: if_splits)
  with 1 show ?case
    by (auto simp: car_varint_loop.simps [of data pos] Let_def split: if_splits dest: Suc_lessD)
qed

lemma read_varint_pos: "read_varint data pos = Ok (v, pos') \<Longrightarrow> pos < pos' \<and> pos' \<le> length data"
  unfolding read_varint_def by (rule car_varint_loop_pos)

definition encode_cbor_string :: "string \<Rightarrow> bytes" where
  "encode_cbor_string s =
     (let len = length s in
      (if len < 24 then [0x60 OR word_of_nat len] else [0x78, word_of_nat len]) @ str_bytes s)"

definition encode_cbor_bytes_header :: "nat \<Rightarrow> bytes" where
  "encode_cbor_bytes_header len =
     (if len < 24 then [0x40 OR word_of_nat len]
      else if len < 256 then [0x58, word_of_nat len]
      else [0x59, word_of_nat (len div 2 ^ 8), word_of_nat len])"

definition encode_car_header :: "bytes option \<Rightarrow> bytes" where
  "encode_car_header root =
     [0xA2] @ encode_cbor_string ''roots'' @
     (case root of
        Some cid \<Rightarrow> [0x81, 0xD8, 42] @ encode_cbor_bytes_header (1 + length cid) @ [0x00] @ cid
      | None \<Rightarrow> [0x80]) @
     encode_cbor_string ''version'' @ [0x01]"

definition encode_block :: "CarBlock \<Rightarrow> bytes" where
  "encode_block block = car_encode_varint (length (cb_cid block) + length (cb_bytes block)) @ cb_cid block @ cb_bytes block"

definition encode_car :: "bytes option \<Rightarrow> CarBlock list \<Rightarrow> bytes" where
  "encode_car root blocks =
     (let header = encode_car_header root in
      car_encode_varint (length header) @ header @ concat (map encode_block blocks))"

text \<open>The head of a CBOR item: its major type and additional information.\<close>

definition cbor_major :: "byte \<Rightarrow> nat" where
  "cbor_major b = unat (drop_bit 5 b)"

definition cbor_additional :: "byte \<Rightarrow> nat" where
  "cbor_additional b = unat (b AND 0x1F)"

definition read_cbor_string :: "bytes \<Rightarrow> nat \<Rightarrow> (string \<times> nat, CarError) result" where
  "read_cbor_string data pos =
     (if pos \<ge> length data then Err (CarTruncated ''CBOR string'')
      else if cbor_major (data ! pos) \<noteq> 3 then Err CarInvalidHeader
      else
        let additional = cbor_additional (data ! pos); pos = pos + 1 in
        rbind (if additional < 24 then Ok (additional, pos)
               else if additional = 24 then
                 if pos \<ge> length data then Err (CarTruncated ''CBOR string length'') else Ok (unat (data ! pos), pos + 1)
               else Err CarInvalidHeader) (\<lambda>(len, pos).
        if pos + len > length data then Err (CarTruncated ''CBOR string data'')
        else rbind (ok_or CarInvalidHeader (from_utf8 (take len (drop pos data)))) (\<lambda>s. Ok (s, pos + len))))"

definition strip_multibase :: "bytes \<Rightarrow> bytes" where
  "strip_multibase cid_bytes = (if cid_bytes \<noteq> [] \<and> hd cid_bytes = 0x00 then tl cid_bytes else cid_bytes)"

definition read_cbor_cid :: "bytes \<Rightarrow> nat \<Rightarrow> (bytes \<times> nat, CarError) result" where
  "read_cbor_cid data pos =
     (if pos + 1 \<ge> length data then Err (CarTruncated ''CBOR CID tag'')
      else if \<not> (data ! pos = 0xD8 \<and> data ! (pos + 1) = 42) then Err CarInvalidCid
      else
        let pos = pos + 2 in
        if pos \<ge> length data then Err (CarTruncated ''CBOR CID bytes'')
        else if cbor_major (data ! pos) \<noteq> 2 then Err CarInvalidCid
        else
          let additional = cbor_additional (data ! pos); pos = pos + 1 in
          rbind (if additional < 24 then Ok (additional, pos)
                 else if additional = 24 then
                   if pos \<ge> length data then Err (CarTruncated ''CBOR CID length'') else Ok (unat (data ! pos), pos + 1)
                 else Err CarInvalidCid) (\<lambda>(len, pos).
          if pos + len > length data then Err (CarTruncated ''CBOR CID data'')
          else Ok (strip_multibase (take len (drop pos data)), pos + len)))"

text \<open>
  Skipping a value reads its head and then as many values as it contains; the nested calls are a count of the
  values still to skip.
\<close>

definition skip_head :: "bytes \<Rightarrow> nat \<Rightarrow> (nat \<times> nat, CarError) result" where
  "skip_head data pos =
     (if pos \<ge> length data then Err (CarTruncated ''CBOR value'')
      else
        let major = cbor_major (data ! pos); additional = cbor_additional (data ! pos); pos = pos + 1 in
        if major = 0 \<or> major = 1 then
          Ok (0, if 24 \<le> additional \<and> additional \<le> 27 then pos + 2 ^ (additional - 24) else pos)
        else if major = 2 \<or> major = 3 then
          rbind (if additional < 24 then Ok (additional, pos)
                 else if additional = 24 then
                   if pos \<ge> length data then Err (CarTruncated ''skip len'') else Ok (unat (data ! pos), pos + 1)
                 else Err CarInvalidHeader) (\<lambda>(len, pos). Ok (0, pos + len))
        else if major = 4 then Ok (additional, pos)
        else if major = 5 then Ok (2 * additional, pos)
        else if major = 6 then Ok (1, pos)
        else Ok (0, pos))"

lemma skip_head_pos: "skip_head data pos = Ok (k, pos') \<Longrightarrow> pos < length data \<and> pos < pos'"
  by (auto simp: skip_head_def Let_def split: if_splits)

lemma rbind_fundef_cong [fundef_cong]:
  "r = r' \<Longrightarrow> (\<And>x. r' = Ok x \<Longrightarrow> f x = g x) \<Longrightarrow> rbind r f = rbind r' g"
  by (cases r) auto

function skip_values :: "nat \<Rightarrow> bytes \<Rightarrow> nat \<Rightarrow> (nat, CarError) result" where
  "skip_values 0 data pos = Ok pos"
| "skip_values (Suc n) data pos = rbind (skip_head data pos) (\<lambda>(k, pos). skip_values (k + n) data pos)"
  by pat_completeness auto
termination
  by (relation "measure (\<lambda>(n, data, pos). length data - pos)") (auto dest: skip_head_pos)

definition skip_cbor_value :: "bytes \<Rightarrow> nat \<Rightarrow> (nat, CarError) result" where
  "skip_cbor_value data pos = skip_values 1 data pos"

fun read_cids :: "nat \<Rightarrow> bytes \<Rightarrow> nat \<Rightarrow> (bytes list \<times> nat, CarError) result" where
  "read_cids 0 data pos = Ok ([], pos)"
| "read_cids (Suc n) data pos =
     rbind (read_cbor_cid data pos) (\<lambda>(cid, pos).
     rbind (read_cids n data pos) (\<lambda>(cids, pos). Ok (cid # cids, pos)))"

fun header_entries :: "nat \<Rightarrow> bytes \<Rightarrow> nat \<Rightarrow> bytes list \<Rightarrow> bool \<Rightarrow> (bytes list \<times> bool, CarError) result" where
  "header_entries 0 data pos roots found_version = Ok (roots, found_version)"
| "header_entries (Suc n) data pos roots found_version =
     rbind (read_cbor_string data pos) (\<lambda>(key, pos).
     if key = ''roots'' then
       if pos \<ge> length data then Err CarInvalidHeader
       else
         let arr_len = cbor_additional (data ! pos) in
         if cbor_major (data ! pos) \<noteq> 4 then Err CarInvalidHeader
         else if arr_len > MAX_ROOTS then Err (TooManyRoots arr_len)
         else rbind (read_cids arr_len data (pos + 1)) (\<lambda>(cids, pos). header_entries n data pos (roots @ cids) found_version)
     else if key = ''version'' then
       if pos \<ge> length data then Err CarInvalidHeader
       else if unat (data ! pos) \<noteq> 1 then Err (UnsupportedVersion (unat (data ! pos)))
       else header_entries n data (pos + 1) roots True
     else rbind (skip_cbor_value data pos) (\<lambda>pos. header_entries n data pos roots found_version))"

definition decode_car_header :: "bytes \<Rightarrow> (bytes list, CarError) result" where
  "decode_car_header data =
     (if length data = 0 then Err CarInvalidHeader
      else if cbor_major (data ! 0) \<noteq> 5 then Err CarInvalidHeader
      else if \<not> cbor_additional (data ! 0) < 24 then Err CarInvalidHeader
      else rbind (header_entries (cbor_additional (data ! 0)) data 1 [] False) (\<lambda>(roots, found_version).
           if \<not> found_version then Err CarInvalidHeader else Ok roots))"

definition detect_cid_len :: "bytes \<Rightarrow> (nat, CarError) result" where
  "detect_cid_len data =
     (if data = [] then Err (CarTruncated ''empty CID'')
      else if data ! 0 = 0x01 then
        rbind (read_varint data 1) (\<lambda>(_, pos).
        rbind (read_varint data pos) (\<lambda>(_, pos).
        rbind (read_varint data pos) (\<lambda>(hash_len, pos).
        let pos = (pos + hash_len) mod 2 ^ 64 in
        if pos > length data then Err (CarTruncated ''CID hash extends past block'') else Ok pos)))
      else if data ! 0 = 0x12 then
        if 1 \<ge> length data then Err (CarTruncated ''CIDv0 too short'')
        else
          let pos = 1 + (1 + unat (data ! 1)) in
          if pos > length data then Err (CarTruncated ''CIDv0 hash extends past block'') else Ok pos
      else Err CarInvalidCid)"

function decode_blocks :: "bytes \<Rightarrow> nat \<Rightarrow> (CarBlock list, CarError) result" where
  "decode_blocks data pos =
     (if pos < length data then
        rbind (read_varint data pos) (\<lambda>(block_len, pos').
        if block_len > MAX_BLOCK_SIZE then Err (BlockTooLarge block_len)
        else if pos' + block_len > length data then Err (CarTruncated ''block extends past end of data'')
        else
          let block = take block_len (drop pos' data) in
          rbind (detect_cid_len block) (\<lambda>cid_len.
          rbind (decode_blocks data (pos' + block_len)) (\<lambda>blocks.
          Ok (\<lparr>cb_cid = take cid_len block, cb_bytes = drop cid_len block\<rparr> # blocks))))
      else Ok [])"
  by pat_completeness auto
termination
  by (relation "measure (\<lambda>(data, pos). length data - pos)") (auto dest: read_varint_pos)

declare decode_blocks.simps [simp del]

definition decode_car :: "bytes \<Rightarrow> (bytes list \<times> CarBlock list, CarError) result" where
  "decode_car data =
     rbind (read_varint data 0) (\<lambda>(header_len, pos).
     let fin = (pos + header_len) mod 2 ^ 64 in
     if fin > length data then Err (CarTruncated ''header extends past end of data'')
     else if fin < pos then Panic
     else
       rbind (decode_car_header (take (fin - pos) (drop pos data))) (\<lambda>roots.
       rbind (decode_blocks data fin) (\<lambda>blocks. Ok (roots, blocks))))"

section \<open>Codecs\<close>

lemma car_encode_varint_eq: "car_encode_varint n = encode_varint n"
proof (induction n rule: encode_varint.induct)
  case (1 n)
  have b: "word_of_nat n AND 0x7F = (word_of_nat (n mod 128) :: byte)"
  proof -
    have "(0x7F :: byte) = mask 7" by (simp add: mask_eq_exp_minus_1)
    then have "word_of_nat n AND 0x7F = (take_bit 7 (word_of_nat n) :: byte)" by (simp add: take_bit_eq_mask)
    also have "\<dots> = word_of_nat (take_bit 7 n)" by (simp add: take_bit_of_nat)
    finally show ?thesis by (simp add: take_bit_nat_def)
  qed
  show ?case
    using 1 by (auto simp: car_encode_varint.simps [of n] encode_varint.simps [of n] b Let_def)
qed

lemma high_bit: "(b :: byte) < 0x80 \<longleftrightarrow> b AND 0x80 = 0"
proof -
  have and80: "bit (b AND 0x80) n \<longleftrightarrow> bit b 7 \<and> n = 7" for n by (auto simp only: bit_and_iff bit_80)
  have "b AND 0x80 = 0 \<longleftrightarrow> \<not> bit b 7"
  proof
    assume "b AND 0x80 = 0"
    then show "\<not> bit b 7" using and80 [of 7] by (simp only: bit_0_eq bot_apply bot_bool_def) simp
  next
    assume "\<not> bit b 7"
    then show "b AND 0x80 = 0" by (intro bit_eqI) (simp only: and80, simp)
  qed
  moreover have "bit b 7 \<longleftrightarrow> odd (unat b div 2 ^ 7)"
    by (metis bit_iff_odd bit_unsigned_iff possible_bit_nat)
  moreover have "unat b div 2 ^ 7 = (if unat b < 128 then 0 else 1)"
    using unsigned_less [of b, where ?'a = nat] by (simp add: div_nat_eqI)
  ultimately show ?thesis by (simp add: word_less_nat_alt)
qed

text \<open>The two readers of variable-length integers differ in their errors only.\<close>

lemma car_varint_loop_eq:
  "varint_loop data pos n s = Ok r \<Longrightarrow> car_varint_loop data pos n s = Ok r"
proof (induction data pos n s rule: varint_loop.induct)
  case (1 data pos n s)
  then show ?case
    by (auto simp: car_varint_loop.simps [of data pos] varint_loop.simps [of data pos] high_bit Let_def split: if_splits)
qed

interpretation car_varint: pos_codec car_encode_varint read_varint "\<lambda>v. v < 2 ^ 64" "\<lambda>_. True"
proof
  fix v :: nat and pre post :: bytes
  assume "v < 2 ^ 64"
  then have "decode_varint (pre @ encode_varint v @ post) (length pre) = Ok (v, length pre + length (encode_varint v))"
    by (intro varint_codec.dec_enc) simp_all
  then show "read_varint (pre @ car_encode_varint v @ post) (length pre) = Ok (v, length pre + length (car_encode_varint v))"
    unfolding read_varint_def decode_varint_def car_encode_varint_eq by (rule car_varint_loop_eq)
qed

lemma cbor_major_div: "cbor_major b = unat b div 32"
  unfolding cbor_major_def unat_drop_bit_eq by (simp add: drop_bit_eq_div)

lemma cbor_additional_mod: "cbor_additional b = unat b mod 32"
proof -
  have "(0x1F :: byte) = mask 5" by (simp add: mask_eq_exp_minus_1)
  then have "b AND 0x1F = take_bit 5 b" by (simp only: take_bit_eq_mask)
  moreover have "unat (take_bit 5 b) = take_bit 5 (unat b)" by (simp add: unsigned_take_bit_eq)
  ultimately show ?thesis by (simp only: cbor_additional_def) (simp add: take_bit_nat_def)
qed

lemma unat_head:
  assumes "m < 8" and "a < 32"
  shows "unat (word_of_nat (32 * m) OR word_of_nat a :: byte) = 32 * m + a"
proof -
  have hi: "\<not> bit (word_of_nat (32 * m) :: byte) n" if "n < 5" for n
  proof -
    have "32 * m = push_bit 5 m" by (simp add: push_bit_nat_def)
    then show ?thesis using that by (simp add: bit_simps)
  qed
  have lo: "\<not> bit (word_of_nat a :: byte) n" if "n \<ge> 5" for n
  proof -
    have "take_bit 5 a = a" using assms(2) by (simp add: take_bit_nat_eq_self)
    then have "\<not> bit a n" using that by (metis bit_take_bit_iff not_less)
    then show ?thesis by (simp add: bit_simps)
  qed
  have "word_of_nat (32 * m) OR word_of_nat a = (word_of_nat (32 * m) + word_of_nat a :: byte)"
    using hi lo by (intro disjunctive_add [symmetric]) (metis not_less)
  also have "\<dots> = word_of_nat (32 * m + a)" by simp
  finally have "unat (word_of_nat (32 * m) OR word_of_nat a :: byte) = unat (word_of_nat (32 * m + a) :: byte)"
    by (rule arg_cong)
  also have "\<dots> = 32 * m + a" using assms by (simp only: unat_byte_of_nat) simp
  finally show ?thesis .
qed

lemma cbor_head:
  assumes "m < 8" and "a < 32"
  shows "cbor_major (word_of_nat (32 * m) OR word_of_nat a) = m"
    and "cbor_additional (word_of_nat (32 * m) OR word_of_nat a) = a"
  using unat_head [OF assms] assms by (simp_all add: cbor_major_div cbor_additional_mod)

lemmas cbor_heads =
  cbor_head [of 2, simplified] cbor_head [of 3, simplified] cbor_head [of 4, simplified]

lemma encode_cbor_string_head:
  assumes "length s < 24"
  shows "encode_cbor_string s = (word_of_nat (32 * 3) OR word_of_nat (length s)) # str_bytes s"
  using assms by (simp add: encode_cbor_string_def Let_def)

interpretation car_string: pos_codec encode_cbor_string read_cbor_string
  "\<lambda>s. utf8_valid (str_bytes s) \<and> length s < 256" "\<lambda>_. True"
proof
  fix s pre post assume s: "utf8_valid (str_bytes s) \<and> length s < 256"
  show "read_cbor_string (pre @ encode_cbor_string s @ post) (length pre) =
      Ok (s, length pre + length (encode_cbor_string s))"
  proof (cases "length s < 24")
    case True
    then have "cbor_major (0x60 OR word_of_nat (length s)) = 3" "cbor_additional (0x60 OR word_of_nat (length s)) = length s"
      using cbor_head [of 3 "length s"] by simp_all
    then show ?thesis
      using s True by (simp add: read_cbor_string_def encode_cbor_string_def Let_def nth_append from_utf8_valid)
  next
    case False
    have "cbor_major 0x78 = 3" "cbor_additional 0x78 = 24" by (simp_all add: cbor_major_div cbor_additional_mod)
    moreover have "unat (word_of_nat (length s) :: byte) = length s" using s by (simp add: unat_byte_of_nat)
    ultimately show ?thesis
      using s False by (simp add: read_cbor_string_def encode_cbor_string_def Let_def nth_append from_utf8_valid)
  qed
qed

definition encode_car_cid :: "bytes \<Rightarrow> bytes" where
  "encode_car_cid cid = [0xD8, 42] @ encode_cbor_bytes_header (1 + length cid) @ [0x00] @ cid"

interpretation car_cid: pos_codec encode_car_cid read_cbor_cid "\<lambda>cid. length cid < 255" "\<lambda>_. True"
proof
  fix cid pre post :: bytes assume c: "length cid < 255"
  show "read_cbor_cid (pre @ encode_car_cid cid @ post) (length pre) = Ok (cid, length pre + length (encode_car_cid cid))"
  proof (cases "1 + length cid < 24")
    case True
    then have "cbor_major (0x40 OR word_of_nat (1 + length cid)) = 2"
        "cbor_additional (0x40 OR word_of_nat (1 + length cid)) = 1 + length cid"
      using cbor_head [of 2 "1 + length cid"] by simp_all
    then show ?thesis
      using True by (simp add: read_cbor_cid_def encode_car_cid_def encode_cbor_bytes_header_def strip_multibase_def
        Let_def nth_append del: of_nat_add of_nat_Suc)
  next
    case False
    have "cbor_major 0x58 = 2" "cbor_additional 0x58 = 24" by (simp_all add: cbor_major_div cbor_additional_mod)
    moreover have "unat (word_of_nat (1 + length cid) :: byte) = 1 + length cid" using c by (simp only: unat_byte_of_nat) simp
    ultimately show ?thesis
      using c False by (simp add: read_cbor_cid_def encode_car_cid_def encode_cbor_bytes_header_def strip_multibase_def
        Let_def nth_append del: of_nat_add of_nat_Suc)
  qed
qed

lemma decode_encode_header:
  assumes "\<And>cid. root = Some cid \<Longrightarrow> length cid < 255"
  shows "decode_car_header (encode_car_header root) = Ok (case root of None \<Rightarrow> [] | Some cid \<Rightarrow> [cid])"
proof -
  let ?S1 = "encode_cbor_string ''roots''" and ?S2 = "encode_cbor_string ''version''"
  define A where "A = (case root of Some cid \<Rightarrow> 0x81 # encode_car_cid cid | None \<Rightarrow> [0x80])"
  have h: "encode_car_header root = [0xA2] @ ?S1 @ A @ ?S2 @ [0x01]"
    by (simp add: encode_car_header_def A_def encode_car_cid_def split: option.splits)
  let ?h = "[0xA2] @ ?S1 @ A @ ?S2 @ [0x01]"
  let ?p1 = "1 + length ?S1" and ?p2 = "1 + length ?S1 + length A"
  have ascii: "utf8_valid (str_bytes ''roots'')" "utf8_valid (str_bytes ''version'')"
    by (simp_all add: byte_of_char_def)
  have s1: "read_cbor_string ?h 1 = Ok (''roots'', ?p1)"
    by (rule car_string.dec_enc_at [of _ _ "[0xA2]" "A @ ?S2 @ [0x01]"]) (use ascii in simp_all)
  have s2: "read_cbor_string ?h ?p2 = Ok (''version'', ?p2 + length ?S2)"
    by (rule car_string.dec_enc_at [of _ _ "[0xA2] @ ?S1 @ A" "[0x01]"]) (use ascii in simp_all)
  have a: "?p1 < length ?h" "?h ! ?p1 = hd A" by (simp_all add: A_def nth_append split: option.splits)
  have v: "?p2 + length ?S2 < length ?h" "?h ! (?p2 + length ?S2) = 0x01" by (simp_all add: nth_append)
  have head: "cbor_major 0xA2 = 5" "cbor_additional 0xA2 = 2" "cbor_major 0x81 = 4" "cbor_additional 0x81 = 1"
      "cbor_major 0x80 = 4" "cbor_additional 0x80 = 0"
    by (simp_all add: cbor_major_div cbor_additional_mod)
  let ?roots = "case root of None \<Rightarrow> [] | Some cid \<Rightarrow> [cid]"
  have arr: "cbor_major (hd A) = 4" "cbor_additional (hd A) = length ?roots" "length ?roots \<le> MAX_ROOTS"
    by (simp_all add: A_def head MAX_ROOTS_def split: option.splits)
  have cids: "read_cids (length ?roots) ?h (?p1 + 1) = Ok (?roots, ?p2)"
  proof (cases root)
    case None
    then show ?thesis by (simp add: A_def)
  next
    case (Some cid)
    have "read_cbor_cid ?h (?p1 + 1) = Ok (cid, (?p1 + 1) + length (encode_car_cid cid))"
      by (rule car_cid.dec_enc_at [of _ _ "[0xA2] @ ?S1 @ [0x81]" "?S2 @ [0x01]"]) (use assms Some in \<open>simp_all add: A_def\<close>)
    then show ?thesis by (simp add: Some A_def)
  qed
  have last: "header_entries (Suc 0) ?h ?p2 ?roots False = Ok (?roots, True)"
    using v by (simp only: header_entries.simps s2 rbind.simps prod.case) simp
  have "header_entries (Suc (Suc 0)) ?h 1 [] False = Ok (?roots, True)"
    using a arr cids last by (simp only: header_entries.simps(2) [of "Suc 0"] s1 rbind.simps prod.case) simp
  then show ?thesis
    unfolding h decode_car_header_def by (simp add: head numeral_2_eq_2 del: header_entries.simps)
qed

text \<open>The identifiers of the format: version 1, DAG-CBOR, a SHA-256 digest of 32 bytes.\<close>

definition sha_cid :: "bytes \<Rightarrow> bool" where
  "sha_cid cid \<longleftrightarrow> take 4 cid = [0x01, 0x71, 0x12, 0x20] \<and> length cid = 36"

lemma read_varint_small:
  assumes "pos < length data" and "data ! pos < 0x80"
  shows "read_varint data pos = Ok (unat (data ! pos), pos + 1)"
proof -
  have "take_bit 7 (unat (data ! pos)) = unat (data ! pos)"
    using assms(2) by (simp add: take_bit_nat_eq_self word_less_nat_alt)
  then have "take_bit 7 (data ! pos) = data ! pos" by (metis unsigned_take_bit_eq word_unat_eq_iff)
  then have b: "data ! pos AND 0x7F = data ! pos" by (simp add: take_bit_eq_mask mask_eq_exp_minus_1)
  have "unat (ucast (data ! pos) :: u64) = unat (data ! pos)"
    using unsigned_less [of "data ! pos", where ?'a = nat] by (simp add: unsigned_ucast_eq take_bit_nat_eq_self)
  then show ?thesis
    using assms b by (simp add: read_varint_def car_varint_loop.simps [of data pos] Let_def)
qed

lemma detect_sha_cid:
  assumes "sha_cid cid"
  shows "detect_cid_len (cid @ bs) = Ok 36"
proof -
  define ds where "ds = drop 4 cid"
  have cid: "cid = [0x01, 0x71, 0x12, 0x20] @ ds" and ds: "length ds = 32"
    using assms append_take_drop_id [of 4 cid] by (simp_all add: sha_cid_def ds_def)
  have "read_varint (cid @ bs) 1 = Ok (0x71, 2)" "read_varint (cid @ bs) 2 = Ok (0x12, 3)" "read_varint (cid @ bs) 3 = Ok (0x20, 4)"
    using read_varint_small [of 1 "cid @ bs"] read_varint_small [of 2 "cid @ bs"] read_varint_small [of 3 "cid @ bs"]
    by (simp_all add: cid)
  then show ?thesis using ds by (simp add: detect_cid_len_def cid Let_def)
qed

definition block_ok :: "CarBlock \<Rightarrow> bool" where
  "block_ok b \<longleftrightarrow> sha_cid (cb_cid b) \<and> length (cb_cid b) + length (cb_bytes b) \<le> MAX_BLOCK_SIZE"

lemma decode_encode_blocks:
  "\<forall>b \<in> set blocks. block_ok b \<Longrightarrow> decode_blocks (pre @ concat (map encode_block blocks)) (length pre) = Ok blocks"
proof (induction blocks arbitrary: pre)
  case Nil
  then show ?case by (simp add: decode_blocks.simps)
next
  case (Cons b blocks)
  let ?n = "length (cb_cid b) + length (cb_bytes b)"
  let ?v = "car_encode_varint ?n" and ?rest = "concat (map encode_block blocks)"
  define data where "data = pre @ ?v @ cb_cid b @ cb_bytes b @ ?rest"
  have b: "sha_cid (cb_cid b)" "?n \<le> MAX_BLOCK_SIZE" using Cons.prems by (simp_all add: block_ok_def)
  then have len: "length (cb_cid b) = 36" "?n < 2 ^ 64" by (simp_all add: sha_cid_def MAX_BLOCK_SIZE_def)
  have v: "read_varint data (length pre) = Ok (?n, length pre + length ?v)"
    unfolding data_def using len(2) by (intro car_varint.dec_enc) simp_all
  have IH: "decode_blocks data (length pre + length ?v + ?n) = Ok blocks"
    using Cons.IH [of "pre @ ?v @ cb_cid b @ cb_bytes b"] Cons.prems by (simp add: data_def add.assoc)
  have blk: "take ?n (drop (length pre + length ?v) data) = cb_cid b @ cb_bytes b" by (simp add: data_def)
  have size: "length pre < length data" "length pre + length ?v + ?n \<le> length data" using len(1) by (simp_all add: data_def)
  have cid: "detect_cid_len (cb_cid b @ cb_bytes b) = Ok (length (cb_cid b))"
    using detect_sha_cid [OF b(1)] len(1) by simp
  have "decode_blocks data (length pre) = Ok (b # blocks)"
    by (subst decode_blocks.simps) (simp add: v size b(2) blk cid IH Let_def not_less)
  then show ?case by (simp add: encode_block_def [of b] data_def)
qed

text \<open>
  C28. An archive decodes to what it was encoded from: the root and every block with its identifier, in order,
  for blocks with SHA-256 identifiers within the size limit.
\<close>

theorem car_roundtrip:
  assumes "\<And>cid. root = Some cid \<Longrightarrow> length cid < 255" and "\<forall>b \<in> set blocks. block_ok b"
    and "length (encode_car root blocks) < 2 ^ 64"
  shows "decode_car (encode_car root blocks) = Ok (case root of None \<Rightarrow> [] | Some cid \<Rightarrow> [cid], blocks)"
proof -
  let ?h = "encode_car_header root" and ?bs = "concat (map encode_block blocks)"
  let ?v = "car_encode_varint (length ?h)"
  have data: "encode_car root blocks = ?v @ ?h @ ?bs" by (simp add: encode_car_def Let_def)
  have h: "length ?h < 2 ^ 64" and fin: "length ?v + length ?h < 2 ^ 64" using assms(3) by (simp_all add: data)
  have v: "read_varint (?v @ ?h @ ?bs) 0 = Ok (length ?h, length ?v)"
    using car_varint.dec_enc_prefix [OF h] by simp
  have bs: "decode_blocks (?v @ ?h @ ?bs) (length ?v + length ?h) = Ok blocks"
    using decode_encode_blocks [OF assms(2), of "?v @ ?h"] by simp
  show ?thesis
    using v bs fin decode_encode_header [OF assms(1)] by (simp add: decode_car_def data Let_def)
qed

definition sample_cid :: bytes where
  "sample_cid = [0x01, 0x71, 0x12, 0x20] @ replicate 32 7"

theorem car_roundtrip_witness:
  "decode_car (encode_car (Some sample_cid) [\<lparr>cb_cid = sample_cid, cb_bytes = [1, 2]\<rparr>]) =
     Ok ([sample_cid], [\<lparr>cb_cid = sample_cid, cb_bytes = [1, 2]\<rparr>])"
proof -
  have len: "length sample_cid = 36" by (simp add: sample_cid_def)
  have ok: "block_ok \<lparr>cb_cid = sample_cid, cb_bytes = [1, 2]\<rparr>"
    by (simp add: block_ok_def sha_cid_def len MAX_BLOCK_SIZE_def) (simp add: sample_cid_def)
  have "length (encode_car (Some sample_cid) [\<lparr>cb_cid = sample_cid, cb_bytes = [1, 2]\<rparr>]) < 2 ^ 64"
    by (simp add: encode_car_def encode_car_header_def encode_block_def encode_cbor_bytes_header_def encode_cbor_string_def len Let_def
        car_encode_varint_eq encode_varint.simps)
  with car_roundtrip [of "Some sample_cid" "[\<lparr>cb_cid = sample_cid, cb_bytes = [1, 2]\<rparr>]"] ok len
  show ?thesis by simp
qed

text \<open>A header length near \<open>2^64\<close> wraps the end of the header around, and the slice panics.\<close>

lemma car_header_panics: "decode_car [0xFF, 0xFF, 0xFF, 0xFF, 0xFF, 0xFF, 0xFF, 0xFF, 0xFF, 0x01] = Panic"
proof -
  let ?d = "[0xFF, 0xFF, 0xFF, 0xFF, 0xFF, 0xFF, 0xFF, 0xFF, 0xFF, 0x01] :: bytes"
  have "read_varint ?d 0 = Ok (2 ^ 64 - 1, 10)"
    unfolding read_varint_def by (simp add: car_varint_loop.simps Let_def)
  then show ?thesis by (simp add: decode_car_def Let_def)
qed

end
