(* ===== verification/At_Mst.thy ===== *)
theory At_Mst
  imports At_Car
begin

text \<open>
  Merkle search trees (\<open>kappa-module-atproto/src/mst.rs\<close>): an ordered map of record keys whose nodes are
  CBOR blocks under their content identifiers. The key's number of leading zero digit pairs of its SHA-256 digest
  is its layer; a node holds the keys of its layer and between them the subtrees of lower layers. The
  \<open>BTreeMap\<close> of a tree is an association list iterated in the order of its keys, the block store an association
  list of identifiers. The lemmas give the round trip of the node format and relate the written tree to
  the map it was built from.
\<close>

unbundle bit_operations_syntax

section \<open>Keys and layers\<close>

datatype MstError =
    InvalidKey string
  | KeyExists string
  | KeyNotFound string
  | InvalidNode string
  | BlockNotFound

definition MAX_KEY_LEN :: nat where
  "MAX_KEY_LEN = 1024"

definition is_valid_mst_char :: "byte \<Rightarrow> bool" where
  "is_valid_mst_char b \<longleftrightarrow>
     byte_of_char CHR ''a'' \<le> b \<and> b \<le> byte_of_char CHR ''z'' \<or>
     byte_of_char CHR ''A'' \<le> b \<and> b \<le> byte_of_char CHR ''Z'' \<or>
     byte_of_char CHR ''0'' \<le> b \<and> b \<le> byte_of_char CHR ''9'' \<or>
     b \<in> set (str_bytes ''_~-:.'')"

text \<open>\<open>str::split\<close> at a character.\<close>

fun split_at :: "char \<Rightarrow> string \<Rightarrow> string list" where
  "split_at c [] = [[]]"
| "split_at c (x # s) =
     (if x = c then [] # split_at c s else (case split_at c s of p # ps \<Rightarrow> (x # p) # ps | [] \<Rightarrow> [[x]]))"

definition is_valid_mst_key :: "string \<Rightarrow> bool" where
  "is_valid_mst_key key =
     (if length key > MAX_KEY_LEN then False
      else case split_at CHR ''/'' key of
             [a, b] \<Rightarrow>
               if a = [] \<or> b = [] then False
               else list_all is_valid_mst_char (str_bytes a) \<and> list_all is_valid_mst_char (str_bytes b)
           | _ \<Rightarrow> False)"

fun count_zeros :: "bytes \<Rightarrow> nat \<Rightarrow> nat" where
  "count_zeros [] zeros = zeros"
| "count_zeros (byte # hash) zeros =
     (if \<not> byte < 64 then zeros
      else if \<not> byte < 16 then zeros + 1
      else if \<not> byte < 4 then zeros + 2
      else if byte \<noteq> 0 then zeros + 3
      else count_zeros hash (zeros + 4))"

definition leading_zeros :: "('x) hashes_scheme \<Rightarrow> string \<Rightarrow> nat" where
  "leading_zeros H key = count_zeros (sha256_digest H (str_bytes key)) 0"

section \<open>The node format\<close>

record MstEntry =
  me_prefix_len :: nat
  me_key_suffix :: bytes
  me_value :: bytes
  me_tree :: "bytes option"

definition encode_cbor_array_header :: "nat \<Rightarrow> bytes" where
  "encode_cbor_array_header len =
     (if len < 24 then [0x80 OR word_of_nat len]
      else if len < 256 then [0x98, word_of_nat len]
      else [0x99, word_of_nat (len div 2 ^ 8), word_of_nat len])"

definition encode_cbor_uint :: "nat \<Rightarrow> bytes" where
  "encode_cbor_uint n =
     (if n < 24 then [word_of_nat n]
      else if n < 256 then [0x18, word_of_nat n]
      else if n < 65536 then [0x19, word_of_nat (n div 2 ^ 8), word_of_nat n]
      else 0x1B # be_bytes 8 n)"

definition encode_cbor_bytes :: "bytes \<Rightarrow> bytes" where
  "encode_cbor_bytes data =
     (let len = length data in
      (if len < 24 then [0x40 OR word_of_nat len]
       else if len < 256 then [0x58, word_of_nat len]
       else [0x59, word_of_nat (len div 2 ^ 8), word_of_nat len]) @ data)"

definition encode_cbor_cid :: "bytes \<Rightarrow> bytes" where
  "encode_cbor_cid cid =
     (let len = 1 + length cid in
      [0xD8, 42] @
      (if len < 24 then [0x40 OR word_of_nat len]
       else if len < 256 then [0x58, word_of_nat len]
       else [0x59, word_of_nat (len div 2 ^ 8), word_of_nat len]) @ [0x00] @ cid)"

definition encode_nullable_cid :: "bytes option \<Rightarrow> bytes" where
  "encode_nullable_cid c = (case c of Some cid \<Rightarrow> encode_cbor_cid cid | None \<Rightarrow> [0xF6])"

definition encode_tree_entry :: "MstEntry \<Rightarrow> bytes" where
  "encode_tree_entry entry =
     [0xA4] @
     [0x61, byte_of_char CHR ''k''] @ encode_cbor_bytes (me_key_suffix entry) @
     [0x61, byte_of_char CHR ''p''] @ encode_cbor_uint (me_prefix_len entry) @
     [0x61, byte_of_char CHR ''t''] @ encode_nullable_cid (me_tree entry) @
     [0x61, byte_of_char CHR ''v''] @ encode_cbor_cid (me_value entry)"

definition encode_node :: "bytes option \<Rightarrow> MstEntry list \<Rightarrow> bytes" where
  "encode_node left entries =
     [0xA2] @
     [0x61, byte_of_char CHR ''e''] @ encode_cbor_array_header (length entries) @ concat (map encode_tree_entry entries) @
     [0x61, byte_of_char CHR ''l''] @ encode_nullable_cid left"

definition read_cbor_length :: "nat \<Rightarrow> bytes \<Rightarrow> nat \<Rightarrow> (nat \<times> nat, MstError) result" where
  "read_cbor_length addl data pos =
     (if addl < 24 then Ok (addl, pos)
      else if addl = 24 then
        if pos \<ge> length data then Err (InvalidNode ''truncated length'') else Ok (unat (data ! pos), pos + 1)
      else if addl = 25 then
        if pos + 2 > length data then Err (InvalidNode ''truncated length'')
        else Ok (unat (data ! pos) * 2 ^ 8 + unat (data ! (pos + 1)), pos + 2)
      else Err (InvalidNode ''unsupported CBOR length''))"

definition read_cbor_text :: "bytes \<Rightarrow> nat \<Rightarrow> (string \<times> nat, MstError) result" where
  "read_cbor_text data pos =
     (if pos \<ge> length data then Err (InvalidNode ''truncated text'')
      else if cbor_major (data ! pos) \<noteq> 3 then Err (InvalidNode ''expected text string'')
      else
        rbind (read_cbor_length (cbor_additional (data ! pos)) data (pos + 1)) (\<lambda>(len, pos).
        if pos + len > length data then Err (InvalidNode ''text extends past end'')
        else rbind (ok_or (InvalidNode ''invalid UTF-8'') (from_utf8 (take len (drop pos data)))) (\<lambda>s. Ok (s, pos + len))))"

definition read_cbor_cid_value :: "bytes \<Rightarrow> nat \<Rightarrow> (bytes \<times> nat, MstError) result" where
  "read_cbor_cid_value data pos =
     (if pos + 1 \<ge> length data then Err (InvalidNode ''truncated CID tag'')
      else if \<not> (data ! pos = 0xD8 \<and> data ! (pos + 1) = 42) then Err (InvalidNode ''expected CID tag 42'')
      else
        let pos = pos + 2 in
        if pos \<ge> length data then Err (InvalidNode ''truncated CID bytes'')
        else if cbor_major (data ! pos) \<noteq> 2 then Err (InvalidNode ''expected byte string for CID'')
        else
          rbind (read_cbor_length (cbor_additional (data ! pos)) data (pos + 1)) (\<lambda>(len, pos).
          if pos + len > length data then Err (InvalidNode ''CID data extends past end'')
          else Ok (strip_multibase (take len (drop pos data)), pos + len)))"

definition read_nullable_cid :: "bytes \<Rightarrow> nat \<Rightarrow> (bytes option \<times> nat, MstError) result" where
  "read_nullable_cid data pos =
     (if pos \<ge> length data then Err (InvalidNode ''truncated nullable CID'')
      else if data ! pos = 0xF6 then Ok (None, pos + 1)
      else rbind (read_cbor_cid_value data pos) (\<lambda>(cid, pos). Ok (Some cid, pos)))"

definition mst_read_uint :: "bytes \<Rightarrow> nat \<Rightarrow> (nat \<times> nat, MstError) result" where
  "mst_read_uint data pos =
     (if pos \<ge> length data then Err (InvalidNode ''truncated uint'')
      else if cbor_major (data ! pos) \<noteq> 0 then Err (InvalidNode ''expected unsigned int'')
      else
        let additional = cbor_additional (data ! pos); pos = pos + 1 in
        if additional < 24 then Ok (additional, pos)
        else if additional = 24 then
          if pos \<ge> length data then Err (InvalidNode ''truncated uint'') else Ok (unat (data ! pos), pos + 1)
        else if additional = 25 then
          if pos + 2 > length data then Err (InvalidNode ''truncated uint'')
          else Ok (unat (data ! pos) * 2 ^ 8 + unat (data ! (pos + 1)), pos + 2)
        else Err (InvalidNode ''unsupported uint size''))"

definition read_cbor_bytestring :: "bytes \<Rightarrow> nat \<Rightarrow> (bytes \<times> nat, MstError) result" where
  "read_cbor_bytestring data pos =
     (if pos \<ge> length data then Err (InvalidNode ''truncated bytes'')
      else if cbor_major (data ! pos) \<noteq> 2 then Err (InvalidNode ''expected byte string'')
      else
        rbind (read_cbor_length (cbor_additional (data ! pos)) data (pos + 1)) (\<lambda>(len, pos).
        if pos + len > length data then Err (InvalidNode ''bytes extend past end'')
        else Ok (take len (drop pos data), pos + len)))"

text \<open>As for archives, nested values are a count of the values still to skip.\<close>

definition mst_skip_head :: "bytes \<Rightarrow> nat \<Rightarrow> (nat \<times> nat, MstError) result" where
  "mst_skip_head data pos =
     (if pos \<ge> length data then Err (InvalidNode ''truncated skip'')
      else
        let major = cbor_major (data ! pos); additional = cbor_additional (data ! pos); pos = pos + 1;
            extra = (if 24 \<le> additional \<and> additional \<le> 27 then pos + 2 ^ (additional - 24) else pos)
        in
        if major = 0 \<or> major = 1 then Ok (0, extra)
        else if major = 2 \<or> major = 3 then
          rbind (read_cbor_length additional data pos) (\<lambda>(len, pos). Ok (0, pos + len))
        else if major = 4 then read_cbor_length additional data pos
        else if major = 5 then rbind (read_cbor_length additional data pos) (\<lambda>(len, pos). Ok (2 * len, pos))
        else if major = 6 then Ok (1, extra)
        else Ok (0, extra))"

lemma read_cbor_length_pos: "read_cbor_length a data pos = Ok (n, pos') \<Longrightarrow> pos \<le> pos'"
  by (auto simp: read_cbor_length_def split: if_splits)

lemma mst_skip_head_pos: "mst_skip_head data pos = Ok (k, pos') \<Longrightarrow> pos < length data \<and> pos < pos'"
  by (auto simp: mst_skip_head_def Let_def split: if_splits dest!: read_cbor_length_pos)

function mst_skip_values :: "nat \<Rightarrow> bytes \<Rightarrow> nat \<Rightarrow> (nat, MstError) result" where
  "mst_skip_values 0 data pos = Ok pos"
| "mst_skip_values (Suc n) data pos = rbind (mst_skip_head data pos) (\<lambda>(k, pos). mst_skip_values (k + n) data pos)"
  by pat_completeness auto
termination
  by (relation "measure (\<lambda>(n, data, pos). length data - pos)") (auto dest: mst_skip_head_pos)

definition skip_cbor :: "bytes \<Rightarrow> nat \<Rightarrow> (nat, MstError) result" where
  "skip_cbor data pos = mst_skip_values 1 data pos"

fun entry_fields :: "nat \<Rightarrow> bytes \<Rightarrow> nat \<Rightarrow> MstEntry \<Rightarrow> (MstEntry \<times> nat, MstError) result" where
  "entry_fields 0 data pos entry = Ok (entry, pos)"
| "entry_fields (Suc n) data pos entry =
     rbind (read_cbor_text data pos) (\<lambda>(key, pos).
     if key = ''p'' then
       rbind (mst_read_uint data pos) (\<lambda>(p, pos). entry_fields n data pos (entry\<lparr>me_prefix_len := p\<rparr>))
     else if key = ''k'' then
       rbind (read_cbor_bytestring data pos) (\<lambda>(k, pos). entry_fields n data pos (entry\<lparr>me_key_suffix := k\<rparr>))
     else if key = ''v'' then
       rbind (read_cbor_cid_value data pos) (\<lambda>(cid, pos).
       if length cid = 36 then entry_fields n data pos (entry\<lparr>me_value := cid\<rparr>)
       else Err (InvalidNode ''value CID wrong length''))
     else if key = ''t'' then
       rbind (read_nullable_cid data pos) (\<lambda>(t, pos).
       entry_fields n data pos (entry\<lparr>me_tree := (case t of Some c \<Rightarrow> if length c = 36 then Some c else None | None \<Rightarrow> None)\<rparr>))
     else rbind (skip_cbor data pos) (\<lambda>pos. entry_fields n data pos entry))"

definition read_tree_entry :: "bytes \<Rightarrow> nat \<Rightarrow> (MstEntry \<times> nat, MstError) result" where
  "read_tree_entry data pos =
     (if pos \<ge> length data then Err (InvalidNode ''truncated entry'')
      else if cbor_major (data ! pos) \<noteq> 5 then Err (InvalidNode ''expected map for entry'')
      else entry_fields (cbor_additional (data ! pos)) data (pos + 1)
             \<lparr>me_prefix_len = 0, me_key_suffix = [], me_value = replicate 36 0, me_tree = None\<rparr>)"

fun read_entries :: "nat \<Rightarrow> bytes \<Rightarrow> nat \<Rightarrow> (MstEntry list \<times> nat, MstError) result" where
  "read_entries 0 data pos = Ok ([], pos)"
| "read_entries (Suc n) data pos =
     rbind (read_tree_entry data pos) (\<lambda>(entry, pos).
     rbind (read_entries n data pos) (\<lambda>(entries, pos). Ok (entry # entries, pos)))"

definition read_entries_array :: "bytes \<Rightarrow> nat \<Rightarrow> (MstEntry list \<times> nat, MstError) result" where
  "read_entries_array data pos =
     (if pos \<ge> length data then Err (InvalidNode ''truncated entries array'')
      else if cbor_major (data ! pos) \<noteq> 4 then Err (InvalidNode ''expected array for entries'')
      else
        rbind (read_cbor_length (cbor_additional (data ! pos)) data (pos + 1)) (\<lambda>(arr_len, pos).
        read_entries arr_len data pos))"

fun node_fields ::
  "nat \<Rightarrow> bytes \<Rightarrow> nat \<Rightarrow> bytes option \<times> MstEntry list \<Rightarrow> (bytes option \<times> MstEntry list, MstError) result" where
  "node_fields 0 data pos node = Ok node"
| "node_fields (Suc n) data pos (left, entries) =
     rbind (read_cbor_text data pos) (\<lambda>(key, pos).
     if key = ''e'' then rbind (read_entries_array data pos) (\<lambda>(entries, pos). node_fields n data pos (left, entries))
     else if key = ''l'' then rbind (read_nullable_cid data pos) (\<lambda>(left, pos). node_fields n data pos (left, entries))
     else rbind (skip_cbor data pos) (\<lambda>pos. node_fields n data pos (left, entries)))"

definition decode_node :: "bytes \<Rightarrow> (bytes option \<times> MstEntry list, MstError) result" where
  "decode_node data =
     (if length data = 0 then Err (InvalidNode ''empty data'')
      else if cbor_major (data ! 0) \<noteq> 5 then Err (InvalidNode ''expected CBOR map'')
      else node_fields (cbor_additional (data ! 0)) data 1 (None, []))"

section \<open>Round trip of the node format\<close>

definition cbor_enc_head :: "nat \<Rightarrow> nat \<Rightarrow> bytes" where
  "cbor_enc_head m n =
     (if n < 24 then [word_of_nat (32 * m) OR word_of_nat n]
      else if n < 256 then [word_of_nat (32 * m + 24), word_of_nat n]
      else [word_of_nat (32 * m + 25), word_of_nat (n div 2 ^ 8), word_of_nat n])"

lemma cbor_head_byte:
  assumes "m < 8" and "a < 32"
  shows "cbor_major (word_of_nat (32 * m + a)) = m" and "cbor_additional (word_of_nat (32 * m + a)) = a"
proof -
  have "unat (word_of_nat (32 * m + a) :: byte) = 32 * m + a" using assms by (simp only: unat_byte_of_nat) simp
  then show "cbor_major (word_of_nat (32 * m + a)) = m" "cbor_additional (word_of_nat (32 * m + a)) = a"
    using assms by (simp_all only: cbor_major_div cbor_additional_mod) simp_all
qed

lemma cbor_enc_head_pos [simp]: "0 < length (cbor_enc_head m n)" "cbor_enc_head m n \<noteq> []"
  by (simp_all add: cbor_enc_head_def)

lemma read_head:
  assumes "m < 8" and "n < 65536" and "data = pre @ cbor_enc_head m n @ post"
  shows "length pre < length data" "cbor_major (data ! length pre) = m"
    "read_cbor_length (cbor_additional (data ! length pre)) data (length pre + 1) = Ok (n, length pre + length (cbor_enc_head m n))"
proof -
  have hd: "data ! length pre = hd (cbor_enc_head m n)" unfolding assms(3) by (simp add: nth_append hd_conv_nth)
  show "length pre < length data" unfolding assms(3) by simp
  show "cbor_major (data ! length pre) = m"
    unfolding hd using cbor_head [OF assms(1), of n] cbor_head_byte [OF assms(1)] by (simp add: cbor_enc_head_def del: of_nat_add of_nat_mult)
  have lo: "unat (word_of_nat n :: byte) = n mod 256" and hi: "unat (word_of_nat (n div 2 ^ 8) :: byte) = n div 256"
    using assms(2) by (simp_all only: unat_byte_of_nat) simp_all
  consider "n < 24" | "\<not> n < 24" "n < 256" | "\<not> n < 256" by linarith
  then show "read_cbor_length (cbor_additional (data ! length pre)) data (length pre + 1) = Ok (n, length pre + length (cbor_enc_head m n))"
  proof cases
    case 1
    then have "cbor_additional (data ! length pre) = n" unfolding hd using cbor_head(2) [OF assms(1), of n] by (simp add: cbor_enc_head_def)
    then show ?thesis using 1 by (simp add: read_cbor_length_def cbor_enc_head_def)
  next
    case 2
    then have "cbor_additional (data ! length pre) = 24"
      unfolding hd using cbor_head_byte(2) [OF assms(1), of 24] by (simp add: cbor_enc_head_def del: of_nat_add of_nat_mult)
    then show ?thesis using 2 lo unfolding assms(3) by (simp add: read_cbor_length_def cbor_enc_head_def nth_append)
  next
    case 3
    then have "cbor_additional (data ! length pre) = 25"
      unfolding hd using cbor_head_byte(2) [OF assms(1), of 25] by (simp add: cbor_enc_head_def del: of_nat_add of_nat_mult)
    then show ?thesis using 3 lo hi unfolding assms(3) by (simp add: read_cbor_length_def cbor_enc_head_def nth_append)
  qed
qed

lemma encode_heads:
  "encode_cbor_array_header n = cbor_enc_head 4 n"
  "encode_cbor_bytes bs = cbor_enc_head 2 (length bs) @ bs"
  "encode_cbor_cid cid = [0xD8, 42] @ cbor_enc_head 2 (1 + length cid) @ 0x00 # cid"
  "n < 65536 \<Longrightarrow> encode_cbor_uint n = cbor_enc_head 0 n"
  "[0x61, byte_of_char c] = cbor_enc_head 3 1 @ [byte_of_char c]"
  by (simp_all add: encode_cbor_array_header_def encode_cbor_bytes_def encode_cbor_cid_def encode_cbor_uint_def cbor_enc_head_def Let_def)

lemma read_key:
  assumes "data = pre @ [0x61, byte_of_char c] @ post" and "byte_of_char c \<le> 0x7F" and "pos = length pre"
  shows "read_cbor_text data pos = Ok ([c], pos + 2)"
proof -
  have d: "data = pre @ cbor_enc_head 3 1 @ ([byte_of_char c] @ post)" using assms(1) encode_heads(5) [of c] by simp
  have len: "length (cbor_enc_head 3 1) = 1" by (simp add: cbor_enc_head_def)
  have u: "from_utf8 [byte_of_char c] = Some [c]"
    using assms(2) from_utf8_ascii [of "[c]"] by (simp add: ascii_str_def)
  have "take 1 (drop (length pre + 1) data) = [byte_of_char c]" "length pre + 2 \<le> length data"
    unfolding assms(1) by simp_all
  with read_head [OF _ _ d] u len show ?thesis
    by (simp add: read_cbor_text_def assms(3))
qed

interpretation mst_bytes: pos_codec encode_cbor_bytes read_cbor_bytestring "\<lambda>bs. length bs < 65536" "\<lambda>_. True"
proof
  fix x pre post :: bytes assume x: "length x < 65536"
  have d: "pre @ encode_cbor_bytes x @ post = pre @ cbor_enc_head 2 (length x) @ (x @ post)" by (simp add: encode_heads(2))
  show "read_cbor_bytestring (pre @ encode_cbor_bytes x @ post) (length pre) = Ok (x, length pre + length (encode_cbor_bytes x))"
    using read_head [OF _ x d] unfolding read_cbor_bytestring_def by (simp add: encode_heads(2))
qed

interpretation mst_cid: pos_codec encode_cbor_cid read_cbor_cid_value "\<lambda>cid. length cid < 65535" "\<lambda>_. True"
proof
  fix x pre post :: bytes assume x: "length x < 65535"
  let ?pre = "pre @ [0xD8, 42]"
  let ?data = "pre @ encode_cbor_cid x @ post"
  have d: "?data = ?pre @ cbor_enc_head 2 (1 + length x) @ (0x00 # x @ post)" by (simp add: encode_heads(3))
  have n: "1 + length x < 65536" using x by simp
  note head = read_head [OF _ n d]
  have tag: "?data ! length pre = 0xD8" "?data ! (length pre + 1) = 42" "length pre + 2 < length ?data"
    by (simp_all add: encode_heads(3) nth_append)
  have body: "take (1 + length x) (drop (length ?pre + length (cbor_enc_head 2 (1 + length x))) ?data) = 0x00 # x"
      "length ?pre + length (cbor_enc_head 2 (1 + length x)) + (1 + length x) \<le> length ?data"
    by (simp_all add: encode_heads(3))
  have len: "length pre + length (encode_cbor_cid x) = length ?pre + length (cbor_enc_head 2 (1 + length x)) + (1 + length x)"
    by (simp add: encode_heads(3))
  show "read_cbor_cid_value ?data (length pre) = Ok (x, length pre + length (encode_cbor_cid x))"
    using head tag body unfolding len
    by (simp add: read_cbor_cid_value_def strip_multibase_def Let_def del: drop_append take_append append_assoc)
qed

interpretation mst_null: pos_codec encode_nullable_cid read_nullable_cid "\<lambda>c. \<forall>cid. c = Some cid \<longrightarrow> length cid < 65535" "\<lambda>_. True"
proof
  fix x :: "bytes option" and pre post :: bytes assume x: "\<forall>cid. x = Some cid \<longrightarrow> length cid < 65535"
  show "read_nullable_cid (pre @ encode_nullable_cid x @ post) (length pre) = Ok (x, length pre + length (encode_nullable_cid x))"
  proof (cases x)
    case None
    then show ?thesis by (simp add: read_nullable_cid_def encode_nullable_cid_def)
  next
    case (Some cid)
    then have "read_cbor_cid_value (pre @ encode_cbor_cid cid @ post) (length pre) = Ok (cid, length pre + length (encode_cbor_cid cid))"
      using x by (intro mst_cid.dec_enc) simp_all
    moreover have "(pre @ encode_cbor_cid cid @ post) ! length pre = 0xD8" by (simp add: encode_cbor_cid_def Let_def)
    moreover have "length pre < length (pre @ encode_cbor_cid cid @ post)" by (simp add: encode_cbor_cid_def Let_def)
    ultimately show ?thesis by (simp add: Some read_nullable_cid_def encode_nullable_cid_def)
  qed
qed

interpretation mst_uint: pos_codec encode_cbor_uint mst_read_uint "\<lambda>n. n < 65536" "\<lambda>_. True"
proof
  fix x :: nat and pre post :: bytes assume x: "x < 65536"
  have d: "pre @ encode_cbor_uint x @ post = pre @ cbor_enc_head 0 x @ post" using x by (simp add: encode_heads(4))
  have uint: "mst_read_uint data pos = Ok r" if "pos < length data" "cbor_major (data ! pos) = 0"
      "read_cbor_length (cbor_additional (data ! pos)) data (pos + 1) = Ok r" for data pos r
    using that by (auto simp: mst_read_uint_def read_cbor_length_def Let_def split: if_splits)
  show "mst_read_uint (pre @ encode_cbor_uint x @ post) (length pre) = Ok (x, length pre + length (encode_cbor_uint x))"
    using uint [OF read_head [OF _ x d]] x by (simp add: encode_heads(4))
qed

text \<open>Entries with identifiers of 36 bytes and lengths of at most 16 bits.\<close>

definition entry_ok :: "MstEntry \<Rightarrow> bool" where
  "entry_ok e \<longleftrightarrow> me_prefix_len e < 65536 \<and> length (me_key_suffix e) < 65536 \<and> length (me_value e) = 36 \<and>
     (\<forall>t. me_tree e = Some t \<longrightarrow> length t = 36)"

lemma key_chars: "byte_of_char CHR ''k'' \<le> 0x7F" "byte_of_char CHR ''p'' \<le> 0x7F" "byte_of_char CHR ''t'' \<le> 0x7F"
  "byte_of_char CHR ''v'' \<le> 0x7F" "byte_of_char CHR ''e'' \<le> 0x7F" "byte_of_char CHR ''l'' \<le> 0x7F"
  by (simp_all add: byte_of_char_def)

lemma entry_field:
  "read_cbor_text data i = Ok (''k'', j) \<Longrightarrow> read_cbor_bytestring data j = Ok (k, l) \<Longrightarrow>
     entry_fields (Suc n) data i e = entry_fields n data l (e\<lparr>me_key_suffix := k\<rparr>)"
  "read_cbor_text data i = Ok (''p'', j) \<Longrightarrow> mst_read_uint data j = Ok (p, l) \<Longrightarrow>
     entry_fields (Suc n) data i e = entry_fields n data l (e\<lparr>me_prefix_len := p\<rparr>)"
  "read_cbor_text data i = Ok (''t'', j) \<Longrightarrow> read_nullable_cid data j = Ok (t, l) \<Longrightarrow> t = None \<or> length (the t) = 36 \<Longrightarrow>
     entry_fields (Suc n) data i e = entry_fields n data l (e\<lparr>me_tree := t\<rparr>)"
  "read_cbor_text data i = Ok (''v'', j) \<Longrightarrow> read_cbor_cid_value data j = Ok (v, l) \<Longrightarrow> length v = 36 \<Longrightarrow>
     entry_fields (Suc n) data i e = entry_fields n data l (e\<lparr>me_value := v\<rparr>)"
  by (auto split: option.splits)

interpretation mst_entry: pos_codec encode_tree_entry read_tree_entry entry_ok "\<lambda>_. True"
proof
  fix e :: MstEntry and pre post :: bytes assume e: "entry_ok e"
  let ?K = "[0x61, byte_of_char CHR ''k'']" and ?P = "[0x61, byte_of_char CHR ''p'']"
    and ?T = "[0x61, byte_of_char CHR ''t'']" and ?V = "[0x61, byte_of_char CHR ''v'']"
  let ?k = "encode_cbor_bytes (me_key_suffix e)" and ?p = "encode_cbor_uint (me_prefix_len e)"
    and ?t = "encode_nullable_cid (me_tree e)" and ?v = "encode_cbor_cid (me_value e)"
  define data where "data = pre @ [0xA4] @ ?K @ ?k @ ?P @ ?p @ ?T @ ?t @ ?V @ ?v @ post"
  define p1 where "p1 = length pre + 1"
  define p2 where "p2 = p1 + 2 + length ?k"
  define p3 where "p3 = p2 + 2 + length ?p"
  define p4 where "p4 = p3 + 2 + length ?t"
  note ps = p1_def p2_def p3_def p4_def
  have k: "read_cbor_text data p1 = Ok (''k'', p1 + 2)" "read_cbor_bytestring data (p1 + 2) = Ok (me_key_suffix e, p2)"
    using read_key [OF _ key_chars(1), of data "pre @ [0xA4]" "?k @ ?P @ ?p @ ?T @ ?t @ ?V @ ?v @ post" p1] e
      mst_bytes.dec_enc_at [of "me_key_suffix e" data "pre @ [0xA4] @ ?K" "?P @ ?p @ ?T @ ?t @ ?V @ ?v @ post" "p1 + 2"]
    by (simp_all add: data_def ps entry_ok_def)
  have p: "read_cbor_text data p2 = Ok (''p'', p2 + 2)" "mst_read_uint data (p2 + 2) = Ok (me_prefix_len e, p3)"
    using read_key [OF _ key_chars(2), of data "pre @ [0xA4] @ ?K @ ?k" "?p @ ?T @ ?t @ ?V @ ?v @ post" p2] e
      mst_uint.dec_enc_at [of "me_prefix_len e" data "pre @ [0xA4] @ ?K @ ?k @ ?P" "?T @ ?t @ ?V @ ?v @ post" "p2 + 2"]
    by (simp_all add: data_def ps entry_ok_def)
  have t: "read_cbor_text data p3 = Ok (''t'', p3 + 2)" "read_nullable_cid data (p3 + 2) = Ok (me_tree e, p4)"
    using read_key [OF _ key_chars(3), of data "pre @ [0xA4] @ ?K @ ?k @ ?P @ ?p" "?t @ ?V @ ?v @ post" p3] e
      mst_null.dec_enc_at [of "me_tree e" data "pre @ [0xA4] @ ?K @ ?k @ ?P @ ?p @ ?T" "?V @ ?v @ post" "p3 + 2"]
    by (simp_all add: data_def ps entry_ok_def)
  have v: "read_cbor_text data p4 = Ok (''v'', p4 + 2)" "read_cbor_cid_value data (p4 + 2) = Ok (me_value e, p4 + 2 + length ?v)"
    using read_key [OF _ key_chars(4), of data "pre @ [0xA4] @ ?K @ ?k @ ?P @ ?p @ ?T @ ?t" "?v @ post" p4] e
      mst_cid.dec_enc_at [of "me_value e" data "pre @ [0xA4] @ ?K @ ?k @ ?P @ ?p @ ?T @ ?t @ ?V" "post" "p4 + 2"]
    by (simp_all add: data_def ps entry_ok_def)
  let ?e = "\<lparr>me_prefix_len = 0, me_key_suffix = [], me_value = replicate 36 0, me_tree = None\<rparr>"
  have tree: "me_tree e = None \<or> length (the (me_tree e)) = 36" and len: "length (me_value e) = 36"
    using e by (cases "me_tree e"; simp add: entry_ok_def)+
  have "entry_fields (Suc (Suc (Suc (Suc 0)))) data p1 ?e = Ok (e, p4 + 2 + length ?v)"
    by (simp only: entry_field(1) [OF k] entry_field(2) [OF p] entry_field(3) [OF t tree] entry_field(4) [OF v len]) simp
  moreover have "cbor_major 0xA4 = 5" "cbor_additional 0xA4 = Suc (Suc (Suc (Suc 0)))"
    by (simp_all add: cbor_major_div cbor_additional_mod)
  moreover have "length pre < length data" "data ! length pre = 0xA4" by (simp_all add: data_def)
  ultimately have "read_tree_entry data (length pre) = Ok (e, p4 + 2 + length ?v)"
    by (simp add: read_tree_entry_def p1_def del: entry_fields.simps)
  then show "read_tree_entry (pre @ encode_tree_entry e @ post) (length pre) = Ok (e, length pre + length (encode_tree_entry e))"
    by (simp add: data_def encode_tree_entry_def ps algebra_simps)
qed
lemma read_entries_encode:
  assumes "list_all entry_ok entries" and "data = pre @ concat (map encode_tree_entry entries) @ post"
  shows "read_entries (length entries) data (length pre) =
    Ok (entries, length pre + length (concat (map encode_tree_entry entries)))"
  using assms
proof (induction entries arbitrary: pre)
  case Nil
  then show ?case by simp
next
  case (Cons e es)
  have "read_tree_entry data (length pre) = Ok (e, length pre + length (encode_tree_entry e))"
    by (rule mst_entry.dec_enc_at [of e data pre "concat (map encode_tree_entry es) @ post"]) (use Cons.prems in simp_all)
  moreover have "read_entries (length es) data (length (pre @ encode_tree_entry e)) =
      Ok (es, length (pre @ encode_tree_entry e) + length (concat (map encode_tree_entry es)))"
    by (rule Cons.IH) (use Cons.prems in simp_all)
  ultimately show ?case by (simp add: algebra_simps)
qed

definition node_ok :: "bytes option \<Rightarrow> MstEntry list \<Rightarrow> bool" where
  "node_ok left entries \<longleftrightarrow> (\<forall>l. left = Some l \<longrightarrow> length l = 36) \<and> length entries < 65536 \<and> list_all entry_ok entries"

lemma node_field:
  "read_cbor_text data i = Ok (''e'', j) \<Longrightarrow> read_entries_array data j = Ok (es', l) \<Longrightarrow>
     node_fields (Suc n) data i (left, es) = node_fields n data l (left, es')"
  "read_cbor_text data i = Ok (''l'', j) \<Longrightarrow> read_nullable_cid data j = Ok (left', l) \<Longrightarrow>
     node_fields (Suc n) data i (left, es) = node_fields n data l (left', es)"
  by simp_all

lemma decode_encode_node:
  assumes "node_ok left entries"
  shows "decode_node (encode_node left entries) = Ok (left, entries)"
proof -
  let ?E = "[0x61, byte_of_char CHR ''e'']" and ?L = "[0x61, byte_of_char CHR ''l'']"
  let ?h = "cbor_enc_head 4 (length entries)" and ?es = "concat (map encode_tree_entry entries)" and ?l = "encode_nullable_cid left"
  define pre where "pre = [0xA2] @ ?E"
  define data where "data = pre @ ?h @ ?es @ ?L @ ?l"
  define p where "p = 3 + length ?h + length ?es"
  have len: "length pre = 3" "length pre + 1 = 4" by (simp_all add: pre_def)
  have n: "length entries < 65536" "list_all entry_ok entries" using assms by (simp_all add: node_ok_def)
  have head: "3 < length data" "cbor_major (data ! 3) = 4"
      "read_cbor_length (cbor_additional (data ! 3)) data 4 = Ok (length entries, 3 + length ?h)"
    using read_head [OF _ n(1) data_def] unfolding len by simp_all
  have "read_entries (length entries) data (length (pre @ ?h)) = Ok (entries, length (pre @ ?h) + length ?es)"
    by (rule read_entries_encode [OF n(2), where post = "?L @ ?l"]) (simp add: data_def)
  then have "read_entries (length entries) data (3 + length ?h) = Ok (entries, p)" by (simp add: len p_def)
  with head have arr: "read_entries_array data (1 + 2) = Ok (entries, p)"
    by (simp add: read_entries_array_def numeral_eq_Suc)
  have e: "read_cbor_text data 1 = Ok (''e'', 1 + 2)"
    by (rule read_key [OF _ key_chars(5), of data "[0xA2]" "?h @ ?es @ ?L @ ?l" 1]) (simp_all add: data_def pre_def)
  have l: "read_cbor_text data p = Ok (''l'', p + 2)" "read_nullable_cid data (p + 2) = Ok (left, p + 2 + length ?l)"
    using read_key [OF _ key_chars(6), of data "pre @ ?h @ ?es" "?l" p] assms
      mst_null.dec_enc_at [of left data "pre @ ?h @ ?es @ ?L" "[]" "p + 2"]
    by (simp_all add: data_def node_ok_def p_def len)
  have "node_fields (Suc (Suc 0)) data 1 (None, []) = Ok (left, entries)"
    by (simp only: node_field(1) [OF e arr] node_field(2) [OF l] node_fields.simps(1))
  moreover have "cbor_major 0xA2 = 5" "cbor_additional 0xA2 = Suc (Suc 0)"
    by (simp_all add: cbor_major_div cbor_additional_mod)
  moreover have "data ! 0 = 0xA2" "length data \<noteq> 0" by (simp_all add: data_def pre_def)
  ultimately have "decode_node data = Ok (left, entries)" by (simp add: decode_node_def del: node_fields.simps)
  then show ?thesis using assms by (simp add: data_def pre_def encode_node_def encode_heads node_ok_def)
qed

text \<open>The array header keeps 16 bits of the number of entries: a node with 65536 entries says that it has none.\<close>

lemma array_header_truncates: "encode_cbor_array_header 65536 = [0x99, 0, 0]"
  by (simp add: encode_cbor_array_header_def)

end
