(* ===== verification/At_Tree.thy ===== *)
theory At_Tree
  imports At_Mst
begin

text \<open>
  The Merkle search tree as a map and its layout in blocks (\<open>Mst\<close>, \<open>build_subtree\<close>,
  \<open>MemoryBlockStore\<close> of \<open>kappa-module-atproto/src/mst.rs\<close>). The \<open>BTreeMap\<close> of a tree is an
  association list iterated in the order of its keys; the block store is a parameter \<open>put\<close> of the
  layout as the trait object of the source is, with the in-memory store as its instance. The lemmas show
  that the tree written for a map reads back as the map, so that its root commits to the whole map, that the root
  does not depend on the order of insertions, and that a difference of two trees turns one into the other.
\<close>

section \<open>The map\<close>

record Mst =
  mst_entries :: "(string, bytes) hmap"

record MstDiff =
  md_created :: "(string \<times> bytes) list"
  md_updated :: "(string \<times> bytes \<times> bytes) list"
  md_deleted :: "(string \<times> bytes) list"

definition mst_new :: Mst where
  "mst_new = \<lparr>mst_entries = []\<rparr>"

definition mst_insert :: "string \<Rightarrow> bytes \<Rightarrow> Mst \<Rightarrow> (unit, MstError, Mst) stateful" where
  "mst_insert key val m =
     (if \<not> is_valid_mst_key key then (Err (InvalidKey key), m)
      else if hget (mst_entries m) key \<noteq> None then (Err (KeyExists key), m)
      else (Ok (), m\<lparr>mst_entries := hput key val (mst_entries m)\<rparr>))"

definition mst_update :: "string \<Rightarrow> bytes \<Rightarrow> Mst \<Rightarrow> (unit, MstError, Mst) stateful" where
  "mst_update key val m =
     (if hget (mst_entries m) key = None then (Err (KeyNotFound key), m)
      else (Ok (), m\<lparr>mst_entries := hput key val (mst_entries m)\<rparr>))"

definition mst_delete :: "string \<Rightarrow> Mst \<Rightarrow> (bytes, MstError, Mst) stateful" where
  "mst_delete key m =
     (ok_or (KeyNotFound key) (hget (mst_entries m) key), m\<lparr>mst_entries := hdel key (mst_entries m)\<rparr>)"

definition mst_get :: "Mst \<Rightarrow> string \<Rightarrow> bytes option" where
  "mst_get m key = hget (mst_entries m) key"

definition mst_len :: "Mst \<Rightarrow> nat" where
  "mst_len m = length (mst_entries m)"

definition mst_is_empty :: "Mst \<Rightarrow> bool" where
  "mst_is_empty m \<longleftrightarrow> mst_entries m = []"

definition mst_iter :: "Mst \<Rightarrow> (string \<times> bytes) list" where
  "mst_iter m = sort_key fst (mst_entries m)"

definition mst_diff :: "Mst \<Rightarrow> Mst \<Rightarrow> MstDiff" where
  "mst_diff self other =
     \<lparr>md_created = filter (\<lambda>(key, _). mst_get other key = None) (mst_iter self),
      md_updated = List.map_filter (\<lambda>(key, new_val).
        (case mst_get other key of
           Some old_val \<Rightarrow> if old_val \<noteq> new_val then Some (key, old_val, new_val) else None
         | None \<Rightarrow> None)) (mst_iter self),
      md_deleted = filter (\<lambda>(key, _). mst_get self key = None) (mst_iter other)\<rparr>"

section \<open>Blocks\<close>

record MemoryBlockStore =
  mbs_blocks :: "(bytes, bytes) hmap"

definition blocks_new :: MemoryBlockStore where
  "blocks_new = \<lparr>mbs_blocks = []\<rparr>"

definition blocks_get :: "MemoryBlockStore \<Rightarrow> bytes \<Rightarrow> bytes option" where
  "blocks_get s cid = (if length cid \<noteq> 36 then None else hget (mbs_blocks s) cid)"

definition blocks_put :: "('x) hashes_scheme \<Rightarrow> bytes \<Rightarrow> MemoryBlockStore \<Rightarrow> bytes \<times> MemoryBlockStore" where
  "blocks_put H data s =
     (let cid = cid_for_cbor H data in (cid, s\<lparr>mbs_blocks := hput cid data (mbs_blocks s)\<rparr>))"

definition count_prefix_len :: "string \<Rightarrow> string \<Rightarrow> nat" where
  "count_prefix_len a b = length (takeWhile (\<lambda>(x, y). x = y) (zip a b))"

type_synonym MstBlock = "bytes \<times> bytes"
type_synonym keyed = "string \<times> bytes \<times> nat"

text \<open>
  The loops of \<open>build_subtree\<close> over \<open>keys[start..end]\<close>: \<open>lower_keys\<close> is the run that ends at
  \<open>sub_start\<close>, \<open>upper_keys\<close> what remains. The mutable state is the block store with the list of the
  blocks written.
\<close>

definition lower_keys :: "nat \<Rightarrow> keyed list \<Rightarrow> keyed list" where
  "lower_keys layer keys = takeWhile (\<lambda>(_, _, l). l < layer) keys"

definition upper_keys :: "nat \<Rightarrow> keyed list \<Rightarrow> keyed list" where
  "upper_keys layer keys = dropWhile (\<lambda>(_, _, l). l < layer) keys"

lemma lower_upper: "lower_keys layer keys @ upper_keys layer keys = keys"
  by (simp add: lower_keys_def upper_keys_def)

lemma length_upper_keys [simp]: "length (upper_keys layer keys) \<le> length keys"
  by (simp add: upper_keys_def length_dropWhile_le)

function build_subtree ::
    "(bytes \<Rightarrow> 's \<Rightarrow> bytes \<times> 's) \<Rightarrow> nat \<Rightarrow> keyed list \<Rightarrow> 's \<times> MstBlock list \<Rightarrow> bytes \<times> 's \<times> MstBlock list"
  and build_leaves ::
    "(bytes \<Rightarrow> 's \<Rightarrow> bytes \<times> 's) \<Rightarrow> nat \<Rightarrow> keyed list \<Rightarrow> string \<Rightarrow> 's \<times> MstBlock list \<Rightarrow> MstEntry list \<times> 's \<times> MstBlock list"
  and build_lower ::
    "(bytes \<Rightarrow> 's \<Rightarrow> bytes \<times> 's) \<Rightarrow> nat \<Rightarrow> keyed list \<Rightarrow> 's \<times> MstBlock list \<Rightarrow> bytes option \<times> 's \<times> MstBlock list"
where
  "build_subtree put layer keys st =
     (let (left_subtree, st) = build_lower put layer keys st;
          (node_entries, store, all_blocks) = build_leaves put layer (upper_keys layer keys) [] st;
          node_bytes = encode_node left_subtree node_entries;
          (cid, store) = put node_bytes store
      in (cid, store, all_blocks @ [(cid, node_bytes)]))"
| "build_leaves put layer [] prev_key st = ([], st)"
| "build_leaves put layer ((key, val, l) # keys) prev_key st =
     (if l = layer then
        let prefix_len = count_prefix_len prev_key key;
            (right_subtree, st) = build_lower put layer keys st;
            (node_entries, st) = build_leaves put layer (upper_keys layer keys) key st
        in (\<lparr>me_prefix_len = prefix_len, me_key_suffix = drop prefix_len (str_bytes key), me_value = val,
              me_tree = right_subtree\<rparr> # node_entries, st)
      else build_leaves put layer keys prev_key st)"
| "build_lower put layer keys st =
     (if lower_keys layer keys \<noteq> [] \<and> layer > 0 then
        let (sub_cid, st) = build_subtree put (layer - 1) (lower_keys layer keys) st in (Some sub_cid, st)
      else (None, st))"
  by pat_completeness auto
termination
  by (relation "measures
      [\<lambda>x. case x of Inl (_, layer, _) \<Rightarrow> layer | Inr (Inl (_, layer, _)) \<Rightarrow> layer | Inr (Inr (_, layer, _)) \<Rightarrow> layer,
       \<lambda>x. case x of Inl (_, _, keys, _) \<Rightarrow> 2 * length keys + 2 | Inr (Inl (_, _, keys, _)) \<Rightarrow> 2 * length keys + 1
          | Inr (Inr (_, _, keys, _)) \<Rightarrow> 0]")
    (auto simp: less_Suc_eq_le intro: le_SucI)

declare build_subtree.simps [simp del] build_leaves.simps [simp del] build_lower.simps [simp del]

definition write_to_store ::
  "('x) hashes_scheme \<Rightarrow> (bytes \<Rightarrow> 's \<Rightarrow> bytes \<times> 's) \<Rightarrow> Mst \<Rightarrow> 's \<Rightarrow> bytes \<times> 's \<times> MstBlock list" where
  "write_to_store H put m store =
     (if mst_is_empty m then
        let node_bytes = encode_node None []; (cid, store) = put node_bytes store in (cid, store, [(cid, node_bytes)])
      else
        let keyed = map (\<lambda>(k, v). (k, v, leading_zeros H k)) (mst_iter m);
            max_layer = Max (set (map (\<lambda>(_, _, l). l) keyed))
        in build_subtree put max_layer keyed (store, []))"

section \<open>Reading a tree back\<close>

text \<open>
  What a tree of blocks means: the keys and values in the order of the tree, for any way \<open>get\<close> of looking
  up a block; nothing when a block is missing, malformed or nested deeper than the bound.
\<close>

fun read_opt :: "(bytes \<Rightarrow> (string \<times> bytes) list option) \<Rightarrow> bytes option \<Rightarrow> (string \<times> bytes) list option" where
  "read_opt rd None = Some []"
| "read_opt rd (Some cid) = rd cid"

fun read_leaves ::
  "(bytes \<Rightarrow> (string \<times> bytes) list option) \<Rightarrow> string \<Rightarrow> MstEntry list \<Rightarrow> (string \<times> bytes) list option" where
  "read_leaves rd prev [] = Some []"
| "read_leaves rd prev (e # es) =
     (let key = take (me_prefix_len e) prev @ bytes_str (me_key_suffix e) in
      case (read_opt rd (me_tree e), read_leaves rd key es) of
        (Some t, Some r) \<Rightarrow> Some ((key, me_value e) # t @ r)
      | _ \<Rightarrow> None)"

fun read_tree :: "nat \<Rightarrow> (bytes \<Rightarrow> bytes option) \<Rightarrow> bytes \<Rightarrow> (string \<times> bytes) list option" where
  "read_tree 0 get cid = None"
| "read_tree (Suc n) get cid =
     (case map_option decode_node (get cid) of
        Some (Ok (left, entries)) \<Rightarrow>
          (case (read_opt (read_tree n get) left, read_leaves (read_tree n get) [] entries) of
             (Some t, Some r) \<Rightarrow> Some (t @ r)
           | _ \<Rightarrow> None)
      | _ \<Rightarrow> None)"

lemma take_count_prefix_len: "take (count_prefix_len a b) a = take (count_prefix_len a b) b"
  by (induction a b rule: list_induct2') (simp_all add: count_prefix_len_def)

lemma count_prefix_len_le: "count_prefix_len a b \<le> length b"
  using length_takeWhile_le [of "\<lambda>(x, y). x = y" "zip a b"] by (simp add: count_prefix_len_def)

lemma prefix_suffix: "take (count_prefix_len prev key) prev @ bytes_str (drop (count_prefix_len prev key) (str_bytes key)) = key"
proof -
  have "bytes_str (drop n (str_bytes key)) = drop n key" for n
    by (simp add: bytes_str_def str_bytes_def drop_map o_def)
  then show ?thesis by (simp only: take_count_prefix_len) simp
qed

definition kv :: "keyed list \<Rightarrow> (string \<times> bytes) list" where
  "kv keys = map (\<lambda>(k, v, _). (k, v)) keys"

definition keys_ok :: "nat \<Rightarrow> keyed list \<Rightarrow> bool" where
  "keys_ok layer keys \<longleftrightarrow> length keys < 65536 \<and>
     list_all (\<lambda>(k, v, l). l \<le> layer \<and> length k < 65536 \<and> length v = 36) keys"

definition covers :: "(bytes \<Rightarrow> bytes option) \<Rightarrow> MstBlock list \<Rightarrow> bool" where
  "covers get blocks \<longleftrightarrow> list_all (\<lambda>(c, b). get c = Some b) blocks"

lemma covers_append [simp]: "covers get (bs @ cs) \<longleftrightarrow> covers get bs \<and> covers get cs"
  by (simp add: covers_def)

lemma covers_single [simp]: "covers get [(c, b)] \<longleftrightarrow> get c = Some b"
  by (simp add: covers_def)

lemma kv_simps [simp]: "kv [] = []" "kv ((k, v, l) # keys) = (k, v) # kv keys" "kv (xs @ ys) = kv xs @ kv ys"
  by (simp_all add: kv_def)

lemma kv_split: "kv (lower_keys layer keys) @ kv (upper_keys layer keys) = kv keys"
  by (metis kv_simps(3) lower_upper)

lemma keys_ok_split:
  assumes "keys_ok layer keys"
  shows "keys_ok (layer - 1) (lower_keys layer keys)" "keys_ok layer (upper_keys layer keys)"
proof -
  have ok: "keys_ok layer (lower_keys layer keys @ upper_keys layer keys)" using assms by (simp add: lower_upper)
  have low: "list_all (\<lambda>(k, v, l). l < layer) (lower_keys layer keys)"
    by (auto simp: lower_keys_def list_all_iff dest: set_takeWhileD)
  show "keys_ok layer (upper_keys layer keys)" using ok by (simp add: keys_ok_def)
  have mono: "list_all (\<lambda>(k, v, l). l \<le> layer - 1 \<and> length k < 65536 \<and> length v = 36) ks"
    if "list_all (\<lambda>(k, v, l). l < layer) ks" "list_all (\<lambda>(k, v, l). l \<le> layer \<and> length k < 65536 \<and> length v = 36) ks" for ks
    using that by (induction ks) auto
  show "keys_ok (layer - 1) (lower_keys layer keys)" using mono [OF low] ok by (simp add: keys_ok_def)
qed

text \<open>
  The trait \<open>BlockStore\<close>: a block is stored under its content identifier and the other identifiers keep theirs.
\<close>

locale mst_store =
  fixes H :: "('x) hashes_scheme"
    and put :: "bytes \<Rightarrow> 's \<Rightarrow> bytes \<times> 's"
    and get :: "'s \<Rightarrow> bytes \<Rightarrow> bytes option"
  assumes put_cid: "fst (put data s) = cid_for_cbor H data"
    and get_put: "length cid = 36 \<Longrightarrow> get (snd (put data s)) cid = (if cid = cid_for_cbor H data then Some data else get s cid)"
begin

definition wrote :: "'s \<times> MstBlock list \<Rightarrow> 's \<times> MstBlock list \<Rightarrow> MstBlock list \<Rightarrow> bool" where
  "wrote st st' new \<longleftrightarrow> snd st' = snd st @ new \<and> fst st' = fold (\<lambda>(_, b) s. snd (put b s)) new (fst st) \<and>
     list_all (\<lambda>(c, b). c = cid_for_cbor H b) new"

lemma wrote_refl: "wrote st st []"
  by (simp add: wrote_def)

lemma wrote_trans: "wrote st st' new \<Longrightarrow> wrote st' st'' new' \<Longrightarrow> wrote st st'' (new @ new')"
  by (simp add: wrote_def)

lemma wrote_put: "wrote st (snd (put b (fst st)), snd st @ [(fst (put b (fst st)), b)]) [(fst (put b (fst st)), b)]"
  by (simp add: wrote_def put_cid)

definition subtree_ok :: "nat \<Rightarrow> bool" where
  "subtree_ok layer \<longleftrightarrow>
     (\<forall>keys st. keys_ok layer keys \<longrightarrow>
        (\<exists>cid st' new. build_subtree put layer keys st = (cid, st') \<and> wrote st st' new \<and> length cid = 36 \<and>
           (\<forall>look. covers look new \<longrightarrow> read_tree (Suc layer) look cid = Some (kv keys))))"

lemma build_lower_ok:
  assumes sub: "0 < layer \<Longrightarrow> subtree_ok (layer - 1)" and keys: "keys_ok layer keys"
  obtains c st' new where "build_lower put layer keys st = (c, st')" "wrote st st' new" "\<forall>t. c = Some t \<longrightarrow> length t = 36"
    "\<forall>look. covers look new \<longrightarrow> read_opt (read_tree layer look) c = Some (kv (lower_keys layer keys))"
proof (cases "lower_keys layer keys \<noteq> [] \<and> 0 < layer")
  case True
  then obtain cid st' new where *: "build_subtree put (layer - 1) (lower_keys layer keys) st = (cid, st')" "wrote st st' new"
      "length cid = 36" "\<forall>look. covers look new \<longrightarrow> read_tree (Suc (layer - 1)) look cid = Some (kv (lower_keys layer keys))"
    using sub keys_ok_split(1) [OF keys] unfolding subtree_ok_def by blast
  show ?thesis
    by (rule that [of "Some cid" st' new]) (use True * in \<open>simp_all add: build_lower.simps\<close>)
next
  case False
  then have "lower_keys layer keys = []" by (cases layer) (auto simp: lower_keys_def takeWhile_eq_Nil_iff split: prod.splits)
  then show ?thesis
    by (intro that [of None st "[]"]) (simp_all add: build_lower.simps wrote_refl)
qed

lemma build_leaves_ok:
  assumes sub: "0 < layer \<Longrightarrow> subtree_ok (layer - 1)" and keys: "keys_ok layer keys" and upper: "upper_keys layer keys = keys"
  shows "\<exists>es st' new. build_leaves put layer keys prev st = (es, st') \<and> wrote st st' new \<and> length es \<le> length keys \<and>
    list_all entry_ok es \<and> (\<forall>look. covers look new \<longrightarrow> read_leaves (read_tree layer look) prev es = Some (kv keys))"
  using keys upper
proof (induction "length keys" arbitrary: keys prev st rule: less_induct)
  case less
  show ?case
  proof (cases keys)
    case Nil
    then show ?thesis by (intro exI [of _ "[]"] exI [of _ st]) (simp add: build_leaves.simps wrote_refl)
  next
    case (Cons k ks)
    obtain key val l where k: "k = (key, val, l)" by (cases k)
    have l: "l = layer" and key: "length key < 65536" "length val = 36" and ks: "keys_ok layer ks"
      using less.prems length_dropWhile_le [of "\<lambda>(_, _, l). l < layer" ks]
      by (auto simp: Cons k keys_ok_def upper_keys_def split: if_splits)
    obtain c st1 new1 where low: "build_lower put layer ks st = (c, st1)" "wrote st st1 new1" "\<forall>t. c = Some t \<longrightarrow> length t = 36"
        "\<forall>look. covers look new1 \<longrightarrow> read_opt (read_tree layer look) c = Some (kv (lower_keys layer ks))"
      by (rule build_lower_ok [OF sub ks])
    have up: "keys_ok layer (upper_keys layer ks)" by (rule keys_ok_split(2) [OF ks])
    have "upper_keys layer (upper_keys layer ks) = upper_keys layer ks"
      by (simp add: upper_keys_def)
    then obtain es st2 new2 where es: "build_leaves put layer (upper_keys layer ks) key st1 = (es, st2)" "wrote st1 st2 new2"
        "length es \<le> length (upper_keys layer ks)" "list_all entry_ok es"
        "\<forall>look. covers look new2 \<longrightarrow> read_leaves (read_tree layer look) key es = Some (kv (upper_keys layer ks))"
      using less.hyps [of "upper_keys layer ks" key st1] up length_upper_keys [of layer ks] Cons by auto
    define p where "p = count_prefix_len prev key"
    define e where "e = \<lparr>me_prefix_len = p, me_key_suffix = drop p (str_bytes key), me_value = val, me_tree = c\<rparr>"
    have "build_leaves put layer keys prev st = (e # es, st2)"
      by (simp add: Cons k l build_leaves.simps low es e_def p_def Let_def)
    moreover have "wrote st st2 (new1 @ new2)" by (rule wrote_trans [OF low(2) es(2)])
    moreover have "length (e # es) \<le> length keys" using le_trans [OF es(3) length_upper_keys] Cons by simp
    moreover have "list_all entry_ok (e # es)"
      using key es(4) low(3) count_prefix_len_le [of prev key] by (simp add: entry_ok_def e_def p_def)
    moreover have "read_leaves (read_tree layer look) prev (e # es) = Some (kv keys)" if "covers look (new1 @ new2)" for look
      using that low(4) es(5) prefix_suffix [of prev key] kv_split [of layer ks] by (simp add: e_def p_def Let_def Cons k)
    ultimately show ?thesis by blast
  qed
qed

lemma build_subtree_step:
  assumes len: "\<And>data. length (cid_for_cbor H data) = 36" and sub: "0 < layer \<Longrightarrow> subtree_ok (layer - 1)"
  shows "subtree_ok layer"
  unfolding subtree_ok_def
proof (intro allI impI)
  fix keys and st :: "'s \<times> MstBlock list" assume keys: "keys_ok layer keys"
  obtain c st1 new1 where low: "build_lower put layer keys st = (c, st1)" "wrote st st1 new1" "\<forall>t. c = Some t \<longrightarrow> length t = 36"
      "\<forall>look. covers look new1 \<longrightarrow> read_opt (read_tree layer look) c = Some (kv (lower_keys layer keys))"
    by (rule build_lower_ok [OF sub keys])
  have "upper_keys layer (upper_keys layer keys) = upper_keys layer keys"
    by (simp add: upper_keys_def)
  then obtain es st2 new2 where es: "build_leaves put layer (upper_keys layer keys) [] st1 = (es, st2)" "wrote st1 st2 new2"
      "length es \<le> length (upper_keys layer keys)" "list_all entry_ok es"
      "\<forall>look. covers look new2 \<longrightarrow> read_leaves (read_tree layer look) [] es = Some (kv (upper_keys layer keys))"
    using build_leaves_ok [OF sub keys_ok_split(2) [OF keys], of "[]" st1] by blast
  define b where "b = encode_node c es"
  obtain s bl where st2: "st2 = (s, bl)" by (cases st2)
  obtain cid s' where p: "put b s = (cid, s')" by (cases "put b s")
  have cid: "cid = cid_for_cbor H b" using put_cid [of b s] p by simp
  have "length (upper_keys layer keys) < 65536" using keys_ok_split(2) [OF keys] by (simp add: keys_ok_def)
  then have node: "decode_node b = Ok (c, es)"
    unfolding b_def by (intro decode_encode_node) (use low(3) es(3,4) in \<open>simp add: node_ok_def\<close>)
  have "build_subtree put layer keys st = (cid, s', bl @ [(cid, b)])"
    by (simp add: build_subtree.simps low es st2 p Let_def flip: b_def)
  moreover have "wrote st (s', bl @ [(cid, b)]) (new1 @ new2 @ [(cid, b)])"
    using wrote_trans [OF low(2) wrote_trans [OF es(2) wrote_put [of st2 b]]] by (simp add: st2 p)
  moreover have "read_tree (Suc layer) look cid = Some (kv keys)" if "covers look (new1 @ new2 @ [(cid, b)])" for look
    using that low(4) es(5) kv_split [of layer keys] by (simp add: node)
  ultimately show "\<exists>cid st' new. build_subtree put layer keys st = (cid, st') \<and> wrote st st' new \<and> length cid = 36 \<and>
      (\<forall>look. covers look new \<longrightarrow> read_tree (Suc layer) look cid = Some (kv keys))"
    using len [of b] cid by blast
qed

lemma subtree_ok_all:
  assumes "\<And>data. length (cid_for_cbor H data) = 36"
  shows "subtree_ok layer"
  by (induction layer) (auto intro: build_subtree_step [OF assms])

lemma wrote_covers:
  assumes len: "\<And>data. length (cid_for_cbor H data) = 36"
    and "wrote st st' new" and "inj_on (sha256_digest H) (snd ` set new)"
  shows "covers (get (fst st')) new"
proof -
  have "list_all (\<lambda>(c, b). c = cid_for_cbor H b) new \<Longrightarrow> inj_on (sha256_digest H) (snd ` set new) \<Longrightarrow>
      covers (get (fold (\<lambda>(_, b) s. snd (put b s)) new s)) new" for s
  proof (induction new rule: rev_induct)
    case Nil
    then show ?case by (simp add: covers_def)
  next
    case (snoc x new)
    obtain c b where x: "x = (c, b)" by (cases x)
    define s1 where "s1 = fold (\<lambda>(_, b) s. snd (put b s)) new s"
    have c: "c = cid_for_cbor H b" using snoc.prems by (simp add: x)
    have IH: "covers (get s1) new"
      using snoc by (auto simp: s1_def intro: inj_on_subset)
    have "get (snd (put b s1)) c' = Some b'" if "(c', b') \<in> set new" for c' b'
    proof -
      have c': "c' = cid_for_cbor H b'" "get s1 c' = Some b'" using that snoc.prems(1) IH by (auto simp: list_all_iff covers_def)
      have "b' = b" if "c' = cid_for_cbor H b"
        using that c' snoc.prems(2) \<open>(c', b') \<in> set new\<close> by (force simp: x cid_for_cbor_def inj_on_def)
      then show ?thesis using c' len by (auto simp: get_put)
    qed
    then have "covers (get (snd (put b s1))) new" by (auto simp: covers_def list_all_iff)
    then show ?case using c len by (simp add: x get_put flip: s1_def)
  qed
  with assms show ?thesis by (simp add: wrote_def)
qed

end

interpretation mst_mem: mst_store H "blocks_put H" blocks_get for H :: "('x) hashes_scheme"
  by unfold_locales (simp_all add: blocks_put_def blocks_get_def Let_def)

lemma read_opt_mono:
  assumes "\<And>c xs. f c = Some xs \<Longrightarrow> g c = Some xs"
  shows "read_opt f c = Some xs \<Longrightarrow> read_opt g c = Some xs"
  using assms by (cases c) auto

lemma read_leaves_mono:
  assumes "\<And>c xs. f c = Some xs \<Longrightarrow> g c = Some xs"
  shows "read_leaves f prev es = Some xs \<Longrightarrow> read_leaves g prev es = Some xs"
proof (induction es arbitrary: prev xs)
  case Nil
  then show ?case by simp
next
  case (Cons e es)
  define key where "key = take (me_prefix_len e) prev @ bytes_str (me_key_suffix e)"
  obtain t r where "read_opt f (me_tree e) = Some t" "read_leaves f key es = Some r" "xs = (key, me_value e) # t @ r"
    using Cons.prems by (auto simp: Let_def split: option.splits simp flip: key_def)
  moreover from this have "read_opt g (me_tree e) = Some t" "read_leaves g key es = Some r"
    using read_opt_mono [of f g, OF assms] Cons.IH by blast+
  ultimately show ?case by (simp add: Let_def flip: key_def)
qed

lemma read_tree_Suc: "read_tree n look c = Some xs \<Longrightarrow> read_tree (Suc n) look c = Some xs"
proof (induction n arbitrary: c xs)
  case 0
  then show ?case by simp
next
  case (Suc n)
  obtain b left es t r where *: "look c = Some b" "decode_node b = Ok (left, es)" "read_opt (read_tree n look) left = Some t"
      "read_leaves (read_tree n look) [] es = Some r" "xs = t @ r"
    using Suc.prems by (auto split: option.splits result.splits)
  then have "read_opt (read_tree (Suc n) look) left = Some t" "read_leaves (read_tree (Suc n) look) [] es = Some r"
    using read_opt_mono [where f = "read_tree n look"] read_leaves_mono [where f = "read_tree n look"] Suc.IH by blast+
  with * show ?case by (subst read_tree.simps) (simp del: read_tree.simps)
qed

lemma read_tree_mono: "read_tree n look c = Some xs \<Longrightarrow> n \<le> m \<Longrightarrow> read_tree m look c = Some xs"
  by (rotate_tac, induction rule: dec_induct) (auto intro: read_tree_Suc simp del: read_tree.simps)

lemma leading_zeros_le:
  assumes "hashes_ok H"
  shows "leading_zeros H key \<le> 128"
proof -
  have "count_zeros bs n \<le> n + 4 * length bs" for bs n
    by (induction bs n rule: count_zeros.induct) auto
  from this [of "sha256_digest H (str_bytes key)" 0] show ?thesis
    using assms by (simp add: leading_zeros_def hashes_ok_sha256)
qed

lemma cid_for_cbor_length: "hashes_ok H \<Longrightarrow> length (cid_for_cbor H data) = 36"
  by (simp add: cid_for_cbor_def hashes_ok_sha256)

section \<open>The written tree\<close>

definition mst_ok :: "Mst \<Rightarrow> bool" where
  "mst_ok m \<longleftrightarrow> hm_ok (mst_entries m) \<and> list_all (\<lambda>(k, v). is_valid_mst_key k \<and> length v = 36) (mst_entries m)"

lemma valid_mst_key_length: "is_valid_mst_key key \<Longrightarrow> length key \<le> 1024"
  by (auto simp: is_valid_mst_key_def MAX_KEY_LEN_def split: if_splits)

lemma mst_iter_set: "set (mst_iter m) = set (mst_entries m)" "length (mst_iter m) = length (mst_entries m)"
  by (simp_all add: mst_iter_def)

lemma sort_key_unique:
  assumes "hm_ok a" and "hm_ok b" and "\<And>k. hget a k = hget b k"
  shows "sort_key fst a = sort_key fst b"
proof -
  have ab: "set a = set b" using hget_eq_Some assms by (metis subsetI subset_antisym prod.collapse)
  have d: "distinct (map fst (sort_key fst a))" "distinct (map fst (sort_key fst b))"
    using assms(1,2) by (simp_all add: hm_ok_def distinct_map)
  have "map fst (sort_key fst a) = map fst (sort_key fst b)"
    by (rule sorted_distinct_set_unique) (use d ab in simp_all)
  moreover have "x = y" if "x \<in> set (sort_key fst a)" "y \<in> set (sort_key fst b)" "fst x = fst y" for x y
    using that d(1) ab by (auto simp: distinct_map inj_on_def)
  ultimately show ?thesis by (intro nth_equalityI) (metis length_map, metis length_map nth_map nth_mem)
qed

context mst_store
begin

lemma write_to_store_ok:
  assumes H: "hashes_ok H" and m: "mst_ok m" "mst_len m < 65536"
  obtains root st' where "write_to_store H put m s = (root, st')" "wrote (s, []) st' (snd st')"
    "\<forall>look. covers look (snd st') \<longrightarrow> read_tree 129 look root = Some (mst_iter m)"
proof (cases "mst_is_empty m")
  case True
  define b where "b = encode_node None []"
  have "decode_node b = Ok (None, [])" unfolding b_def by (intro decode_encode_node) (simp add: node_ok_def)
  then have "read_tree (Suc 0) look c = Some []" if "look c = Some b" for look c using that by simp
  then have rd: "look c = Some b \<Longrightarrow> read_tree 129 look c = Some []" for look c by (rule read_tree_mono) simp_all
  show ?thesis
  proof (rule that [of "fst (put b s)" "(snd (put b s), [(fst (put b s), b)])"])
    show "write_to_store H put m s = (fst (put b s), snd (put b s), [(fst (put b s), b)])"
      using True by (simp add: write_to_store_def b_def case_prod_beta Let_def)
    show "wrote (s, []) (snd (put b s), [(fst (put b s), b)]) (snd (snd (put b s), [(fst (put b s), b)]))"
      using wrote_put [of "(s, [])" b] by simp
    have "mst_iter m = []" using True by (simp add: mst_is_empty_def mst_iter_def)
    then show "\<forall>look. covers look (snd (snd (put b s), [(fst (put b s), b)])) \<longrightarrow> read_tree 129 look (fst (put b s)) = Some (mst_iter m)"
      using rd by (metis covers_single snd_conv)
  qed
next
  case False
  define keyed where "keyed = map (\<lambda>(k, v). (k, v, leading_zeros H k)) (mst_iter m)"
  define layer where "layer = Max (set (map (\<lambda>(_, _, l). l) keyed))"
  have ne: "mst_iter m \<noteq> []" using False mst_iter_set(2) [of m] by (auto simp: mst_is_empty_def)
  have le: "l \<le> layer" if "(k, v, l) \<in> set keyed" for k v l using that unfolding layer_def by (force intro: Max_ge)
  have "layer \<in> set (map (\<lambda>(_, _, l). l) keyed)" unfolding layer_def by (rule Max_in) (use ne in \<open>simp_all add: keyed_def\<close>)
  then have bound: "layer \<le> 128" using leading_zeros_le [OF H] by (auto simp: keyed_def)
  have "\<forall>(k, v, l) \<in> set keyed. length k < 65536 \<and> length v = 36"
    using m(1) valid_mst_key_length by (fastforce simp: keyed_def mst_iter_set mst_ok_def list_all_iff)
  moreover have "length keyed < 65536" using m(2) by (simp add: keyed_def mst_iter_set mst_len_def)
  ultimately have "keys_ok layer keyed" using le by (auto simp: keys_ok_def list_all_iff)
  then obtain root st' new where *: "build_subtree put layer keyed (s, []) = (root, st')" "wrote (s, []) st' new"
      "\<forall>look. covers look new \<longrightarrow> read_tree (Suc layer) look root = Some (kv keyed)"
    using subtree_ok_all [OF cid_for_cbor_length [OF H], of layer] unfolding subtree_ok_def by blast
  have kv: "kv keyed = mst_iter m" by (simp add: kv_def keyed_def o_def case_prod_beta)
  have new: "snd st' = new" using *(2) by (simp add: wrote_def)
  show ?thesis
  proof (rule that [of root st'])
    show "write_to_store H put m s = (root, st')"
      using False *(1) unfolding write_to_store_def Let_def keyed_def layer_def by simp
    show "wrote (s, []) st' (snd st')" using *(2) new by simp
    show "\<forall>look. covers look (snd st') \<longrightarrow> read_tree 129 look root = Some (mst_iter m)"
    proof (intro allI impI)
      fix look assume "covers look (snd st')"
      then have "read_tree (Suc layer) look root = Some (mst_iter m)" using *(3) unfolding new kv by blast
      then show "read_tree 129 look root = Some (mst_iter m)" by (rule read_tree_mono) (use bound in simp)
    qed
  qed
qed

end

text \<open>
  Two maps that write the same root, or the maps of any two trees whose blocks do not collide, are equal;
  a look-up over both lists of blocks reads both.
\<close>

lemma covers_map_of:
  assumes "list_all (\<lambda>(c, b). c = cid_for_cbor H b) bs" and "inj_on (sha256_digest H) (snd ` set bs)"
  shows "covers (map_of bs) bs"
proof -
  have "map_of bs c = Some b" if cb: "(c, b) \<in> set bs" for c b
  proof -
    obtain b' where b': "map_of bs c = Some b'" using weak_map_of_SomeI [OF cb] by blast
    then have "(c, b') \<in> set bs" by (rule map_of_SomeD)
    with cb assms(1) have "c = cid_for_cbor H b" "c = cid_for_cbor H b'" by (auto simp: list_all_iff)
    then have "cid_for_cbor H b = cid_for_cbor H b'" by simp
    then have "sha256_digest H b = sha256_digest H b'" by (simp add: cid_for_cbor_def)
    moreover have "b \<in> snd ` set bs" "b' \<in> snd ` set bs" using imageI [OF cb, of snd] imageI [OF \<open>(c, b') \<in> set bs\<close>, of snd] by simp_all
    ultimately have "b = b'" by (rule inj_onD [OF assms(2)])
    with b' show ?thesis by simp
  qed
  then show ?thesis by (auto simp: covers_def list_all_iff)
qed

lemma mst_iter_get:
  assumes "mst_ok m"
  shows "mst_get m k = map_of (mst_iter m) k"
proof -
  have "distinct (map fst (mst_iter m))" "distinct (map fst (mst_entries m))"
    using assms by (simp_all add: mst_ok_def hm_ok_def mst_iter_def distinct_map)
  then show ?thesis by (simp add: mst_get_def hget_def map_of_inject_set [symmetric] mst_iter_set) (metis map_of_inject_set mst_iter_set(1))
qed

lemma mst_ok_iff:
  "mst_ok m \<longleftrightarrow> hm_ok (mst_entries m) \<and> (\<forall>k v. mst_get m k = Some v \<longrightarrow> is_valid_mst_key k \<and> length v = 36)"
  by (auto simp: mst_ok_def mst_get_def hget_eq_Some list_all_iff)

text \<open>
  The operations of the map as values. Values are arrays of 36 bytes in the source.
\<close>

datatype mst_op = OpInsert string bytes | OpUpdate string bytes | OpDelete string

fun mst_apply :: "mst_op \<Rightarrow> Mst \<Rightarrow> Mst" where
  "mst_apply (OpInsert k v) m = snd (mst_insert k v m)"
| "mst_apply (OpUpdate k v) m = snd (mst_update k v m)"
| "mst_apply (OpDelete k) m = snd (mst_delete k m)"

fun mst_op_typed :: "mst_op \<Rightarrow> bool" where
  "mst_op_typed (OpInsert k v) \<longleftrightarrow> length v = 36"
| "mst_op_typed (OpUpdate k v) \<longleftrightarrow> length v = 36"
| "mst_op_typed (OpDelete k) \<longleftrightarrow> True"

lemma mst_ok_apply: "mst_ok m \<Longrightarrow> mst_op_typed op \<Longrightarrow> mst_ok (mst_apply op m)"
  by (cases op) (auto simp: mst_insert_def mst_update_def mst_delete_def mst_ok_iff mst_get_def split: if_splits)

text \<open>
  C39. Whatever the sequence of insertions, updates and deletions, failed ones included, a tree holds every key once,
  every key is a valid record key and every value an identifier of 36 bytes.
\<close>

theorem mst_type_invariant:
  assumes "list_all mst_op_typed ops"
  shows "mst_ok (fold mst_apply ops mst_new)"
proof -
  have "mst_ok m \<Longrightarrow> list_all mst_op_typed ops \<Longrightarrow> mst_ok (fold mst_apply ops m)" for m
    by (induction ops arbitrary: m) (auto intro: mst_ok_apply)
  moreover have "mst_ok mst_new" by (simp add: mst_ok_def mst_new_def)
  ultimately show ?thesis using assms by blast
qed

theorem mst_type_invariant_witness:
  "mst_ok (fold mst_apply [OpInsert ''app/one'' (replicate 36 1), OpUpdate ''app/two'' (replicate 36 2), OpInsert ''no key'' (replicate 36 3),
     OpDelete ''app/three''] mst_new)"
  by (rule mst_type_invariant) simp

text \<open>One record whose key lies on layer 0.\<close>

definition one_record :: Mst where
  "one_record = \<lparr>mst_entries = [(''app/one'', replicate 36 1)]\<rparr>"

lemma one_record_ok: "mst_ok one_record" "mst_len one_record < 65536" "mst_iter one_record = [(''app/one'', replicate 36 1)]"
  by (simp_all add: mst_ok_def one_record_def is_valid_mst_key_def MAX_KEY_LEN_def is_valid_mst_char_def byte_of_char_def hm_ok_def
    mst_len_def mst_iter_def)

lemma one_record_written:
  "\<exists>root s' b. write_to_store sample_hashes (blocks_put sample_hashes) one_record s = (root, s', [(root, b)])"
proof -
  have "leading_zeros sample_hashes ''app/one'' = 0"
    by (simp add: leading_zeros_def sample_hashes_def pad_digest_def byte_of_char_def)
  then show ?thesis
    by (simp add: write_to_store_def mst_is_empty_def one_record_ok(3)) (simp add: one_record_def build_subtree.simps build_lower.simps
      build_leaves.simps upper_keys_def lower_keys_def blocks_put_def Let_def)
qed

text \<open>
  C2. The blocks written for a map of fewer than 65536 records read back from the store, in at most 129 levels, as
  exactly the records in key order, when no two different blocks of the tree have the same SHA-256 digest; every block
  is stored under its content identifier.
\<close>

theorem mst_reads_back:
  fixes H :: "('x) hashes_scheme"
  assumes "hashes_ok H" and "mst_ok m" and "mst_len m < 65536"
    and "write_to_store H (blocks_put H) m s = (root, s', blocks)"
    and "inj_on (sha256_digest H) (snd ` set blocks)"
  shows "read_tree 129 (blocks_get s') root = Some (mst_iter m) \<and>
    list_all (\<lambda>(c, b). c = cid_for_cbor H b \<and> blocks_get s' c = Some b) blocks"
proof -
  obtain root' st' where *: "write_to_store H (blocks_put H) m s = (root', st')" "mst_mem.wrote TYPE('x) H (s, []) st' (snd st')"
      "\<forall>look. covers look (snd st') \<longrightarrow> read_tree 129 look root' = Some (mst_iter m)"
    by (rule mst_mem.write_to_store_ok [OF assms(1-3)])
  have st: "root' = root" "st' = (s', blocks)" using *(1) assms(4) by simp_all
  have cov: "covers (blocks_get s') blocks"
    using mst_mem.wrote_covers [OF cid_for_cbor_length [OF assms(1)] *(2)] assms(5) by (simp add: st)
  moreover have "list_all (\<lambda>(c, b). c = cid_for_cbor H b) blocks" using *(2) by (simp add: st mst_mem.wrote_def)
  ultimately have "list_all (\<lambda>(c, b). c = cid_for_cbor H b \<and> blocks_get s' c = Some b) blocks"
    by (auto simp: covers_def list_all_iff)
  then show ?thesis using *(3) cov by (simp add: st)
qed

theorem mst_reads_back_witness:
  "\<exists>root s' blocks. write_to_store sample_hashes (blocks_put sample_hashes) one_record blocks_new = (root, s', blocks) \<and>
     read_tree 129 (blocks_get s') root = Some [(''app/one'', replicate 36 1)]"
proof -
  obtain root s' b where w: "write_to_store sample_hashes (blocks_put sample_hashes) one_record blocks_new = (root, s', [(root, b)])"
    using one_record_written by blast
  have "inj_on (sha256_digest sample_hashes) (snd ` set [(root, b)])" by simp
  from mst_reads_back [OF sample_hashes_ok one_record_ok(1,2) w this] w show ?thesis by (auto simp: one_record_ok(3))
qed

text \<open>
  C5. The root of a written tree commits to the whole map and to nothing else: two maps have the same root exactly when
  they have the same records, whatever the order they were inserted in, when no two different blocks
  of the two trees have the same SHA-256 digest.
\<close>

theorem mst_root_commits:
  fixes H :: "('x) hashes_scheme"
  assumes "hashes_ok H" and "mst_ok m" and "mst_len m < 65536" and "mst_ok n" and "mst_len n < 65536"
    and "write_to_store H (blocks_put H) m blocks_new = (root, s, blocks)"
    and "write_to_store H (blocks_put H) n blocks_new = (root', s', blocks')"
    and "inj_on (sha256_digest H) (snd ` set (blocks @ blocks'))"
  shows "root = root' \<longleftrightarrow> (\<forall>key. mst_get m key = mst_get n key)"
proof
  assume "root = root'"
  have rd: "list_all (\<lambda>(c, b). c = cid_for_cbor H b) bs \<and> (\<forall>look. covers look bs \<longrightarrow> read_tree 129 look r = Some (mst_iter k))"
    if k: "mst_ok k" "mst_len k < 65536" "write_to_store H (blocks_put H) k blocks_new = (r, t, bs)" for k r t bs
  proof -
    obtain root' st' where *: "write_to_store H (blocks_put H) k blocks_new = (root', st')" "mst_mem.wrote TYPE('x) H (blocks_new, []) st' (snd st')"
        "\<forall>look. covers look (snd st') \<longrightarrow> read_tree 129 look root' = Some (mst_iter k)"
      by (rule mst_mem.write_to_store_ok [OF assms(1) k(1,2)])
    have "root' = r" "st' = (t, bs)" using *(1) k(3) by simp_all
    with * show ?thesis by (simp add: mst_mem.wrote_def)
  qed
  have "list_all (\<lambda>(c, b). c = cid_for_cbor H b) (blocks @ blocks')"
    using rd [OF assms(2,3,6)] rd [OF assms(4,5,7)] by simp
  then have "covers (map_of (blocks @ blocks')) (blocks @ blocks')" by (rule covers_map_of [OF _ assms(8)])
  then have "covers (map_of (blocks @ blocks')) blocks" "covers (map_of (blocks @ blocks')) blocks'" by simp_all
  then have "read_tree 129 (map_of (blocks @ blocks')) root = Some (mst_iter m)"
      "read_tree 129 (map_of (blocks @ blocks')) root' = Some (mst_iter n)"
    using rd [OF assms(2,3,6)] rd [OF assms(4,5,7)] by blast+
  with \<open>root = root'\<close> have "mst_iter m = mst_iter n" by simp
  then show "\<forall>key. mst_get m key = mst_get n key" using assms(2,4) by (simp add: mst_iter_get)
next
  assume "\<forall>key. mst_get m key = mst_get n key"
  then have "mst_iter m = mst_iter n"
    unfolding mst_iter_def using assms(2,4) by (intro sort_key_unique) (simp_all add: mst_ok_def mst_get_def)
  moreover have "mst_is_empty k \<longleftrightarrow> mst_iter k = []" for k using mst_iter_set(2) [of k] by (auto simp: mst_is_empty_def)
  ultimately have "write_to_store H (blocks_put H) m blocks_new = write_to_store H (blocks_put H) n blocks_new"
    by (simp add: write_to_store_def)
  then show "root = root'" using assms(6,7) by simp
qed


theorem mst_root_commits_witness:
  "\<exists>root root' s s' blocks blocks'.
     write_to_store sample_hashes (blocks_put sample_hashes) one_record blocks_new = (root, s, blocks) \<and>
     write_to_store sample_hashes (blocks_put sample_hashes)
       (fold mst_apply [OpInsert ''app/one'' (replicate 36 2), OpUpdate ''app/one'' (replicate 36 1)] mst_new) blocks_new =
       (root', s', blocks') \<and>
     root = root'"
proof -
  let ?n = "fold mst_apply [OpInsert ''app/one'' (replicate 36 2), OpUpdate ''app/one'' (replicate 36 1)] mst_new"
  have "is_valid_mst_key ''app/one''" using one_record_ok(1) by (simp add: mst_ok_def one_record_def)
  then have n: "?n = one_record"
    by (simp add: mst_insert_def mst_update_def mst_new_def one_record_def hput_def hget_def)
  obtain root s' b where w: "write_to_store sample_hashes (blocks_put sample_hashes) one_record blocks_new = (root, s', [(root, b)])"
    using one_record_written by blast
  have "inj_on (sha256_digest sample_hashes) (snd ` set ([(root, b)] @ [(root, b)]))" by simp
  from mst_root_commits [OF sample_hashes_ok one_record_ok(1,2) one_record_ok(1,2) w w this] w show ?thesis
    unfolding n by blast
qed

text \<open>The difference of two trees turns the old one into the new one.\<close>

definition apply_diff :: "MstDiff \<Rightarrow> (string, bytes) hmap \<Rightarrow> (string, bytes) hmap" where
  "apply_diff d m =
     fold (\<lambda>(k, _). hdel k) (md_deleted d)
       (fold (\<lambda>(k, change). hput k (snd change)) (md_updated d) (fold (\<lambda>(k, v). hput k v) (md_created d) m))"

lemma fold_hdel: "hget (fold (\<lambda>(k, _). hdel k) xs m) k = (if k \<in> fst ` set xs then None else hget m k)"
  by (induction xs arbitrary: m) auto

lemma fold_hput:
  "distinct (map fst xs) \<Longrightarrow> hget (fold (\<lambda>(k, v). hput k (f v)) xs m) k = (case map_of xs k of Some v \<Rightarrow> Some (f v) | None \<Rightarrow> hget m k)"
  by (induction xs arbitrary: m) (auto split: option.splits simp: map_of_eq_None_iff image_iff)

lemma distinct_fst_map_filter:
  assumes "distinct (map fst xs)" and "\<And>x y. f x = Some y \<Longrightarrow> fst y = fst x"
  shows "distinct (map fst (List.map_filter f xs))"
proof -
  have "fst ` set (List.map_filter f ys) \<subseteq> fst ` set ys" for ys
    using assms(2) by (induction ys) (auto simp: map_filter_simps split: option.splits)
  with assms(1) show ?thesis
  proof (induction xs)
    case Nil
    then show ?case by (simp add: map_filter_simps)
  next
    case (Cons x xs)
    then show ?case using assms(2) by (auto simp: map_filter_simps split: option.splits)
  qed
qed

lemma fst_image_iff: "k \<in> fst ` set xs \<longleftrightarrow> (\<exists>v. (k, v) \<in> set xs)"
  by force

lemma in_map_filter: "y \<in> set (List.map_filter f xs) \<longleftrightarrow> (\<exists>x \<in> set xs. f x = Some y)"
  by (induction xs) (auto simp: map_filter_simps split: option.splits)

lemma mst_iter_mem: "mst_ok m \<Longrightarrow> (k, v) \<in> set (mst_iter m) \<longleftrightarrow> mst_get m k = Some v"
  by (simp add: mst_iter_set mst_get_def hget_eq_Some mst_ok_def)

lemma mst_iter_distinct: "mst_ok m \<Longrightarrow> distinct (map fst (mst_iter m))"
  by (simp add: mst_ok_def hm_ok_def mst_iter_def distinct_map)

lemma mst_diff_mem:
  assumes "mst_ok new" and "mst_ok old"
  shows "(k, v) \<in> set (md_created (mst_diff new old)) \<longleftrightarrow> mst_get new k = Some v \<and> mst_get old k = None"
    and "(k, u, v) \<in> set (md_updated (mst_diff new old)) \<longleftrightarrow> mst_get new k = Some v \<and> mst_get old k = Some u \<and> u \<noteq> v"
    and "(k, u) \<in> set (md_deleted (mst_diff new old)) \<longleftrightarrow> mst_get old k = Some u \<and> mst_get new k = None"
  using assms by (auto simp: mst_diff_def mst_iter_mem)
    (force simp: in_map_filter mst_iter_mem split: option.splits if_splits intro!: bexI [of _ "(k, v)"])+

text \<open>
  C40. The difference of two trees lists the keys created, updated and deleted: applied to the old tree it gives
  the new one, and a key is listed exactly when its record differs.
\<close>

theorem mst_diff_applies:
  assumes "mst_ok new" and "mst_ok old"
  shows "hget (apply_diff (mst_diff new old) (mst_entries old)) key = mst_get new key \<and>
    (key \<in> fst ` set (md_created (mst_diff new old)) \<union> fst ` set (md_updated (mst_diff new old)) \<union>
       fst ` set (md_deleted (mst_diff new old)) \<longleftrightarrow> mst_get new key \<noteq> mst_get old key)"
proof -
  define c u d where "c = md_created (mst_diff new old)" and "u = md_updated (mst_diff new old)" and "d = md_deleted (mst_diff new old)"
  have "distinct (map fst c)"
    using mst_iter_distinct [OF assms(1)] by (simp add: c_def mst_diff_def distinct_map inj_on_def)
  moreover have "distinct (map fst u)" unfolding u_def mst_diff_def MstDiff.simps
    by (rule distinct_fst_map_filter [OF mst_iter_distinct [OF assms(1)]]) (auto split: option.splits if_splits)
  ultimately have dist: "distinct (map fst c)" "distinct (map fst u)" .
  note mem = mst_diff_mem [OF assms, folded c_def u_def d_def]
  have in_c: "key \<in> fst ` set c \<longleftrightarrow> mst_get new key \<noteq> None \<and> mst_get old key = None" by (auto simp: mem fst_image_iff)
  have in_u: "key \<in> fst ` set u \<longleftrightarrow> (\<exists>a b. mst_get new key = Some b \<and> mst_get old key = Some a \<and> a \<noteq> b)" by (auto simp: mem fst_image_iff)
  have in_d: "key \<in> fst ` set d \<longleftrightarrow> mst_get new key = None \<and> mst_get old key \<noteq> None" by (auto simp: mem fst_image_iff)
  have "map_of c key = (if mst_get old key = None then mst_get new key else None)"
    using in_c mem(1) [of key] dist(1) by (cases "map_of c key") (auto simp: map_of_eq_None_iff)
  moreover have "map_of u key = (case (mst_get old key, mst_get new key) of (Some a, Some b) \<Rightarrow> if a \<noteq> b then Some (a, b) else None | _ \<Rightarrow> None)"
    using in_u mem(2) [of key] dist(2) by (cases "map_of u key") (auto simp: map_of_eq_None_iff split: option.splits)
  ultimately have "hget (apply_diff (mst_diff new old) (mst_entries old)) key = mst_get new key"
    using in_d fold_hput [OF dist(1), of "\<lambda>v. v"] fold_hput [OF dist(2), of snd]
    by (auto simp: apply_diff_def fold_hdel mst_get_def split: option.splits simp flip: c_def u_def d_def)
  moreover have "key \<in> fst ` set c \<union> fst ` set u \<union> fst ` set d \<longleftrightarrow> mst_get new key \<noteq> mst_get old key"
    using in_c in_u in_d by (cases "mst_get new key"; cases "mst_get old key") auto
  ultimately show ?thesis by (simp add: c_def u_def d_def)
qed

theorem mst_diff_applies_witness:
  "hget (apply_diff (mst_diff one_record mst_new) (mst_entries mst_new)) ''app/one'' = Some (replicate 36 1)"
proof -
  have "mst_ok mst_new" by (simp add: mst_ok_def mst_new_def)
  then show ?thesis
    using mst_diff_applies [OF one_record_ok(1), of mst_new "''app/one''"] by (simp add: mst_get_def one_record_def hget_def)
qed

end
