(* ===== verification/Spec2Isabelle.thy ===== *)
theory Spec2Isabelle
  imports Prelude Kappa_Label Kappa_Compute Kappa_Path Codec Types Merkle Epoch Delta Bundle
    Identity File_System Blob_Store Memory_Store Memory_Upload Memory_Namespace Memory_Edge Memory_Epoch
    Gc Dist_Gc Transaction Event_Log Clock Counter Membership
    At_Tid At_Cid At_Car At_Mst At_Tree
begin

text \<open>
  A model of kappa-registry, a content-addressed registry written in Rust, with the theorems
  that make its components correct. The library follows the crates of \<open>src/crates\<close>.

  \<^bold>\<open>The program.\<close> Every object is a blob named by its kappa-label, an axis and the digest of the
  content (\<open>sha256:...\<close>). \<open>kappa-core\<close> defines labels, paths, the store interface and an in-memory store that
  keeps blobs as files and everything else in hash maps: mutable tags, edges between blobs, namespaces, epochs,
  uploads, identity records. Around the store are Merkle trees and epoch roots, a delta codec and a bundle
  format for bulk transfer, garbage collection, transactions, an event log, a clock, a persisted counter and the cluster
  membership. The protocol modules (atproto, distribution, git, nix, OCI, S3) and the server translate requests into
  operations on the store.

  \<^bold>\<open>Conventions\<close> (\<open>Prelude\<close>, \<open>Codec\<close>, \<open>File_System\<close>, \<open>Types\<close>). A fallible function returns
  \<open>Ok\<close>, \<open>Err\<close> or \<open>Panic\<close>, so a panic is a value of the model; \<open>rbind\<close> is the question-mark operator.
  An operation with \<open>&self\<close> on a locked state returns its result with the new state (\<open>stateful\<close>, \<open>sbind\<close>); the
  state is returned also when it fails. A Rust string is the list of its UTF-8 bytes as
  characters, bytes are words of 8 bits, fixed-width integers are words where they may wrap, and positions in
  buffers are natural numbers reduced modulo \<open>2 ^ 64\<close> where the source adds without a check (release builds). A
  \<open>HashMap\<close> or \<open>BTreeMap\<close> is an association list (\<open>hmap\<close>), sorted where the source iterates in order.
  Code outside the repository is a parameter: the records \<open>hashes\<close>, \<open>externals\<close> and \<open>crypto\<close> hold the
  hash functions, hex and CBOR encoders and signature checks, with the predicates \<open>hashes_ok\<close> and
  \<open>externals_ok\<close> for what their documentation promises (digest lengths, decoders that undo encoders); \<open>sample_hashes\<close> and
  \<open>sample_crypto\<close> satisfy them. Nowhere is a hash assumed injective: where collisions matter the theorem asks that the
  inputs hashed in that run do not collide. The clock and random bytes are arguments.

  \<^bold>\<open>Labels and content\<close> (\<open>Kappa_Label\<close>, \<open>Kappa_Compute\<close>, \<open>Kappa_Path\<close>: \<open>kappa/label.rs\<close>,
  \<open>kappa/compute.rs\<close>, \<open>verified.rs\<close>, \<open>kappa/path.rs\<close>). The label parser accepts exactly the well-formed texts, one-shot
  and streaming hashing agree, verified content has the label it carries, and valid labels have distinct paths.

  \<^bold>\<open>Trees and wire formats\<close> (\<open>Merkle\<close>, \<open>Epoch\<close>, \<open>Delta\<close>, \<open>Bundle\<close>: the files of these names in
  \<open>kappa-core\<close>). Inclusion proofs are complete and sound, epoch roots and bundles round-trip and decoders accept only
  what they verified. The locale \<open>pos_codec\<close> of \<open>Codec\<close> is the contract of an encoder with a decoder at a position
  of a buffer; it is interpreted for every field format, and \<open>pos_codec2\<close> sequences two of them.

  \<^bold>\<open>Store\<close> (\<open>Blob_Store\<close>, \<open>Memory_Store\<close>, \<open>Memory_Upload\<close>, \<open>Memory_Namespace\<close>, \<open>Memory_Edge\<close>,
  \<open>Memory_Epoch\<close>: \<open>store/mod.rs\<close>, \<open>store/memory\<close>). \<open>InMemoryStore\<close> has one field per field of the struct;
  each method is one operation. The locale \<open>blob_store\<close> states what the blob methods promise and is interpreted
  on the in-memory store. The blobs refine a map from labels to contents, tags have versions that advance by one and
  batches are atomic, uploads complete under the label of their parts, edges refine a set and are found by queries, epochs form a
  hash chain, successions always resolve or fail after ten hops.

  \<^bold>\<open>Identity\<close> (\<open>Identity\<close>: \<open>identity/*.rs\<close>, \<open>crypto/anchor.rs\<close>, the verifiers of \<open>crypto\<close>). Resolution of assertions under
  revocations and watermarks, and the trust a node derives from probes of its peers.

  \<^bold>\<open>Collection and transactions\<close> (\<open>Gc\<close>, \<open>Dist_Gc\<close>, \<open>Transaction\<close>: \<open>gc.rs\<close>, the collection
  endpoints of the distribution module, \<open>transaction.rs\<close>). A sweep deletes exactly what no root reaches; limits of
  transactions hold for every sequence of operations and a commit moves exactly the staged content, through the
  locale \<open>ingest_store\<close> of what a transaction needs of its store.

  \<^bold>\<open>Events, time, membership\<close> (\<open>Event_Log\<close>, \<open>Clock\<close>, \<open>Counter\<close>, \<open>Membership\<close>: \<open>events.rs\<close>,
  \<open>broadcast.rs\<close>, \<open>ws_events.rs\<close>, \<open>events_sse.rs\<close>, \<open>clock/ntp_lamport.rs\<close>, \<open>counter.rs\<close>, \<open>version.rs\<close>,
  \<open>membership.rs\<close>). Interleavings are sequences of the atomic steps of an operation, such as taking a number
  and storing the event.

  \<^bold>\<open>Atproto repositories\<close> (\<open>At_Tid\<close>, \<open>At_Cid\<close>, \<open>At_Car\<close>, \<open>At_Mst\<close>, \<open>At_Tree\<close>:
  \<open>kappa-module-atproto/src\<close> \<open>tid.rs\<close>, \<open>cid.rs\<close>, \<open>car.rs\<close>, \<open>mst.rs\<close>). Timestamp identifiers increase and
  parse back, content identifiers and archives round-trip, the Merkle search tree written for a map of records
  reads back as the map (locale \<open>mst_store\<close> for the block store trait), its root commits to the map, and differences apply.

  \<^bold>\<open>Bounds.\<close> Loops are recursive functions with termination proofs. The two walks of the collector may
  run for ever on infinite references and are partial functions whose result \<open>None\<close> means that; the sweep
  theorem shows that they return. The only fuel is that of \<open>read_tree\<close> of \<open>At_Tree\<close>, a specification: a tree has at most
  129 levels because a SHA-256 digest has at most 128 leading zero pairs. A node of a search tree is limited to 65535 entries by its
  array header.

  \<^bold>\<open>Not modelled.\<close> HTTP routing, request parsing and response building; the third-party crates (JSON, XML, gix,
  akd, the reconciliation tree, FROST, AEAD, governor, redb, the veilid transport); traits with only a no-op
  implementation. The following is code of the repository that a model could cover and this one does not: the redb
  store; authorisation; commits, firehose frames, sessions and the repository handlers of atproto, so that the search tree is
  verified on its own and not together with \<open>rebuild_mst_and_commit\<close>; request signatures; the frames of encrypted
  blobs and the key files; envelopes, pack headers, references and the protocol of git; the narinfo codec and reference
  scan of nix; the S3 listing; the compositions of the distribution module; the reconciliation exchange; the detection of protocols
  in request paths. Locks are modelled by making the locked section one step; where the source releases a lock inside an
  operation, the event log and the counter are split into their steps and transactions are not.
\<close>

end
